(* ===== verification/Prelude.thy ===== *)
theory Prelude
  imports Main "HOL-Library.Word"
begin

text \<open>
  What the component theories share: names for the machine types of the C code, C strings and
  buffers, number printing as \<^verbatim>\<open>printf\<close> does it, searching a digit table as \<^verbatim>\<open>strchr\<close> does
  it, and generic lemmas about lists.

  A C string is the list of its characters before the terminating NUL. A buffer is a list whose
  length is its capacity. An access outside a buffer is the value \<^term>\<open>None\<close> of an
  option type: it stands for undefined behaviour, so a result \<^term>\<open>Some r\<close> says that every
  access was inside its object.
\<close>

named_theorems wire_simps \<open>evaluation of the byte-level primitives\<close>
named_theorems step_simps \<open>one unfolding of each transition of a server model\<close>

type_synonym u8 = "8 word"
type_synonym u16 = "16 word"
type_synonym u32 = "32 word"
type_synonym u64 = "64 word"

section \<open>Outcomes\<close>

text \<open>
  A call returns, ends the process (\<^verbatim>\<open>err_sys\<close>, \<^verbatim>\<open>err_quit\<close>, \<^verbatim>\<open>exit\<close>), or waits for
  the kernel: it blocks when the kernel has nothing more to answer.
\<close>

datatype 'a outcome = Ret 'a | Exits string | Blocks

fun bind_outcome :: "'a outcome \<Rightarrow> ('a \<Rightarrow> 'b outcome) \<Rightarrow> 'b outcome" where
  "bind_outcome (Ret x) f = f x"
| "bind_outcome (Exits m) f = Exits m"
| "bind_outcome Blocks f = Blocks"

datatype errno = EINTR | EAGAIN | EINPROGRESS | ETIMEDOUT | ECONNRESET | EAFNOSUPPORT
  | ENOSPC | EINVAL | ENXIO | EOTHER nat

section \<open>Digit tables and number printing\<close>

text \<open>\<^verbatim>\<open>strchr(tab, ch)\<close> for a character other than NUL, as an offset into the table.\<close>

fun strchr :: "string \<Rightarrow> char \<Rightarrow> nat option" where
  "strchr [] ch = None"
| "strchr (c # tab) ch = (if c = ch then Some 0 else map_option Suc (strchr tab ch))"

lemma strchr_Some: "strchr tab ch = Some k \<Longrightarrow> k < length tab \<and> tab ! k = ch"
  by (induction tab arbitrary: k) (auto split: if_splits)

lemma strchr_None: "strchr tab ch = None \<longleftrightarrow> ch \<notin> set tab"
  by (induction tab) auto

lemma strchr_nth: "distinct tab \<Longrightarrow> k < length tab \<Longrightarrow> strchr tab (tab ! k) = Some k"
proof (induction tab arbitrary: k)
  case (Cons c tab)
  then show ?case
    by (cases k) auto
qed simp

text \<open>\<^verbatim>\<open>%u\<close>, \<^verbatim>\<open>%d\<close> of a non-negative value, and \<^verbatim>\<open>%x\<close>.\<close>

definition lower_digits :: string where
  "lower_digits = ''0123456789abcdef''"

fun show_base :: "nat \<Rightarrow> nat \<Rightarrow> string" where
  "show_base b n =
     (if b < 2 \<or> n < b then [lower_digits ! n]
      else show_base b (n div b) @ [lower_digits ! (n mod b)])"

declare show_base.simps [simp del]

definition show_dec :: "nat \<Rightarrow> string" where
  "show_dec n = show_base 10 n"

definition show_hex :: "nat \<Rightarrow> string" where
  "show_hex n = show_base 16 n"

lemma show_base_nonempty [simp]: "show_base b n \<noteq> []"
  by (subst show_base.simps) simp

lemma show_base_small: "n < b \<Longrightarrow> show_base b n = [lower_digits ! n]"
  by (subst show_base.simps) simp

lemma show_base_step:
  "2 \<le> b \<Longrightarrow> b \<le> n \<Longrightarrow> show_base b n = show_base b (n div b) @ [lower_digits ! (n mod b)]"
  by (subst show_base.simps) simp

lemma distinct_lower_digits [simp]: "distinct lower_digits"
  by (simp add: lower_digits_def)

lemma length_lower_digits [simp]: "length lower_digits = 16"
  by (simp add: lower_digits_def)

lemma show_base_chars:
  assumes "2 \<le> b" and "b \<le> 16"
  shows "set (show_base b n) \<subseteq> set (take b lower_digits)"
proof (induction n rule: less_induct)
  case (less n)
  have in_take: "lower_digits ! k \<in> set (take b lower_digits)" if "k < b" for k
    using that assms by (auto simp: in_set_conv_nth intro!: exI [of _ k])
  show ?case
  proof (cases "n < b")
    case True
    then show ?thesis
      by (simp add: show_base_small in_take)
  next
    case False
    with assms have "n div b < n"
      by (simp add: div_less_dividend)
    with less False assms show ?thesis
      by (simp add: show_base_step in_take)
  qed
qed

lemma show_base_length:
  assumes "2 \<le> b" and "n < b ^ k" and "0 < k"
  shows "length (show_base b n) \<le> k"
  using assms(2,3)
proof (induction k arbitrary: n)
  case (Suc k)
  show ?case
  proof (cases "n < b")
    case True
    then show ?thesis by (simp add: show_base_small)
  next
    case False
    have "n div b < b ^ k"
      using Suc.prems assms(1) by (simp add: less_mult_imp_div_less mult.commute)
    moreover have "0 < k"
      using False Suc.prems by (cases k) auto
    ultimately have "length (show_base b (n div b)) \<le> k"
      by (rule Suc.IH)
    with False assms(1) show ?thesis
      by (simp add: show_base_step)
  qed
qed simp

text \<open>
  Reading digits back: \<open>digits_value\<close> is the value a left-to-right scan accumulates.
\<close>

definition digits_value :: "nat \<Rightarrow> string \<Rightarrow> nat \<Rightarrow> string \<Rightarrow> nat" where
  "digits_value b tab v s = foldl (\<lambda>v c. v * b + the (strchr tab c)) v s"

lemma digits_value_Nil [simp]: "digits_value b tab v [] = v"
  by (simp add: digits_value_def)

lemma digits_value_Cons [simp]:
  "digits_value b tab v (c # s) = digits_value b tab (v * b + the (strchr tab c)) s"
  by (simp add: digits_value_def)

lemma digits_value_append [simp]:
  "digits_value b tab v (s @ t) = digits_value b tab (digits_value b tab v s) t"
  by (simp add: digits_value_def)

lemma digits_value_mono: "1 \<le> b \<Longrightarrow> v \<le> digits_value b tab v s"
proof (induction s arbitrary: v)
  case (Cons c s)
  have "v \<le> v * b + the (strchr tab c)"
    using Cons.prems by (cases b) auto
  also have "\<dots> \<le> digits_value b tab (v * b + the (strchr tab c)) s"
    using Cons.prems by (rule Cons.IH)
  finally show ?case by simp
qed simp

lemma strchr_take:
  "distinct tab \<Longrightarrow> k < b \<Longrightarrow> b \<le> length tab \<Longrightarrow> strchr (take b tab) (tab ! k) = Some k"
  using strchr_nth [of "take b tab" k] by simp

lemma digits_value_show_base:
  assumes "2 \<le> b" and "b \<le> 16"
  shows "digits_value b (take b lower_digits) 0 (show_base b n) = n"
proof (induction n rule: less_induct)
  case (less n)
  show ?case
  proof (cases "n < b")
    case True
    with assms show ?thesis
      by (simp add: show_base_small strchr_take)
  next
    case False
    with assms have "n div b < n"
      by (simp add: div_less_dividend)
    with less False assms show ?thesis
      by (simp add: show_base_step strchr_take mult.commute)
  qed
qed

section \<open>Buffers\<close>

text \<open>\<^verbatim>\<open>strcpy(dst, s)\<close>: the characters of \<open>s\<close> and the NUL.\<close>

definition strcpy :: "string \<Rightarrow> string \<Rightarrow> string option" where
  "strcpy dst s =
     (if length s + 1 \<le> length dst then Some (s @ CHR 0x00 # drop (length s + 1) dst) else None)"

text \<open>\<^verbatim>\<open>memcpy(dst + at, src, n)\<close>, both objects given as byte lists.\<close>

definition memcpy_at :: "'a list \<Rightarrow> nat \<Rightarrow> 'a list \<Rightarrow> 'a list option" where
  "memcpy_at dst at src =
     (if at + length src \<le> length dst
      then Some (take at dst @ src @ drop (at + length src) dst) else None)"

text \<open>The C string a buffer holds.\<close>

definition cstr :: "string \<Rightarrow> string" where
  "cstr buf = takeWhile (\<lambda>c. c \<noteq> CHR 0x00) buf"

lemma cstr_strcpy:
  assumes "strcpy dst s = Some dst'" and "CHR 0x00 \<notin> set s"
  shows "cstr dst' = s"
proof -
  have "dst' = s @ CHR 0x00 # drop (length s + 1) dst"
    using assms(1) by (simp add: strcpy_def split: if_splits)
  moreover have "\<forall>x\<in>set s. x \<noteq> CHR 0x00"
    using assms(2) by blast
  ultimately show ?thesis
    by (simp add: cstr_def takeWhile_append)
qed

lemma strcpy_length: "strcpy dst s = Some dst' \<Longrightarrow> length dst' = length dst"
  by (auto simp: strcpy_def split: if_splits)

section \<open>Words\<close>

lemma unat_u8_less [simp]: "unat (x :: u8) < 256"
  using unsigned_less [of x, where ?'a = nat] by simp

lemma unat_u8_le [simp]: "unat (x :: u8) \<le> 255"
  using unat_u8_less [of x] by linarith

lemma unat_u16_less [simp]: "unat (x :: u16) < 65536"
  using unsigned_less [of x, where ?'a = nat] by simp

lemma unat_of_nat_u8: "n < 256 \<Longrightarrow> unat (of_nat n :: u8) = n"
  by (simp add: unat_of_nat take_bit_nat_eq_self)

lemma unat_of_nat_u16: "n < 65536 \<Longrightarrow> unat (of_nat n :: u16) = n"
  by (simp add: unat_of_nat take_bit_nat_eq_self)

section \<open>Lists\<close>

lemma take_update_Suc: "i < length xs \<Longrightarrow> take (Suc i) (xs[i := v]) = take i xs @ [v]"
  by (simp add: take_Suc_conv_app_nth)

lemma length4_cases:
  assumes "length xs = 4"
  obtains a b c d where "xs = [a, b, c, d]"
  using assms by (auto simp: numeral_eq_Suc length_Suc_conv)

section \<open>The interface of an address family's text conversion\<close>

text \<open>
  What the callers of \<^verbatim>\<open>inet_ntop\<close> and \<^verbatim>\<open>inet_pton\<close> rely on, for one address family: an address
  has \<open>alen\<close> bytes, a buffer of \<open>tlen\<close> characters is always large enough, and reading the text
  that was written gives the address back.
\<close>

locale addr_text =
  fixes ntop :: "u8 list \<Rightarrow> string \<Rightarrow> nat \<Rightarrow> (errno + string) option"
    and pton :: "string \<Rightarrow> u8 list \<Rightarrow> (int \<times> u8 list) option"
    and alen :: nat
    and tlen :: nat
  assumes ntop_fits: "length a = alen \<Longrightarrow> tlen \<le> sz \<Longrightarrow> sz \<le> length buf \<Longrightarrow>
      \<exists>buf'. ntop a buf sz = Some (Inr buf')"
    and pton_ntop: "length a = alen \<Longrightarrow> ntop a buf sz = Some (Inr buf') \<Longrightarrow>
      alen \<le> length dst \<Longrightarrow> pton (cstr buf') dst = Some (1, a @ drop alen dst)"
begin

text \<open>Two addresses with the same text are the same address.\<close>

lemma ntop_inj:
  assumes "length a = alen" and "length b = alen"
    and "ntop a buf sz = Some (Inr out1)" and "ntop b buf2 sz2 = Some (Inr out2)"
    and "cstr out1 = cstr out2"
  shows "a = b"
  using pton_ntop [OF assms(1,3), of "replicate alen 0"]
    pton_ntop [OF assms(2,4), of "replicate alen 0"] assms(5) by simp

text \<open>Printing into a large enough buffer and reading it back never fails.\<close>

lemma round_trip:
  assumes "length a = alen" and "tlen \<le> length buf"
  shows "\<exists>buf'. ntop a buf (length buf) = Some (Inr buf')
    \<and> pton (cstr buf') (replicate alen 0) = Some (1, a)"
  using ntop_fits [OF assms order_refl] pton_ntop [OF assms(1), of buf "length buf" _ "replicate alen 0"]
  by fastforce

end

section \<open>Ring buffers\<close>

text \<open>The \<open>n\<close> elements of an array from index \<open>i\<close> on, going on at the beginning after the last.\<close>

definition ring :: "'a list \<Rightarrow> nat \<Rightarrow> nat \<Rightarrow> 'a list" where
  "ring xs i n = map (\<lambda>k. xs ! ((i + k) mod length xs)) [0..<n]"

lemma length_ring [simp]: "length (ring xs i n) = n"
  by (simp add: ring_def)

lemma ring_0 [simp]: "ring xs i 0 = []"
  by (simp add: ring_def)

lemma wrap_around: "a < m \<Longrightarrow> k < m \<Longrightarrow> (a + k) mod m = (if a + k < m then a + k else a + k - m)" for m :: nat
  by (auto simp: le_mod_geq)

lemma ring_put:
  assumes "i < length xs" and "n < length xs"
  shows "ring (xs[(i + n) mod length xs := c]) i (n + 1) = ring xs i n @ [c]"
proof -
  have "(i + n) mod length xs \<noteq> (i + k) mod length xs" if "k < n" for k
    using that assms by (auto simp: wrap_around split: if_splits)
  moreover have "(i + n) mod length xs < length xs"
    using assms by (intro mod_less_divisor) linarith
  ultimately show ?thesis
    by (auto simp: ring_def)
qed

lemma ring_take: "i < length xs \<Longrightarrow> ring xs i (Suc n) = xs ! i # ring xs ((i + 1) mod length xs) n"
  by (simp add: ring_def upt_conv_Cons map_Suc_upt [symmetric] mod_simps del: upt_Suc)

section \<open>Sums and counts\<close>

lemma sum_change:
  fixes f g :: "nat \<Rightarrow> 'a :: comm_monoid_add"
  assumes "i < n" and "\<And>j. j < n \<Longrightarrow> j \<noteq> i \<Longrightarrow> g j = f j"
  shows "(\<Sum>j<n. g j) + f i = (\<Sum>j<n. f j) + g i"
proof -
  have "(\<Sum>j\<in>{..<n} - {i}. g j) = (\<Sum>j\<in>{..<n} - {i}. f j)"
    using assms(2) by (intro sum.cong) auto
  then show ?thesis
    using assms(1) sum.remove [of "{..<n}" i g] sum.remove [of "{..<n}" i f] by (simp add: ac_simps)
qed

lemma count_change:
  assumes "i < length cs"
  shows "length (filter P (cs[i := c])) + (if P (cs ! i) then 1 else 0) = length (filter P cs) + (if P c then 1 else 0)"
proof -
  have "filter P cs = filter P (take i cs @ cs ! i # drop (Suc i) cs)"
    using id_take_nth_drop [OF assms] by simp
  then show ?thesis
    unfolding upd_conv_take_nth_drop [OF assms] by simp
qed

lemma sum_list_change:
  fixes f :: "'b \<Rightarrow> 'a :: comm_monoid_add"
  assumes "i < length cs"
  shows "sum_list (map f (cs[i := c])) + f (cs ! i) = sum_list (map f cs) + f c"
proof -
  have "map f cs = map f (take i cs @ cs ! i # drop (Suc i) cs)"
    using id_take_nth_drop [OF assms] by simp
  then show ?thesis
    unfolding upd_conv_take_nth_drop [OF assms] by (simp add: ac_simps)
qed

end
