(* ===== verification/Inet4_Text.thy ===== *)
theory Inet4_Text
  imports Prelude
begin

unbundle bit_operations_syntax

text \<open>
  Conversion between IPv4 addresses and text: \<^verbatim>\<open>unpv13e/libfree/inet_pton.c\<close> (the IPv4 half),
  \<^verbatim>\<open>inet_ntop.c\<close> (the IPv4 half), \<^verbatim>\<open>inet_aton.c\<close> and the IPv4-only \<^verbatim>\<open>inet_pton_ipv4.c\<close> and
  \<^verbatim>\<open>inet_ntop_ipv4.c\<close>. The operations come first, then a grammar of dotted quads and the lemmas
  that relate the two.
\<close>

section \<open>The code\<close>

text \<open>
  \<open>inet_pton4\<close>: the \<^verbatim>\<open>while\<close> loop over the characters of \<^verbatim>\<open>src\<close>, with the local
  variables \<^verbatim>\<open>saw_digit\<close>, \<^verbatim>\<open>octets\<close>, \<^verbatim>\<open>tmp[]\<close> and \<^verbatim>\<open>tp\<close> (an index into \<^verbatim>\<open>tmp\<close>). The
  result is \<^term>\<open>None\<close> for an access outside \<^verbatim>\<open>tmp\<close>, \<^term>\<open>Some None\<close> for \<^verbatim>\<open>return (0)\<close>
  and \<^term>\<open>Some (Some tmp)\<close> when the loop ends with four octets.
\<close>

definition digits :: string where
  "digits = ''0123456789''"

fun inet_pton4_loop ::
  "string \<Rightarrow> bool \<Rightarrow> nat \<Rightarrow> u8 list \<Rightarrow> nat \<Rightarrow> u8 list option option" where
  "inet_pton4_loop [] saw_digit octets tmp tp =
     Some (if octets < 4 then None else Some tmp)"
| "inet_pton4_loop (ch # src) saw_digit octets tmp tp =
     (case strchr digits ch of
        Some pch \<Rightarrow>
          (if tp < length tmp then
             (let new = unat (tmp ! tp) * 10 + pch in
              if new > 255 then Some None
              else
                (let tmp = tmp[tp := of_nat new] in
                 if \<not> saw_digit then
                   (if octets + 1 > 4 then Some None
                    else inet_pton4_loop src True (octets + 1) tmp tp)
                 else inet_pton4_loop src saw_digit octets tmp tp))
           else None)
      | None \<Rightarrow>
          (if ch = CHR ''.'' \<and> saw_digit then
             (if octets = 4 then Some None
              else if tp + 1 < length tmp
                then inet_pton4_loop src False octets (tmp[tp + 1 := 0]) (tp + 1)
              else None)
           else Some None))"

text \<open>
  The result pairs the return value with the new contents of \<^verbatim>\<open>dst\<close>. The array \<^verbatim>\<open>tmp\<close> has
  four bytes of which only the first is initialised; \<open>junk\<close> stands for what the stack holds.
\<close>

definition inet_pton4 :: "u8 list \<Rightarrow> string \<Rightarrow> u8 list \<Rightarrow> (int \<times> u8 list) option" where
  "inet_pton4 junk src dst =
     (case inet_pton4_loop src False 0 ((take 4 junk)[0 := 0]) 0 of
        None \<Rightarrow> None
      | Some None \<Rightarrow> Some (0, dst)
      | Some (Some tmp) \<Rightarrow> map_option (\<lambda>dst'. (1, dst')) (memcpy_at dst 0 tmp))"

text \<open>
  \<open>inet_ntop4\<close>: \<^verbatim>\<open>sprintf\<close> into \<^verbatim>\<open>tmp\<close>, the test against \<^verbatim>\<open>size\<close>, \<^verbatim>\<open>strcpy\<close>. The
  result is \<^term>\<open>None\<close> for undefined behaviour, \<^term>\<open>Some (Inl e)\<close> for a null return with
  \<^verbatim>\<open>errno\<close> set to \<open>e\<close>, and \<^term>\<open>Some (Inr dst)\<close> for the returned buffer.
\<close>

fun dotted :: "u8 list \<Rightarrow> string" where
  "dotted [] = []"
| "dotted [b] = show_dec (unat b)"
| "dotted (b # bs) = show_dec (unat b) @ CHR ''.'' # dotted bs"

definition inet_ntop4 :: "u8 list \<Rightarrow> string \<Rightarrow> nat \<Rightarrow> (errno + string) option" where
  "inet_ntop4 src dst sz =
     (if length src < 4 then None
      else
        (let tmp = dotted (take 4 src) in
         if length tmp + 1 > 16 then None
         else if length tmp > sz then Some (Inl ENOSPC)
         else map_option Inr (strcpy dst tmp)))"

text \<open>The IPv4-only \<^verbatim>\<open>inet_ntop\<close>: \<^verbatim>\<open>snprintf\<close> cuts the text to the 15 characters \<^verbatim>\<open>temp\<close> has room for.\<close>

definition AF_INET :: nat where
  "AF_INET = 2"

definition inet_ntop_ipv4 :: "nat \<Rightarrow> u8 list \<Rightarrow> string \<Rightarrow> nat \<Rightarrow> (errno + string) option" where
  "inet_ntop_ipv4 family p strptr len =
     (if family = AF_INET then
        (if length p < 4 then None
         else
           (let temp = take 15 (dotted (take 4 p)) in
            if length temp \<ge> len then Some (Inl ENOSPC)
            else map_option Inr (strcpy strptr temp)))
      else Some (Inl EAFNOSUPPORT))"

text \<open>
  \<open>inet_aton\<close>: \<^verbatim>\<open>acc\<close> and \<^verbatim>\<open>addr\<close> are \<^verbatim>\<open>u_long\<close>, 64 bits wide. The \<^verbatim>\<open>do ... while\<close> loop
  also runs its body on the NUL, which is the empty list here.
\<close>

fun inet_aton_loop :: "string \<Rightarrow> nat \<Rightarrow> u64 \<Rightarrow> u64 \<Rightarrow> (nat \<times> u64) option" where
  "inet_aton_loop [] dots acc addr =
     (if acc > 255 then None else Some (dots, push_bit 8 addr OR acc))"
| "inet_aton_loop (cc # cp) dots acc addr =
     (case strchr digits cc of
        Some d \<Rightarrow> inet_aton_loop cp dots (acc * 10 + of_nat d) addr
      | None \<Rightarrow>
          (if cc = CHR ''.'' then
             (if dots + 1 > 3 then None
              else if acc > 255 then None
              else inet_aton_loop cp (dots + 1) 0 (push_bit 8 addr OR acc))
           else None))"

text \<open>The bytes \<^verbatim>\<open>htonl\<close> leaves in memory: the low 32 bits, most significant byte first.\<close>

definition htonl_bytes :: "u64 \<Rightarrow> u8 list" where
  "htonl_bytes a = [ucast (drop_bit 24 a), ucast (drop_bit 16 a), ucast (drop_bit 8 a), ucast a]"

definition inet_aton :: "string \<Rightarrow> u8 list option" where
  "inet_aton cp =
     (case inet_aton_loop cp 0 0 0 of
        None \<Rightarrow> None
      | Some (dots, addr) \<Rightarrow>
          Some (htonl_bytes (if dots < 3 then push_bit (8 * (3 - dots)) addr else addr)))"

definition inet_pton_ipv4 :: "nat \<Rightarrow> string \<Rightarrow> u8 list \<Rightarrow> (int \<times> u8 list) option" where
  "inet_pton_ipv4 family strptr addrptr =
     (if family = AF_INET then
        (case inet_aton strptr of
           Some in_val \<Rightarrow> map_option (\<lambda>a. (1, a)) (memcpy_at addrptr 0 in_val)
         | None \<Rightarrow> Some (0, addrptr))
      else Some (-1, addrptr))"

section \<open>The grammar of dotted quads\<close>

text \<open>
  A dotted quad is four non-empty groups of decimal digits between dots, each of value at most
  255. Leading zeros are allowed.
\<close>

fun split_on :: "char \<Rightarrow> string \<Rightarrow> string list" where
  "split_on d [] = [[]]"
| "split_on d (c # s) =
     (if c = d then [] # split_on d s
      else (case split_on d s of [] \<Rightarrow> [[c]] | p # ps \<Rightarrow> (c # p) # ps))"

definition octet_ok :: "string \<Rightarrow> bool" where
  "octet_ok p \<longleftrightarrow> p \<noteq> [] \<and> set p \<subseteq> set digits \<and> digits_value 10 digits 0 p \<le> 255"

definition dotted_quad :: "string \<Rightarrow> u8 list option" where
  "dotted_quad s =
     (let ps = split_on CHR ''.'' s in
      if length ps = 4 \<and> list_all octet_ok ps
      then Some (map (\<lambda>p. of_nat (digits_value 10 digits 0 p)) ps) else None)"

section \<open>Lemmas\<close>

lemma split_on_nonempty [simp]: "split_on d s \<noteq> []"
  by (induction s) (auto split: list.splits)

lemma split_on_Cons_other:
  "c \<noteq> d \<Longrightarrow> split_on d s = p # ps \<Longrightarrow> split_on d (c # s) = (c # p) # ps"
  by simp

lemma digits_take: "digits = take 10 lower_digits"
  by (simp add: digits_def lower_digits_def)

lemma dot_not_digit [simp]: "strchr digits CHR ''.'' = None"
  by (simp add: digits_def)

text \<open>What the loop computes from any of its states, in terms of the groups still to come.\<close>

definition quad_rest :: "bool \<Rightarrow> u8 list \<Rightarrow> nat \<Rightarrow> string list \<Rightarrow> u8 list option" where
  "quad_rest saw tmp tp ps =
     (case ps of
        [] \<Rightarrow> None
      | p # qs \<Rightarrow>
          (let v = digits_value 10 digits (unat (tmp ! tp)) p in
           if (saw \<or> p \<noteq> []) \<and> set p \<subseteq> set digits \<and> v \<le> 255 \<and> list_all octet_ok qs
             \<and> tp + 1 + length qs = 4
           then Some (take tp tmp @ of_nat v # map (\<lambda>p. of_nat (digits_value 10 digits 0 p)) qs)
           else None))"

lemma quad_rest_stop:
  assumes "length tmp = 4" and "tp < 4"
  shows "quad_rest saw tmp tp [[]] = (if tp + (if saw then 1 else 0) < 4 then None else Some tmp)"
proof (cases "tp = 3 \<and> saw")
  case True
  moreover have "take 3 tmp @ [tmp ! 3] = tmp"
    using assms take_Suc_conv_app_nth [of 3 tmp] by simp
  ultimately show ?thesis
    using assms by (simp add: quad_rest_def Let_def)
next
  case False
  with assms show ?thesis
    by (auto simp: quad_rest_def)
qed

lemma quad_rest_digit:
  assumes "length tmp = 4" and "tp < 4" and "strchr digits ch = Some k" and "ps \<noteq> []"
  shows "quad_rest saw tmp tp ((ch # hd ps) # tl ps) =
    (if unat (tmp ! tp) * 10 + k > 255 then None
     else quad_rest True (tmp[tp := of_nat (unat (tmp ! tp) * 10 + k)]) tp ps)"
proof -
  obtain p qs where ps: "ps = p # qs"
    using assms(4) by (cases ps) auto
  have ch: "ch \<in> set digits"
    using assms(3) strchr_None [of digits ch] by auto
  let ?new = "unat (tmp ! tp) * 10 + k"
  show ?thesis
  proof (cases "?new > 255")
    case True
    moreover have "?new \<le> digits_value 10 digits ?new p"
      by (rule digits_value_mono) simp
    ultimately have "\<not> digits_value 10 digits ?new p \<le> 255"
      by simp
    with True assms(3) ps show ?thesis
      by (simp add: quad_rest_def Let_def)
  next
    case False
    then have "unat (of_nat ?new :: u8) = ?new"
      by (intro unat_of_nat_u8) simp
    with False assms ps ch show ?thesis
      by (simp add: quad_rest_def Let_def)
  qed
qed

lemma quad_rest_dot:
  assumes "length tmp = 4" and "tp < 3" and "ps \<noteq> []"
  shows "quad_rest True tmp tp ([] # ps) = quad_rest False (tmp[tp + 1 := 0]) (tp + 1) ps"
proof -
  obtain p qs where ps: "ps = p # qs"
    using assms(3) by (cases ps) auto
  have "take (Suc tp) (tmp[Suc tp := 0]) = take tp tmp @ [tmp ! tp]"
    using assms by (simp add: take_Suc_conv_app_nth)
  then show ?thesis
    using assms(1,2) ps by (simp add: quad_rest_def Let_def octet_ok_def)
qed

lemma inet_pton4_loop_eq:
  assumes "length tmp = 4" and "tp < 4" and "octets = tp + (if saw then 1 else 0)"
  shows "inet_pton4_loop s saw octets tmp tp = Some (quad_rest saw tmp tp (split_on CHR ''.'' s))"
  using assms
proof (induction s arbitrary: saw octets tmp tp)
  case Nil
  then show ?case
    by (simp add: quad_rest_stop)
next
  case (Cons ch s)
  obtain p qs where ps: "split_on CHR ''.'' s = p # qs"
    by (cases "split_on CHR ''.'' s") auto
  show ?case
  proof (cases "strchr digits ch")
    case (Some k)
    then have "ch \<noteq> CHR ''.''"
      by auto
    with ps have split: "split_on CHR ''.'' (ch # s) = (ch # hd (p # qs)) # tl (p # qs)"
      by simp
    have "inet_pton4_loop s True (tp + 1) tmp' tp = Some (quad_rest True tmp' tp (p # qs))"
      if "length tmp' = 4" for tmp'
      using Cons.IH [of tmp' tp "tp + 1" True] that Cons.prems(2) ps by simp
    then show ?thesis
      unfolding split
      using Cons.prems Some
      by (simp add: quad_rest_digit [where ps = "p # qs", simplified] Let_def)
  next
    case None
    show ?thesis
    proof (cases "ch = CHR ''.'' \<and> saw")
      case True
      then show ?thesis
      proof (cases "tp < 3")
        case tp: True
        have "inet_pton4_loop s False (tp + 1) (tmp[tp + 1 := 0]) (tp + 1) =
            Some (quad_rest False (tmp[tp + 1 := 0]) (tp + 1) (p # qs))"
          using Cons.IH [of "tmp[tp + 1 := 0]" "tp + 1" "tp + 1" False] Cons.prems(1) tp ps by simp
        with tp True Cons.prems ps show ?thesis
          by (simp add: quad_rest_dot)
      next
        case False
        with True Cons.prems ps show ?thesis
          by (simp add: quad_rest_def Let_def)
      qed
    next
      case False
      moreover have "ch \<notin> set digits"
        using None by (simp add: strchr_None)
      ultimately show ?thesis
        using None ps by (auto simp: quad_rest_def Let_def)
    qed
  qed
qed

lemma quad_rest_start:
  assumes "length tmp = 4"
  shows "quad_rest False (tmp[0 := 0]) 0 ps =
    (if length ps = 4 \<and> list_all octet_ok ps
     then Some (map (\<lambda>p. of_nat (digits_value 10 digits 0 p)) ps) else None)"
  using assms by (cases ps) (auto simp: quad_rest_def Let_def octet_ok_def)

lemma inet_pton4_eq:
  assumes "length junk = 4"
  shows "inet_pton4 junk s dst =
    (case dotted_quad s of
       None \<Rightarrow> Some (0, dst)
     | Some bs \<Rightarrow> map_option (\<lambda>dst'. (1, dst')) (memcpy_at dst 0 bs))"
proof -
  have "inet_pton4_loop s False 0 ((take 4 junk)[0 := 0]) 0 = Some (dotted_quad s)"
    using assms by (simp add: inet_pton4_loop_eq quad_rest_start dotted_quad_def Let_def)
  then show ?thesis
    by (simp add: inet_pton4_def split: option.splits)
qed

lemma dotted_quad_length: "dotted_quad s = Some bs \<Longrightarrow> length bs = 4"
  by (auto simp: dotted_quad_def Let_def split: if_splits)


text \<open>Printing gives a dotted quad, and the grammar reads the same four bytes back.\<close>

lemma split_on_other: "d \<notin> set s \<Longrightarrow> split_on d s = [s]"
  by (induction s) auto

lemma split_on_append: "d \<notin> set s \<Longrightarrow> split_on d (s @ d # t) = s # split_on d t"
  by (induction s) auto

lemma show_dec_digits: "set (show_dec n) \<subseteq> set digits"
  unfolding show_dec_def digits_take by (rule show_base_chars) simp_all

lemma dot_notin_show_dec [simp]: "CHR ''.'' \<notin> set (show_dec n)"
  using show_dec_digits [of n] by (auto simp: digits_def)

lemma value_show_dec: "digits_value 10 digits 0 (show_dec n) = n"
  unfolding show_dec_def digits_take by (rule digits_value_show_base) simp_all

lemma octet_ok_show_dec: "octet_ok (show_dec (unat (b :: u8)))"
  using show_dec_digits by (simp add: octet_ok_def value_show_dec) (simp add: show_dec_def)

lemma split_dotted4:
  "split_on CHR ''.'' (dotted [a, b, c, d]) = map (\<lambda>x. show_dec (unat x)) [a, b, c, d]"
  by (simp add: split_on_append split_on_other)

lemma dotted_quad_dotted: "length bs = 4 \<Longrightarrow> dotted_quad (dotted bs) = Some bs"
  by (erule length4_cases)
    (simp only: dotted_quad_def Let_def split_dotted4, simp add: octet_ok_show_dec value_show_dec)

lemma length_show_dec_u8: "length (show_dec (unat (b :: u8))) \<le> 3"
  unfolding show_dec_def by (rule show_base_length) (use unat_u8_less [of b] in \<open>simp_all del: unat_u8_less\<close>)

lemma length_dotted4: "length bs = 4 \<Longrightarrow> length (dotted bs) \<le> 15"
proof (erule length4_cases)
  fix a b c d
  assume "bs = [a, b, c, d]"
  then show ?thesis
    using length_show_dec_u8 [of a] length_show_dec_u8 [of b] length_show_dec_u8 [of c]
      length_show_dec_u8 [of d] by simp
qed

lemma nul_notin_show_dec [simp]: "CHR 0x00 \<notin> set (show_dec n)"
  using show_dec_digits [of n] by (auto simp: digits_def)

lemma nul_notin_dotted4: "length bs = 4 \<Longrightarrow> CHR 0x00 \<notin> set (dotted bs)"
  by (erule length4_cases) auto

text \<open>The scan of one group by \<open>inet_aton_loop\<close>, modulo the width of \<^verbatim>\<open>u_long\<close>.\<close>

lemma inet_aton_loop_digits:
  "set p \<subseteq> set digits \<Longrightarrow>
   inet_aton_loop (p @ r) dots (of_nat v) addr =
   inet_aton_loop r dots (of_nat (digits_value 10 digits v p)) addr"
proof (induction p arbitrary: v)
  case (Cons c p)
  then obtain k where "strchr digits c = Some k"
    using strchr_None [of digits c] by (cases "strchr digits c") auto
  with Cons.IH [of "v * 10 + k"] Cons.prems show ?case
    by simp
qed simp

fun join_with :: "char \<Rightarrow> string list \<Rightarrow> string" where
  "join_with d [] = []"
| "join_with d [p] = p"
| "join_with d (p # ps) = p @ d # join_with d ps"

lemma join_split: "join_with d (split_on d s) = s"
proof (induction s)
  case (Cons c s)
  obtain p ps where "split_on d s = p # ps"
    by (cases "split_on d s") auto
  with Cons show ?case
    by (cases ps) auto
qed simp

lemma htonl_bytes_quad:
  "htonl_bytes (push_bit 8 (push_bit 8 (push_bit 8 (ucast a) OR ucast b) OR ucast c) OR ucast d) =
   [a, b, c, d]"
  by (auto simp: htonl_bytes_def bit_eq_iff bit_simps dest: bit_imp_le_length)


lemma inet_aton_quad: "dotted_quad s = Some bs \<Longrightarrow> inet_aton s = Some bs"
proof -
  assume quad: "dotted_quad s = Some bs"
  let ?val = "digits_value 10 digits 0"
  obtain a b c d where ps: "split_on CHR ''.'' s = [a, b, c, d]"
    using quad by (auto simp: dotted_quad_def Let_def split: if_splits elim: length4_cases)
  with quad have ok: "octet_ok a" "octet_ok b" "octet_ok c" "octet_ok d"
    and bs: "bs = map (\<lambda>p. of_nat (?val p)) [a, b, c, d]"
    by (auto simp: dotted_quad_def Let_def split: if_splits)
  have s: "s = a @ CHR ''.'' # b @ CHR ''.'' # c @ CHR ''.'' # d"
    using join_split [of "CHR ''.''" s] ps by simp
  have small: "\<not> (255 :: u64) < of_nat (?val p)"
    and cast: "of_nat (?val p) = (ucast (of_nat (?val p) :: u8) :: u64)" if "octet_ok p" for p
    using that by (auto simp: octet_ok_def word_less_nat_alt unat_of_nat take_bit_nat_eq_self
        word_unat_eq_iff unsigned_ucast_eq)
  have step: "inet_aton_loop (p @ r) dots 0 addr = inet_aton_loop r dots (of_nat (?val p)) addr"
    if "octet_ok p" for p r dots addr
    using that inet_aton_loop_digits [of p r dots 0 addr] by (simp add: octet_ok_def)
  have last: "inet_aton_loop p dots 0 addr = Some (dots, push_bit 8 addr OR of_nat (?val p))"
    if "octet_ok p" for p dots addr
    using step [OF that, of "[]"] small [OF that] by simp
  let ?w = "\<lambda>p. ucast (of_nat (?val p) :: u8) :: u64"
  have "inet_aton_loop s 0 0 0 =
      Some (3, push_bit 8 (push_bit 8 (push_bit 8 (?w a) OR ?w b) OR ?w c) OR ?w d)"
    unfolding s using ok small by (simp add: step last cast)
  then have "inet_aton s =
      Some (htonl_bytes (push_bit 8 (push_bit 8 (push_bit 8 (?w a) OR ?w b) OR ?w c) OR ?w d))"
    unfolding inet_aton_def by (simp only: option.case prod.case less_irrefl if_False)
  then show ?thesis
    by (simp only: htonl_bytes_quad bs list.map)
qed

section \<open>Properties\<close>

lemma inet_ntop4_Inr:
  assumes "length a = 4" and "inet_ntop4 a buf sz = Some (Inr buf')"
  shows "cstr buf' = dotted a"
proof -
  have "strcpy buf (dotted a) = Some buf'"
    using assms by (auto simp: inet_ntop4_def Let_def split: if_splits)
  then show ?thesis
    using assms(1) by (simp add: cstr_strcpy nul_notin_dotted4)
qed

lemma memcpy_at_0: "length src \<le> length dst \<Longrightarrow> memcpy_at dst 0 src = Some (src @ drop (length src) dst)"
  by (simp add: memcpy_at_def)

interpretation v4: addr_text inet_ntop4 "inet_pton4 (take 4 (junk @ replicate 4 0))" 4 16
  for junk :: "u8 list"
proof
  fix a :: "u8 list" and sz buf
  assume "length a = 4" and "16 \<le> sz" and "sz \<le> length (buf :: string)"
  then show "\<exists>buf'. inet_ntop4 a buf sz = Some (Inr buf')"
    using length_dotted4 [of a] by (simp add: inet_ntop4_def Let_def strcpy_def)
next
  fix a :: "u8 list" and buf sz buf' and dst :: "u8 list"
  assume "length a = 4" and "inet_ntop4 a buf sz = Some (Inr buf')" and "4 \<le> length dst"
  then show "inet_pton4 (take 4 (junk @ replicate 4 0)) (cstr buf') dst = Some (1, a @ drop 4 dst)"
    by (simp add: inet_pton4_eq inet_ntop4_Inr dotted_quad_dotted memcpy_at_0)
qed

text \<open>
  (C18) \<^verbatim>\<open>inet_pton4\<close> accepts exactly the dotted quads: four non-empty groups of decimal digits
  separated by dots, each of value at most 255. On such a string it returns 1 and stores the
  four values in the first four bytes of \<^verbatim>\<open>dst\<close>; on any other string it returns 0 and leaves
  \<^verbatim>\<open>dst\<close> as it was. It never touches a byte outside its \<^verbatim>\<open>tmp\<close> array, whatever the stack held.
\<close>

theorem inet_pton4_correct:
  assumes "length junk = 4" and "4 \<le> length dst"
  shows "inet_pton4 junk s dst =
    Some (case dotted_quad s of None \<Rightarrow> (0, dst) | Some bs \<Rightarrow> (1, bs @ drop 4 dst))"
  using assms by (auto simp: inet_pton4_eq memcpy_at_0 dotted_quad_length split: option.splits)

theorem inet_pton4_correct_witness:
  "inet_pton4 [9, 9, 9, 9] ''10.0.0.255'' [7, 7, 7, 7, 5] = Some (1, [10, 0, 0, 255, 5])
   \<and> inet_pton4 [9, 9, 9, 9] ''10.0.0.256'' [7, 7, 7, 7, 5] = Some (0, [7, 7, 7, 7, 5])"
  using inet_pton4_correct [of "[9, 9, 9, 9]" "[7, 7, 7, 7, 5]" "''10.0.0.255''"]
    inet_pton4_correct [of "[9, 9, 9, 9]" "[7, 7, 7, 7, 5]" "''10.0.0.256''"]
  by (simp add: dotted_quad_def Let_def octet_ok_def digits_def)

text \<open>
  Round trip for IPv4: with a buffer of at least 16 characters \<^verbatim>\<open>inet_ntop4\<close> succeeds, and
  \<^verbatim>\<open>inet_pton4\<close> reads the text back to the same four bytes.
\<close>

theorem inet4_round_trip:
  assumes "length a = 4" and "16 \<le> length buf"
  shows "\<exists>buf'. inet_ntop4 a buf (length buf) = Some (Inr buf')
    \<and> inet_pton4 (take 4 (junk @ replicate 4 0)) (cstr buf') (replicate 4 0) = Some (1, a)"
  using assms by (rule v4.round_trip)

theorem inet4_round_trip_witness:
  "\<exists>buf'. inet_ntop4 [192, 168, 0, 1] (replicate 16 CHR ''x'') 16 = Some (Inr buf')
    \<and> inet_pton4 [1, 2, 3, 4] (cstr buf') [0, 0, 0, 0] = Some (1, [192, 168, 0, 1])"
  using inet4_round_trip [of "[192, 168, 0, 1]" "replicate 16 CHR ''x''" "[1, 2, 3, 4]"]
  by (simp add: numeral_eq_Suc)

text \<open>
  The size test of \<^verbatim>\<open>inet_ntop4\<close> is off by one: it compares \<^verbatim>\<open>strlen(tmp)\<close> with
  \<^verbatim>\<open>size\<close> and forgets the NUL, so for a buffer of exactly \<^verbatim>\<open>size\<close> bytes it writes outside the
  buffer precisely when the text has \<^verbatim>\<open>size\<close> characters; the \<^verbatim>\<open>inet_ntop\<close> of
  \<^verbatim>\<open>inet_ntop_ipv4.c\<close> never does and answers \<^verbatim>\<open>ENOSPC\<close> there.
\<close>

theorem inet_ntop4_overflow:
  assumes "length a = 4"
  shows "(inet_ntop4 a buf (length buf) = None \<longleftrightarrow> length (dotted a) = length buf)
    \<and> inet_ntop_ipv4 AF_INET a buf (length buf) \<noteq> None
    \<and> (length (dotted a) = length buf \<longrightarrow>
        inet_ntop_ipv4 AF_INET a buf (length buf) = Some (Inl ENOSPC))"
  using assms length_dotted4 [of a]
  by (auto simp: inet_ntop4_def inet_ntop_ipv4_def Let_def strcpy_def)

theorem inet_ntop4_overflow_witness:
  "inet_ntop4 [1, 2, 3, 4] ''1234567'' (length ''1234567'') = None
   \<and> inet_ntop_ipv4 AF_INET [1, 2, 3, 4] ''1234567'' (length ''1234567'') = Some (Inl ENOSPC)"
proof -
  have "length (dotted [1, 2, 3, 4]) = length ''1234567''"
    by (simp add: show_dec_def show_base_small)
  then show ?thesis
    using inet_ntop4_overflow [of "[1, 2, 3, 4]" "''1234567''"] by simp
qed

text \<open>
  \<^verbatim>\<open>inet_aton\<close> extends \<^verbatim>\<open>inet_pton4\<close>: every string that \<^verbatim>\<open>inet_pton4\<close> accepts is
  accepted by \<^verbatim>\<open>inet_aton\<close>, with the same four bytes in network order.
\<close>

theorem inet_aton_extends_pton4:
  assumes "length junk = 4" and "inet_pton4 junk s [0, 0, 0, 0] = Some (1, bs)"
  shows "inet_aton s = Some bs"
  using assms inet_aton_quad [of s]
  by (auto simp: inet_pton4_eq memcpy_at_0 dotted_quad_length split: option.splits)

theorem inet_aton_extends_pton4_witness:
  "inet_aton ''127.0.0.1'' = Some [127, 0, 0, 1]"
proof -
  have "inet_pton4 [0, 0, 0, 0] ''127.0.0.1'' [0, 0, 0, 0] = Some (1, [127, 0, 0, 1])"
    by (simp add: inet_pton4_def digits_def memcpy_at_def)
  then show ?thesis
    using inet_aton_extends_pton4 [of "[0, 0, 0, 0]"] by simp
qed

text \<open>
  \<^verbatim>\<open>inet_aton\<close> tests a group against 255 only when the group ends, after \<^verbatim>\<open>acc\<close> may have
  wrapped around: a leading group \<open>2 ^ 64 + k\<close> is accepted as \<open>k\<close>. It also accepts the empty
  string, as 0.0.0.0, and reads \<^verbatim>\<open>127.1\<close> as 127.1.0.0.
\<close>

theorem inet_aton_wraps:
  "inet_aton ''18446744073709551743.0.0.1'' = Some [127, 0, 0, 1]
   \<and> inet_aton [] = Some [0, 0, 0, 0]
   \<and> inet_aton ''127.1'' = Some [127, 1, 0, 0]"
  by (simp add: inet_aton_def digits_def htonl_bytes_def)

end
