(* ===== verification/Inet6_Text.thy ===== *)
theory Inet6_Text
  imports Inet4_Text
begin

unbundle bit_operations_syntax

text \<open>
  Conversion between IPv6 addresses and text, and the dispatch on the address family:
  \<^verbatim>\<open>unpv13e/libfree/inet_pton.c\<close> and \<^verbatim>\<open>inet_ntop.c\<close>. The operations come first; the
  lemmas follow the text from the printer through the parser.
\<close>

section \<open>The code\<close>

definition IN6ADDRSZ :: nat where
  "IN6ADDRSZ = 16"

definition INT16SZ :: nat where
  "INT16SZ = 2"

definition AF_INET6 :: nat where
  "AF_INET6 = 10"

definition xdigits_l :: string where
  "xdigits_l = ''0123456789abcdef''"

definition xdigits_u :: string where
  "xdigits_u = ''0123456789ABCDEF''"

text \<open>The two searches \<^verbatim>\<open>strchr(xdigits_l, ch)\<close> and \<^verbatim>\<open>strchr(xdigits_u, ch)\<close>, as \<^verbatim>\<open>pch - xdigits\<close>.\<close>

definition xdigit :: "char \<Rightarrow> nat option" where
  "xdigit ch = (case strchr xdigits_l ch of Some k \<Rightarrow> Some k | None \<Rightarrow> strchr xdigits_u ch)"

text \<open>\<^verbatim>\<open>*tp++ = (u_char) (val >> 8) & 0xff; *tp++ = (u_char) val & 0xff;\<close>\<close>

definition put16 :: "u8 list \<Rightarrow> nat \<Rightarrow> u32 \<Rightarrow> u8 list option" where
  "put16 tmp tp val =
     (if tp + 1 < length tmp
      then Some (tmp[tp := ucast (drop_bit 8 val) AND 0xff, tp + 1 := ucast val AND 0xff])
      else None)"

text \<open>
  The \<^verbatim>\<open>while\<close> loop of \<^verbatim>\<open>inet_pton6\<close>. Its variables are \<^verbatim>\<open>src\<close>, \<^verbatim>\<open>curtok\<close> (a later part of the
  same string), \<^verbatim>\<open>saw_xdigit\<close>, \<^verbatim>\<open>val\<close>, \<^verbatim>\<open>tmp[]\<close>, and the pointers \<^verbatim>\<open>tp\<close> and \<^verbatim>\<open>colonp\<close> as
  indices into \<^verbatim>\<open>tmp\<close>. The result is \<^term>\<open>None\<close> for an access outside an array,
  \<^term>\<open>Some None\<close> for \<^verbatim>\<open>return (0)\<close>, and otherwise the variables after the loop.
\<close>

fun inet_pton6_loop ::
  "u8 list \<Rightarrow> string \<Rightarrow> string \<Rightarrow> bool \<Rightarrow> u32 \<Rightarrow> u8 list \<Rightarrow> nat \<Rightarrow> nat option \<Rightarrow>
   (bool \<times> u32 \<times> u8 list \<times> nat \<times> nat option) option option" where
  "inet_pton6_loop junk [] curtok saw_xdigit val tmp tp colonp =
     Some (Some (saw_xdigit, val, tmp, tp, colonp))"
| "inet_pton6_loop junk (ch # src) curtok saw_xdigit val tmp tp colonp =
     (case xdigit ch of
        Some k \<Rightarrow>
          (let val = push_bit 4 val OR of_nat k in
           if val > 0xffff then Some None
           else inet_pton6_loop junk src curtok True val tmp tp colonp)
      | None \<Rightarrow>
          (if ch = CHR '':'' then
             (if \<not> saw_xdigit then
                (if colonp \<noteq> None then Some None
                 else inet_pton6_loop junk src src saw_xdigit val tmp tp (Some tp))
              else if tp + INT16SZ > IN6ADDRSZ then Some None
              else
                (case put16 tmp tp val of
                   None \<Rightarrow> None
                 | Some tmp \<Rightarrow> inet_pton6_loop junk src src False 0 tmp (tp + 2) colonp))
           else if ch = CHR ''.'' \<and> tp + 4 \<le> IN6ADDRSZ then
             (case inet_pton4 junk curtok (drop tp tmp) of
                None \<Rightarrow> None
              | Some (rc, dst) \<Rightarrow>
                  (if rc > 0 then Some (Some (False, val, take tp tmp @ dst, tp + 4, colonp))
                   else Some None))
           else Some None))"

text \<open>
  The loop that moves the bytes after \<^verbatim>\<open>::\<close> to the end of the address: \<^verbatim>\<open>endp[-i] = colonp[n-i]; colonp[n-i] = 0;\<close>
  with both indices checked against the array \<^verbatim>\<open>tmp\<close>, at either end.
\<close>

fun shift_bytes :: "nat \<Rightarrow> nat \<Rightarrow> nat list \<Rightarrow> u8 list \<Rightarrow> u8 list option" where
  "shift_bytes colonp n [] tmp = Some tmp"
| "shift_bytes colonp n (i # is) tmp =
     (if i \<le> IN6ADDRSZ \<and> IN6ADDRSZ - i < length tmp \<and> i \<le> colonp + n \<and> colonp + n - i < length tmp
      then shift_bytes colonp n is (tmp[IN6ADDRSZ - i := tmp ! (colonp + n - i), colonp + n - i := 0])
      else None)"

definition inet_pton6_shift :: "nat \<Rightarrow> nat \<Rightarrow> u8 list \<Rightarrow> u8 list option" where
  "inet_pton6_shift colonp n tmp = shift_bytes colonp n [1..<Suc n] tmp"

text \<open>What follows the loop: the last group, the shift, the test for a complete address.\<close>

definition inet_pton6_finish ::
  "bool \<Rightarrow> u32 \<Rightarrow> u8 list \<Rightarrow> nat \<Rightarrow> nat option \<Rightarrow> u8 list option option" where
  "inet_pton6_finish saw_xdigit val tmp tp colonp =
     (let last =
        (if saw_xdigit then
           (if tp + INT16SZ > IN6ADDRSZ then Some None
            else map_option (\<lambda>tmp. Some (tmp, tp + 2)) (put16 tmp tp val))
         else Some (Some (tmp, tp)))
      in case last of
           None \<Rightarrow> None
         | Some None \<Rightarrow> Some None
         | Some (Some (tmp, tp)) \<Rightarrow>
             (case (case colonp of
                      Some c \<Rightarrow> map_option (\<lambda>tmp. (tmp, IN6ADDRSZ)) (inet_pton6_shift c (tp - c) tmp)
                    | None \<Rightarrow> Some (tmp, tp)) of
                None \<Rightarrow> None
              | Some (tmp, tp) \<Rightarrow> Some (if tp \<noteq> IN6ADDRSZ then None else Some tmp)))"

text \<open>\<open>inet_pton6\<close>: the special case of a leading colon, the loop, the end.\<close>

definition skip_leading_colon :: "string \<Rightarrow> string option" where
  "skip_leading_colon src =
     (case src of
        CHR '':'' # src' \<Rightarrow>
          (case src' of CHR '':'' # _ \<Rightarrow> Some src' | _ \<Rightarrow> None)
      | _ \<Rightarrow> Some src)"

definition inet_pton6 :: "u8 list \<Rightarrow> string \<Rightarrow> u8 list \<Rightarrow> (int \<times> u8 list) option" where
  "inet_pton6 junk src dst =
     (case skip_leading_colon src of
        None \<Rightarrow> Some (0, dst)
      | Some src \<Rightarrow>
          (case inet_pton6_loop junk src src False 0 (replicate IN6ADDRSZ 0) 0 None of
             None \<Rightarrow> None
           | Some None \<Rightarrow> Some (0, dst)
           | Some (Some (saw_xdigit, val, tmp, tp, colonp)) \<Rightarrow>
               (case inet_pton6_finish saw_xdigit val tmp tp colonp of
                  None \<Rightarrow> None
                | Some None \<Rightarrow> Some (0, dst)
                | Some (Some tmp) \<Rightarrow> map_option (\<lambda>dst'. (1, dst')) (memcpy_at dst 0 tmp))))"

text \<open>
  \<open>inet_ntop6\<close>: the words, the longest run of zero words (\<^verbatim>\<open>base == -1\<close> is
  \<^term>\<open>None\<close>), the formatting loop, the copy.
\<close>

definition ntop6_words :: "u8 list \<Rightarrow> u32 list" where
  "ntop6_words src =
     fold (\<lambda>i ws. ws[i div 2 := ws ! (i div 2) OR push_bit ((1 - i mod 2) * 8) (ucast (src ! i))])
       [0..<IN6ADDRSZ] (replicate (IN6ADDRSZ div INT16SZ) 0)"

definition longer :: "(nat \<times> nat) option \<Rightarrow> (nat \<times> nat) option \<Rightarrow> (nat \<times> nat) option" where
  "longer best cur =
     (case cur of
        None \<Rightarrow> best
      | Some (cb, cl) \<Rightarrow>
          (case best of None \<Rightarrow> cur | Some (bb, bl) \<Rightarrow> if cl > bl then cur else best))"

fun ntop6_scan ::
  "u32 list \<Rightarrow> nat \<Rightarrow> (nat \<times> nat) option \<Rightarrow> (nat \<times> nat) option \<Rightarrow> (nat \<times> nat) option" where
  "ntop6_scan [] i best cur = longer best cur"
| "ntop6_scan (w # ws) i best cur =
     (if w = 0 then
        ntop6_scan ws (i + 1) best
          (case cur of None \<Rightarrow> Some (i, 1) | Some (b, l) \<Rightarrow> Some (b, l + 1))
      else ntop6_scan ws (i + 1) (longer best cur) None)"

definition ntop6_best :: "u32 list \<Rightarrow> (nat \<times> nat) option" where
  "ntop6_best ws =
     (case ntop6_scan ws 0 None None of
        Some (b, l) \<Rightarrow> (if l < 2 then None else Some (b, l))
      | None \<Rightarrow> None)"

definition ntop6_tmpsize :: nat where
  "ntop6_tmpsize = length ''ffff:ffff:ffff:ffff:ffff:ffff:255.255.255.255'' + 1"

fun ntop6_format ::
  "u8 list \<Rightarrow> u32 list \<Rightarrow> (nat \<times> nat) option \<Rightarrow> nat list \<Rightarrow> string \<Rightarrow> (errno + string) option" where
  "ntop6_format src ws best [] tp = Some (Inr tp)"
| "ntop6_format src ws best (i # is) tp =
     (if (case best of None \<Rightarrow> False | Some (b, l) \<Rightarrow> b \<le> i \<and> i < b + l) then
        ntop6_format src ws best is (if i = fst (the best) then tp @ '':'' else tp)
      else
        (let tp = (if i \<noteq> 0 then tp @ '':'' else tp) in
         if i = 6 \<and> (case best of None \<Rightarrow> False
                     | Some (b, l) \<Rightarrow> b = 0 \<and> (l = 6 \<or> l = 5 \<and> ws ! 5 = 0xffff)) then
           (case inet_ntop4 (drop 12 src) (replicate (ntop6_tmpsize - length tp) CHR 0x00)
                   (ntop6_tmpsize - length tp) of
              None \<Rightarrow> None
            | Some (Inl e) \<Rightarrow> Some (Inl e)
            | Some (Inr text) \<Rightarrow> Some (Inr (tp @ cstr text)))
         else ntop6_format src ws best is (tp @ show_hex (unat (ws ! i)))))"

definition inet_ntop6 :: "u8 list \<Rightarrow> string \<Rightarrow> nat \<Rightarrow> (errno + string) option" where
  "inet_ntop6 src dst sz =
     (if length src < IN6ADDRSZ then None
      else
        (let ws = ntop6_words src; best = ntop6_best ws in
         case ntop6_format src ws best [0..<IN6ADDRSZ div INT16SZ] [] of
           None \<Rightarrow> None
         | Some (Inl e) \<Rightarrow> Some (Inl e)
         | Some (Inr tp) \<Rightarrow>
             (let tp =
                (case best of
                   Some (b, l) \<Rightarrow> if b + l = IN6ADDRSZ div INT16SZ then tp @ '':'' else tp
                 | None \<Rightarrow> tp)
              in
              if length tp + 1 > ntop6_tmpsize then None
              else if length tp + 1 > sz then Some (Inl ENOSPC)
              else map_option Inr (strcpy dst tp))))"

text \<open>The exported functions: the dispatch on the family.\<close>

definition inet_pton :: "u8 list \<Rightarrow> nat \<Rightarrow> string \<Rightarrow> u8 list \<Rightarrow> (int \<times> u8 list) option" where
  "inet_pton junk af src dst =
     (if af = AF_INET then inet_pton4 junk src dst
      else if af = AF_INET6 then inet_pton6 junk src dst
      else Some (-1, dst))"

definition inet_ntop :: "nat \<Rightarrow> u8 list \<Rightarrow> string \<Rightarrow> nat \<Rightarrow> (errno + string) option" where
  "inet_ntop af src dst sz =
     (if af = AF_INET then inet_ntop4 src dst sz
      else if af = AF_INET6 then inet_ntop6 src dst sz
      else Some (Inl EAFNOSUPPORT))"

end
