(* ===== verification/Inet6_Laws.thy ===== *)
theory Inet6_Laws
  imports Inet6_Text
begin

unbundle bit_operations_syntax

text \<open>
  The lemmas about \<^verbatim>\<open>inet_pton6\<close> and \<^verbatim>\<open>inet_ntop6\<close> of \<open>Inet6_Text\<close>, the interpretation of
  the interface \<open>addr_text\<close> on them, and the properties of the IPv6 conversions.
\<close>

section \<open>The parser on the pieces of an address\<close>

lemma lower_digits_xdigits: "lower_digits = xdigits_l"
  by (simp add: lower_digits_def xdigits_l_def)

lemma xdigit_in_table:
  assumes "c \<in> set lower_digits"
  shows "\<exists>k < 16. xdigit c = Some k \<and> strchr lower_digits c = Some k"
proof -
  obtain k where k: "strchr lower_digits c = Some k"
    using assms strchr_None [of lower_digits c] by auto
  then show ?thesis
    using strchr_Some [OF k] by (simp add: xdigit_def lower_digits_xdigits [symmetric])
qed

lemma xdigit_colon [simp]: "xdigit CHR '':'' = None"
  by (simp add: xdigit_def xdigits_l_def xdigits_u_def)

lemma xdigit_dot [simp]: "xdigit CHR ''.'' = None"
  by (simp add: xdigit_def xdigits_l_def xdigits_u_def)

lemma push_or_digit: "k < 16 \<Longrightarrow> push_bit 4 x OR of_nat k = (x * 16 + of_nat k :: u32)"
proof -
  assume k: "k < 16"
  have "take_bit 4 (of_nat k :: u32) = of_nat k"
    using k by (simp add: word_unat_eq_iff unsigned_take_bit_eq unat_of_nat take_bit_nat_eq_self)
  then have "\<not> (bit (of_nat k :: u32) n \<and> 4 \<le> n)" for n
    by (metis bit_take_bit_iff not_le)
  then have "push_bit 4 x + of_nat k = push_bit 4 x OR of_nat k"
    by (intro disjunctive_add) (metis bit_push_bit_iff)
  then show ?thesis
    by (simp add: push_bit_eq_mult)
qed

lemma unat_of_nat_u32: "n < 4294967296 \<Longrightarrow> unat (of_nat n :: u32) = n"
  by (simp add: unat_of_nat take_bit_nat_eq_self)

lemma pton6_digits:
  assumes "set p \<subseteq> set lower_digits" and "digits_value 16 lower_digits v p < 65536"
  shows "inet_pton6_loop junk (p @ r) ct saw (of_nat v) tmp tp cp =
    inet_pton6_loop junk r ct (saw \<or> p \<noteq> []) (of_nat (digits_value 16 lower_digits v p)) tmp tp cp"
  using assms
proof (induction p arbitrary: v saw)
  case (Cons c p)
  then obtain k where k: "k < 16" "xdigit c = Some k" "strchr lower_digits c = Some k"
    using xdigit_in_table [of c] by auto
  have "v * 16 + k \<le> digits_value 16 lower_digits (v * 16 + k) p"
    by (rule digits_value_mono) simp
  then have small: "v * 16 + k < 65536"
    using Cons.prems k by simp
  have "push_bit 4 (of_nat v) OR of_nat k = (of_nat (v * 16 + k) :: u32)"
    using k by (simp add: push_or_digit)
  moreover have "\<not> (0xffff :: u32) < of_nat (v * 16 + k)"
    using small by (simp only: word_less_nat_alt unat_of_nat_u32) simp
  ultimately show ?case
    using k Cons.prems Cons.IH [of "v * 16 + k" True]
    by (simp add: Let_def del: of_nat_add of_nat_mult)
qed simp

lemma show_hex_lower: "set (show_hex n) \<subseteq> set lower_digits"
  using show_base_chars [of 16 n] by (simp add: show_hex_def)

lemma value_show_hex: "digits_value 16 lower_digits 0 (show_hex n) = n"
  using digits_value_show_base [of 16 n] by (simp add: show_hex_def)

lemma show_hex_nonempty [simp]: "show_hex n \<noteq> []"
  by (simp add: show_hex_def)

lemma pton6_hex:
  assumes "w < 65536"
  shows "inet_pton6_loop junk (show_hex w @ r) ct False 0 tmp tp cp =
    inet_pton6_loop junk r ct True (of_nat w) tmp tp cp"
  using pton6_digits [OF show_hex_lower, of 0 w junk r ct False tmp tp cp] assms
  by (simp add: value_show_hex)

text \<open>The two bytes of a group, most significant first.\<close>

definition group_bytes :: "nat \<Rightarrow> u8 list" where
  "group_bytes w = [of_nat (w div 256), of_nat (w mod 256)]"

lemma length_group_bytes [simp]: "length (group_bytes w) = 2"
  by (simp add: group_bytes_def)

lemma nat_and_255: "(n :: nat) AND 255 = n mod 256"
  using take_bit_eq_mask [of 8 n] by (simp add: take_bit_nat_def mask_eq_exp_minus_1)

lemma put16_append:
  assumes "w < 65536" and "2 \<le> length rest"
  shows "put16 (pre @ rest) (length pre) (of_nat w) = Some (pre @ group_bytes w @ drop 2 rest)"
proof -
  obtain x y rest' where rest: "rest = x # y # rest'"
    using assms(2) by (cases rest; cases "tl rest") auto
  have "(ucast (drop_bit 8 (of_nat w :: u32)) AND 0xff :: u8) = of_nat (w div 256)"
    and "(ucast (of_nat w :: u32) AND 0xff :: u8) = of_nat (w mod 256)"
    using assms(1)
    by (simp_all add: word_unat_eq_iff unsigned_and_eq unsigned_ucast_eq unsigned_drop_bit_eq
        unat_of_nat take_bit_nat_def drop_bit_nat_def nat_and_255)
  then show ?thesis
    by (simp add: put16_def rest group_bytes_def list_update_append)
qed

lemma pton6_colon:
  assumes "w < 65536" and "2 \<le> m" and "length pre + m = 16"
  shows "inet_pton6_loop junk (CHR '':'' # r) ct True (of_nat w) (pre @ replicate m 0) (length pre) cp =
    inet_pton6_loop junk r r False 0 ((pre @ group_bytes w) @ replicate (m - 2) 0)
      (length (pre @ group_bytes w)) cp"
  using assms put16_append [of w "replicate m 0" pre]
  by (simp add: INT16SZ_def IN6ADDRSZ_def)

definition groups_text :: "nat list \<Rightarrow> string" where
  "groups_text ws = concat (map (\<lambda>w. show_hex w @ '':'') ws)"

definition groups_bytes :: "nat list \<Rightarrow> u8 list" where
  "groups_bytes ws = concat (map group_bytes ws)"

lemma groups_text_Cons [simp]:
  "groups_text [] = []" "groups_text (w # ws) = show_hex w @ CHR '':'' # groups_text ws"
  by (simp_all add: groups_text_def)

lemma groups_bytes_Cons [simp]:
  "groups_bytes [] = []" "groups_bytes (w # ws) = group_bytes w @ groups_bytes ws"
  by (simp_all add: groups_bytes_def)

lemma groups_bytes_append [simp]: "groups_bytes (ws @ vs) = groups_bytes ws @ groups_bytes vs"
  by (simp add: groups_bytes_def)

lemma length_groups_bytes [simp]: "length (groups_bytes ws) = 2 * length ws"
  by (induction ws) auto

text \<open>A sequence of groups, each followed by a colon, fills the array from the left.\<close>

lemma pton6_groups:
  assumes "\<forall>w\<in>set ws. w < 65536" and "length pre + m = 16" and "2 * length ws \<le> m"
  shows "inet_pton6_loop junk (groups_text ws @ r) ct False 0 (pre @ replicate m 0) (length pre) cp =
    inet_pton6_loop junk r (if ws = [] then ct else r) False 0
      (pre @ groups_bytes ws @ replicate (m - 2 * length ws) 0) (length pre + 2 * length ws) cp"
  using assms
proof (induction ws arbitrary: pre m ct)
  case (Cons w ws)
  have "inet_pton6_loop junk (groups_text (w # ws) @ r) ct False 0 (pre @ replicate m 0) (length pre) cp
    = inet_pton6_loop junk (groups_text ws @ r) (groups_text ws @ r) False 0
        ((pre @ group_bytes w) @ replicate (m - 2) 0) (length (pre @ group_bytes w)) cp"
    using Cons.prems by (simp add: pton6_hex pton6_colon del: inet_pton6_loop.simps(2))
  also have "\<dots> = inet_pton6_loop junk r (if ws = [] then r else r) False 0
      ((pre @ group_bytes w) @ groups_bytes ws @ replicate (m - 2 - 2 * length ws) 0)
      (length (pre @ group_bytes w) + 2 * length ws) cp"
    using Cons.prems Cons.IH [of "pre @ group_bytes w" "m - 2" "groups_text ws @ r"] by simp
  finally show ?case
    by (simp add: diff_diff_add)
qed simp

section \<open>The shift\<close>

definition shift_to :: "nat \<Rightarrow> nat \<Rightarrow> nat \<Rightarrow> u8 list \<Rightarrow> u8 list" where
  "shift_to e c n tmp =
     fold (\<lambda>i t. t[e - i := t ! (c + (n - i)), c + (n - i) := 0]) [1..<Suc n] tmp"

lemma shift_to_Suc:
  "shift_to e c (Suc n) tmp = shift_to (e - 1) c n (tmp[e - 1 := tmp ! (c + n), c + n := 0])"
proof -
  have "[1..<Suc (Suc n)] = 1 # map Suc [1..<Suc n]"
    by (simp add: map_Suc_upt upt_conv_Cons del: upt_Suc)
  then show ?thesis
    by (simp add: shift_to_def fold_map comp_def del: upt_Suc)
qed

lemma shift_to_moves:
  assumes "0 < m" and "e = length P + length Q + m"
  shows "shift_to e (length P) (length Q) (P @ Q @ replicate m 0 @ R) = P @ replicate m 0 @ Q @ R"
  using assms
proof (induction Q arbitrary: e R rule: rev_induct)
  case Nil
  then show ?case
    by (simp add: shift_to_def)
next
  case (snoc x Q)
  obtain k where m: "m = Suc k"
    using snoc.prems(1) by (cases m) auto
  let ?t = "P @ (Q @ [x]) @ replicate m 0 @ R"
  have "?t[e - 1 := ?t ! (length P + length Q), length P + length Q := 0] =
      P @ Q @ 0 # replicate k 0 @ x # R"
    using snoc.prems(2) m by (simp add: list_update_append nth_append replicate_append_same [symmetric])
  then have "?t[e - 1 := ?t ! (length P + length Q), length P + length Q := 0] =
      P @ Q @ replicate m 0 @ x # R"
    by (simp add: m)
  then show ?case
    using snoc.IH [of "e - 1" "x # R"] snoc.prems by (simp add: shift_to_Suc)
qed

lemma shift_bytes_in_bounds:
  "length tmp = 16 \<Longrightarrow> c + n \<le> 16 \<Longrightarrow> \<forall>i\<in>set is. 0 < i \<and> i \<le> n \<Longrightarrow>
    shift_bytes c n is tmp = Some (fold (\<lambda>i t. t[16 - i := t ! (c + (n - i)), c + (n - i) := 0]) is tmp)"
  by (induction "is" arbitrary: tmp) (auto simp: IN6ADDRSZ_def)

lemma inet_pton6_shift_to:
  assumes "length tmp = 16" and "c + n \<le> 16"
  shows "inet_pton6_shift c n tmp = Some (shift_to 16 c n tmp)"
  using shift_bytes_in_bounds [OF assms, of "[1..<Suc n]"] by (simp add: inet_pton6_shift_def shift_to_def del: upt_Suc)

lemma inet_pton6_shift_moves:
  assumes "0 < m" and "length P + length Q + m = 16"
  shows "inet_pton6_shift (length P) (length Q) (P @ Q @ replicate m 0) = Some (P @ replicate m 0 @ Q)"
  using shift_to_moves [of m 16 P Q "[]"] assms by (simp add: inet_pton6_shift_to)

section \<open>Complete addresses\<close>

text \<open>The loop and what follows it, from a given state of the loop.\<close>

definition pton6_run ::
  "u8 list \<Rightarrow> string \<Rightarrow> string \<Rightarrow> bool \<Rightarrow> u32 \<Rightarrow> u8 list \<Rightarrow> nat \<Rightarrow> nat option \<Rightarrow> u8 list option option"
  where
  "pton6_run junk src ct saw val tmp tp cp =
     (case inet_pton6_loop junk src ct saw val tmp tp cp of
        None \<Rightarrow> None
      | Some None \<Rightarrow> Some None
      | Some (Some (saw, val, tmp, tp, cp)) \<Rightarrow> inet_pton6_finish saw val tmp tp cp)"

lemma inet_pton6_run:
  "inet_pton6 junk src dst =
    (case skip_leading_colon src of
       None \<Rightarrow> Some (0, dst)
     | Some src \<Rightarrow>
         (case pton6_run junk src src False 0 (replicate 16 0) 0 None of
            None \<Rightarrow> None
          | Some None \<Rightarrow> Some (0, dst)
          | Some (Some tmp) \<Rightarrow> map_option (\<lambda>dst'. (1, dst')) (memcpy_at dst 0 tmp)))"
  by (auto simp: inet_pton6_def pton6_run_def IN6ADDRSZ_def split: option.splits)

text \<open>A list of groups with a colon between any two.\<close>

definition groups_join :: "nat list \<Rightarrow> string" where
  "groups_join ws = join_with CHR '':'' (map show_hex ws)"

lemma groups_join_snoc: "groups_join (ws @ [w]) = groups_text ws @ show_hex w"
proof (induction ws)
  case (Cons v ws)
  then show ?case
    by (cases "ws @ [w]") (auto simp: groups_join_def)
qed (simp add: groups_join_def)

lemma groups_text_join: "ws \<noteq> [] \<Longrightarrow> groups_text ws = groups_join ws @ '':''"
  by (induction ws rule: rev_induct) (simp_all add: groups_join_snoc groups_text_def)

lemma run_join_full:
  assumes "\<forall>w\<in>set ws. w < 65536" and "length ws = 8"
  shows "pton6_run junk (groups_join ws) ct False 0 (replicate 16 0) 0 None = Some (Some (groups_bytes ws))"
proof -
  obtain vs w where ws: "ws = vs @ [w]"
    using assms(2) by (cases ws rule: rev_cases) auto
  then have "inet_pton6_loop junk (groups_join ws) ct False 0 (replicate 16 0) 0 None =
      Some (Some (True, of_nat w, groups_bytes vs @ replicate 2 0, length (groups_bytes vs), None))"
    using assms pton6_groups [of vs "[]" 16 junk "show_hex w" ct None] pton6_hex [of w junk "[]"]
    by (simp add: groups_join_snoc)
  then show ?thesis
    using assms ws put16_append [of w "replicate 2 0" "groups_bytes vs"]
    by (simp add: pton6_run_def inet_pton6_finish_def IN6ADDRSZ_def INT16SZ_def)
qed

text \<open>
  The part after \<^verbatim>\<open>::\<close>. The bytes before it are \<open>P\<close>, and \<open>m\<close> bytes of the array are not
  used by any group.
\<close>

lemma run_join_colon:
  assumes "\<forall>w\<in>set Q. w < 65536" and "length P + 2 * length Q + m = 16" and "0 < m"
  shows "pton6_run junk (groups_join Q) (groups_join Q) False 0 (P @ replicate (2 * length Q + m) 0)
      (length P) (Some (length P)) = Some (Some (P @ replicate m 0 @ groups_bytes Q))"
proof (cases Q rule: rev_cases)
  case Nil
  then show ?thesis
    by (simp add: pton6_run_def inet_pton6_finish_def groups_join_def inet_pton6_shift_def)
next
  case (snoc vs w)
  have "inet_pton6_loop junk (groups_join Q) (groups_join Q) False 0
      (P @ replicate (2 * length Q + m) 0) (length P) (Some (length P)) =
      Some (Some (True, of_nat w, (P @ groups_bytes vs) @ replicate (2 + m) 0,
        length (P @ groups_bytes vs), Some (length P)))"
    using assms snoc pton6_groups [of vs P "2 * length Q + m" junk "show_hex w"] pton6_hex [of w junk "[]"]
    by (simp add: groups_join_snoc)
  moreover have "inet_pton6_shift (length P) (2 * length Q) (P @ groups_bytes Q @ replicate m 0) =
      Some (P @ replicate m 0 @ groups_bytes Q)"
    using inet_pton6_shift_moves [of m P "groups_bytes Q"] assms by simp
  ultimately show ?thesis
    using assms snoc put16_append [of w "replicate (2 + m) 0" "P @ groups_bytes vs"]
    by (simp add: pton6_run_def inet_pton6_finish_def IN6ADDRSZ_def INT16SZ_def)
qed

lemma pton6_double_colon:
  "inet_pton6_loop junk (CHR '':'' # r) ct False 0 tmp tp None =
   inet_pton6_loop junk r r False 0 tmp tp (Some tp)"
  by simp

lemma run_compressed:
  assumes "\<forall>w\<in>set P \<union> set Q. w < 65536" and "2 * length P + 2 * length Q + m = 16" and "0 < m"
  shows "pton6_run junk (groups_text P @ CHR '':'' # groups_join Q) ct False 0 (replicate 16 0) 0 None =
    Some (Some (groups_bytes P @ replicate m 0 @ groups_bytes Q))"
proof -
  have "16 - 2 * length P = 2 * length Q + m"
    using assms(2) by simp
  then have "inet_pton6_loop junk (groups_text P @ CHR '':'' # groups_join Q) ct False 0 (replicate 16 0) 0 None
    = inet_pton6_loop junk (groups_join Q) (groups_join Q) False 0
        (groups_bytes P @ replicate (2 * length Q + m) 0) (length (groups_bytes P))
        (Some (length (groups_bytes P)))"
    using assms pton6_groups [of P "[]" 16 junk "CHR '':'' # groups_join Q" ct None]
    by (simp add: pton6_double_colon)
  then show ?thesis
    using run_join_colon [of Q "groups_bytes P" m junk] assms by (simp add: pton6_run_def)
qed

text \<open>An address that ends in a dotted quad.\<close>

lemma show_dec_lower: "set (show_dec n) \<subseteq> set lower_digits"
  using show_dec_digits [of n] set_take_subset [of 10 lower_digits] by (simp add: digits_take)

lemma hex_value_less:
  assumes "set p \<subseteq> set lower_digits"
  shows "digits_value 16 lower_digits 0 p < 16 ^ length p"
  using assms
proof (induction p rule: rev_induct)
  case (snoc c p)
  then obtain k where k: "k < 16" "strchr lower_digits c = Some k"
    using xdigit_in_table [of c] by auto
  have "Suc (digits_value 16 lower_digits 0 p) * 16 \<le> 16 ^ length p * 16"
    using snoc by (intro mult_right_mono) auto
  then show ?case
    using k by simp
qed simp

lemma hex_value_show_dec: "digits_value 16 lower_digits 0 (show_dec (unat (b :: u8))) < 65536"
proof -
  have "digits_value 16 lower_digits 0 (show_dec (unat b)) < 16 ^ length (show_dec (unat b))"
    by (rule hex_value_less) (rule show_dec_lower)
  also have "\<dots> \<le> 16 ^ 3"
    by (rule power_increasing) (simp_all add: length_show_dec_u8)
  finally show ?thesis by simp
qed

lemma loop_dotted:
  assumes "length bs = 4" and "length junk = 4" and "tp + 4 \<le> 16" and "length tmp = 16"
  shows "\<exists>val. inet_pton6_loop junk (dotted bs) (dotted bs) False 0 tmp tp cp =
    Some (Some (False, val, take tp tmp @ bs @ drop (tp + 4) tmp, tp + 4, cp))"
proof -
  obtain a b c d where bs: "bs = [a, b, c, d]"
    using assms(1) by (rule length4_cases)
  define rest where "rest = show_dec (unat b) @ CHR ''.'' # show_dec (unat c) @ CHR ''.'' # show_dec (unat d)"
  have shape: "dotted bs = show_dec (unat a) @ CHR ''.'' # rest"
    by (simp add: bs rest_def)
  have quad: "inet_pton4 junk (dotted bs) (drop tp tmp) = Some (1, bs @ drop 4 (drop tp tmp))"
    using assms by (simp add: inet_pton4_eq dotted_quad_dotted memcpy_at_0)
  have "inet_pton6_loop junk (dotted bs) (dotted bs) False 0 tmp tp cp =
      inet_pton6_loop junk (CHR ''.'' # rest) (dotted bs) True
        (of_nat (digits_value 16 lower_digits 0 (show_dec (unat a)))) tmp tp cp"
    using pton6_digits [OF show_dec_lower hex_value_show_dec, of junk a "CHR ''.'' # rest" "dotted bs" False]
    by (simp add: shape show_dec_def)
  also have "\<dots> = Some (Some (False, of_nat (digits_value 16 lower_digits 0 (show_dec (unat a))),
      take tp tmp @ bs @ drop (tp + 4) tmp, tp + 4, cp))"
    using assms quad by (simp add: IN6ADDRSZ_def add.commute)
  finally show ?thesis by blast
qed

lemma run_dotted:
  assumes "length bs = 4" and "length junk = 4" and "\<forall>w\<in>set Q. w < 65536" and "2 * length Q + m = 12"
    and "0 < m"
  shows "pton6_run junk (CHR '':'' # groups_text Q @ dotted bs) ct False 0 (replicate 16 0) 0 None =
    Some (Some (replicate m 0 @ groups_bytes Q @ bs))"
proof -
  have "inet_pton6_loop junk (groups_text Q @ dotted bs) (groups_text Q @ dotted bs) False 0
      (replicate 16 0) 0 (Some 0) =
    inet_pton6_loop junk (dotted bs) (dotted bs) False 0
      (groups_bytes Q @ replicate (16 - 2 * length Q) 0) (2 * length Q) (Some 0)"
    using assms pton6_groups [of Q "[]" 16 junk "dotted bs" "groups_text Q @ dotted bs" "Some 0"]
    by (simp split: if_splits)
  moreover obtain val where "inet_pton6_loop junk (dotted bs) (dotted bs) False 0
      (groups_bytes Q @ replicate (16 - 2 * length Q) 0) (2 * length Q) (Some 0) =
    Some (Some (False, val, groups_bytes Q @ bs @ replicate m 0, 2 * length Q + 4, Some 0))"
    using loop_dotted [of bs junk "2 * length Q" "groups_bytes Q @ replicate (16 - 2 * length Q) 0" "Some 0"]
      assms by auto
  moreover have "inet_pton6_shift 0 (2 * length Q + 4) (groups_bytes Q @ bs @ replicate m 0) =
      Some (replicate m 0 @ groups_bytes Q @ bs)"
    using inet_pton6_shift_moves [of m "[]" "groups_bytes Q @ bs"] assms by simp
  ultimately show ?thesis
    by (simp add: pton6_run_def inet_pton6_finish_def)
qed

section \<open>The words of an address\<close>

definition word16s :: "u8 list \<Rightarrow> nat list" where
  "word16s src = map (\<lambda>i. unat (src ! (2 * i)) * 256 + unat (src ! (2 * i + 1))) [0..<8]"

lemma unat_or_bytes: "unat (push_bit 8 (ucast (a :: u8)) OR ucast (b :: u8) :: u32) = unat a * 256 + unat b"
proof -
  have "\<not> (bit (ucast b :: u32) n \<and> 8 \<le> n)" for n
    using bit_imp_le_length [of b n] by (auto simp: bit_simps)
  then have sum: "push_bit 8 (ucast a) + ucast b = (push_bit 8 (ucast a) OR ucast b :: u32)"
    by (intro disjunctive_add) (metis bit_push_bit_iff)
  have shifted: "unat (push_bit 8 (ucast a :: u32)) = unat a * 256"
    using unat_u8_less [of a] by (simp add: push_bit_eq_mult unat_word_ariths unsigned_ucast_eq
        take_bit_nat_eq_self del: unat_u8_less)
  have low: "unat (ucast b :: u32) = unat b"
    using unat_u8_less [of b] by (simp add: unsigned_ucast_eq take_bit_nat_eq_self del: unat_u8_less)
  have "unat a * 256 + unat b < 4294967296"
    using unat_u8_less [of a] unat_u8_less [of b] by linarith
  then show ?thesis
    unfolding sum [symmetric] by (simp add: unat_word_ariths shifted low)
qed

lemma ntop6_words_prefix:
  "k \<le> 8 \<Longrightarrow>
   fold (\<lambda>i ws. ws[i div 2 := ws ! (i div 2) OR push_bit ((1 - i mod 2) * 8) (ucast (src ! i))])
     [0..<2 * k] (replicate 8 0) =
   map (\<lambda>i. push_bit 8 (ucast (src ! (2 * i))) OR ucast (src ! (2 * i + 1))) [0..<k]
     @ replicate (8 - k) (0 :: u32)"
proof (induction k)
  case (Suc k)
  have "[0..<2 * Suc k] = [0..<2 * k] @ [2 * k, 2 * k + 1]"
    by simp
  moreover obtain r where "replicate (8 - k) (0 :: u32) = 0 # r" and "r = replicate (8 - Suc k) 0"
    using Suc.prems by (metis Suc_diff_le diff_Suc_Suc replicate_Suc)
  moreover have "[0..<Suc k] = [0..<k] @ [k]"
    by simp
  ultimately show ?case
    using Suc by (simp add: nth_append list_update_append del: upt_Suc)
qed simp

lemma ntop6_words_nth:
  "ntop6_words src = map (\<lambda>i. push_bit 8 (ucast (src ! (2 * i))) OR ucast (src ! (2 * i + 1))) [0..<8]"
  using ntop6_words_prefix [of 8 src] by (simp add: ntop6_words_def IN6ADDRSZ_def INT16SZ_def)

lemma ntop6_words_eq: "map unat (ntop6_words src) = word16s src"
  by (simp add: ntop6_words_nth word16s_def unat_or_bytes comp_def)

lemma groups_bytes_word16s: "length src = 16 \<Longrightarrow> groups_bytes (word16s src) = src"
proof -
  assume len: "length src = 16"
  have "k \<le> 8 \<Longrightarrow> groups_bytes (map (\<lambda>i. unat (src ! (2 * i)) * 256 + unat (src ! (2 * i + 1))) [0..<k])
      = take (2 * k) src" for k
  proof (induction k)
    case (Suc k)
    then have "group_bytes (unat (src ! (2 * k)) * 256 + unat (src ! (2 * k + 1))) =
        [src ! (2 * k), src ! (2 * k + 1)]"
      by (simp add: group_bytes_def)
    moreover have "take (2 * Suc k) src = take (2 * k) src @ [src ! (2 * k), src ! (2 * k + 1)]"
      using Suc.prems len by (simp add: take_Suc_conv_app_nth)
    ultimately show ?case
      using Suc by simp
  qed simp
  from this [of 8] len show ?thesis
    by (simp add: word16s_def)
qed

lemma word16s_less: "\<forall>w\<in>set (word16s src). w < 65536"
proof -
  have "unat (a :: u8) * 256 + unat (b :: u8) < 65536" for a b
    using unat_u8_less [of a] unat_u8_less [of b] by linarith
  then show ?thesis
    by (auto simp: word16s_def)
qed

lemma length_word16s [simp]: "length (word16s src) = 8"
  by (simp add: word16s_def)

section \<open>The longest run of zero words\<close>

definition zero_run :: "u32 list \<Rightarrow> nat \<times> nat \<Rightarrow> bool" where
  "zero_run ws r \<longleftrightarrow> fst r + snd r \<le> length ws \<and> (\<forall>i. fst r \<le> i \<and> i < fst r + snd r \<longrightarrow> ws ! i = 0)"

lemma longer_cases: "longer best cur = best \<or> longer best cur = cur"
  by (auto simp: longer_def split: option.splits)

lemma ntop6_scan_run:
  assumes "\<And>r. best = Some r \<Longrightarrow> zero_run (pre @ suf) r"
    and "\<And>r. cur = Some r \<Longrightarrow> zero_run (pre @ suf) r \<and> fst r + snd r = length pre"
    and "ntop6_scan suf (length pre) best cur = Some r"
  shows "zero_run (pre @ suf) r"
  using assms
proof (induction suf arbitrary: pre best cur)
  case Nil
  from Nil.prems(3) longer_cases [of best cur] have "best = Some r \<or> cur = Some r"
    by auto
  with Nil.prems(1,2) show ?case by blast
next
  case (Cons w suf)
  have snoc: "pre @ w # suf = (pre @ [w]) @ suf"
    by simp
  show ?case
  proof (cases "w = 0")
    case True
    let ?cur = "case cur of None \<Rightarrow> Some (length pre, 1) | Some (b, l) \<Rightarrow> Some (b, l + 1)"
    have "zero_run ((pre @ [w]) @ suf) r' \<and> fst r' + snd r' = length (pre @ [w])"
      if "?cur = Some r'" for r'
    proof (cases cur)
      case None
      with that True show ?thesis
        by (auto simp: zero_run_def nth_append)
    next
      case (Some bl)
      with that Cons.prems(2) [OF Some] True show ?thesis
        by (auto simp: zero_run_def nth_append less_Suc_eq split: prod.splits)
    qed
    moreover have "ntop6_scan suf (length (pre @ [w])) best ?cur = Some r"
      using Cons.prems(3) True by simp
    ultimately show ?thesis
      unfolding snoc using Cons.IH [of best "pre @ [w]" ?cur] Cons.prems(1) by simp
  next
    case False
    have "zero_run ((pre @ [w]) @ suf) r'" if "longer best cur = Some r'" for r'
      using that longer_cases [of best cur] Cons.prems(1,2) by fastforce
    then show ?thesis
      unfolding snoc using Cons.IH [of "longer best cur" "pre @ [w]" None] Cons.prems(3) False by simp
  qed
qed

lemma ntop6_best_run: "ntop6_best ws = Some (b, l) \<Longrightarrow> zero_run ws (b, l) \<and> 2 \<le> l"
  using ntop6_scan_run [of None "[]" ws None "(b, l)"]
  by (auto simp: ntop6_best_def split: option.splits prod.splits if_splits)

section \<open>The printer\<close>

definition embeds_v4 :: "u32 list \<Rightarrow> (nat \<times> nat) option \<Rightarrow> bool" where
  "embeds_v4 ws best \<longleftrightarrow> (case best of None \<Rightarrow> False
     | Some (b, l) \<Rightarrow> b = 0 \<and> (l = 6 \<or> l = 5 \<and> ws ! 5 = 0xffff))"

definition format_piece :: "u32 list \<Rightarrow> (nat \<times> nat) option \<Rightarrow> nat \<Rightarrow> string" where
  "format_piece ws best i =
     (if (case best of None \<Rightarrow> False | Some (b, l) \<Rightarrow> b \<le> i \<and> i < b + l)
      then (if i = fst (the best) then '':'' else [])
      else (if i \<noteq> 0 then '':'' else []) @ show_hex (unat (ws ! i)))"

lemma ntop6_format_pieces:
  "\<not> embeds_v4 ws best \<Longrightarrow>
   ntop6_format src ws best is tp = Some (Inr (tp @ concat (map (format_piece ws best) is)))"
  by (induction "is" arbitrary: tp) (auto simp: embeds_v4_def format_piece_def Let_def)

lemma pieces_prefix:
  assumes "n \<le> length ws" and "\<And>i. i < n \<Longrightarrow> format_piece ws best i =
      (if i \<noteq> 0 then '':'' else []) @ show_hex (unat (ws ! i))"
  shows "concat (map (format_piece ws best) [0..<n]) = groups_join (map unat (take n ws))"
  using assms
proof (induction n)
  case (Suc n)
  show ?case
  proof (cases "n = 0")
    case True
    with Suc.prems show ?thesis
      by (cases ws) (simp_all add: groups_join_def)
  next
    case False
    then have "take n ws \<noteq> []"
      using Suc.prems(1) by auto
    with False Suc show ?thesis
      by (simp add: take_Suc_conv_app_nth groups_join_snoc groups_text_join)
  qed
qed (simp add: groups_join_def)

lemma concat_colon_join:
  "vs \<noteq> [] \<Longrightarrow> concat (map (\<lambda>v. CHR '':'' # show_hex v) vs) = CHR '':'' # groups_join vs"
proof (induction vs)
  case (Cons v vs)
  then show ?case
    by (cases vs) (auto simp: groups_join_def)
qed simp

lemma pieces_suffix:
  assumes "k < length ws" and "\<And>i. k \<le> i \<Longrightarrow> i < length ws \<Longrightarrow>
      format_piece ws best i = CHR '':'' # show_hex (unat (ws ! i))"
  shows "concat (map (format_piece ws best) [k..<length ws]) = CHR '':'' # groups_join (map unat (drop k ws))"
proof -
  have "map (format_piece ws best) [k..<length ws] =
      map (\<lambda>i. CHR '':'' # show_hex (unat (ws ! i))) [k..<length ws]"
    using assms(2) by (intro map_cong) auto
  also have "\<dots> = map (\<lambda>v. CHR '':'' # show_hex v) (map unat (drop k ws))"
    by (rule nth_equalityI) (use assms(1) in auto)
  finally show ?thesis
    using concat_colon_join [of "map unat (drop k ws)"] assms(1) by simp
qed

lemma pieces_run:
  assumes "0 < l"
  shows "concat (map (format_piece ws (Some (b, l))) [b..<b + l]) = '':''"
proof -
  have "[b..<b + l] = b # [Suc b..<b + l]"
    using assms by (simp add: upt_conv_Cons)
  moreover have "concat (map (format_piece ws (Some (b, l))) [Suc b..<b + l]) = []"
    by (auto simp: format_piece_def)
  ultimately show ?thesis
    using assms by (simp add: format_piece_def)
qed

text \<open>What \<^verbatim>\<open>inet_ntop6\<close> prints, by the longest run of zero words.\<close>

definition text6 :: "u8 list \<Rightarrow> string" where
  "text6 src =
     (let ws = ntop6_words src; ns = word16s src in
      case ntop6_best ws of
        None \<Rightarrow> groups_join ns
      | Some (b, l) \<Rightarrow>
          if embeds_v4 ws (Some (b, l)) then
            '':'' @ CHR '':'' # groups_text (take (6 - l) (drop l ns)) @ dotted (drop 12 src)
          else groups_join (take b ns) @ '':'' @ CHR '':'' # groups_join (drop (b + l) ns))"

lemma length_ntop6_words [simp]: "length (ntop6_words src) = 8"
  by (simp add: ntop6_words_nth)

lemma format_compressed:
  assumes "zero_run ws (b, l)" and "2 \<le> l" and "length ws = 8" and "\<not> embeds_v4 ws (Some (b, l))"
  shows "\<exists>tp. ntop6_format src ws (Some (b, l)) [0..<8] [] = Some (Inr tp) \<and>
    (if b + l = 8 then tp @ '':'' else tp) =
      groups_join (map unat (take b ws)) @ '':'' @ CHR '':'' # groups_join (map unat (drop (b + l) ws))"
proof -
  have le: "b + l \<le> 8"
    using assms(1,3) by (simp add: zero_run_def)
  have split: "[0..<8] = [0..<b] @ [b..<b + l] @ [b + l..<8]"
    using le by (metis le_add1 le_add2 le_add_same_cancel1 le_trans upt_add_eq_append zero_le add_0 le_iff_add)
  have pre: "concat (map (format_piece ws (Some (b, l))) [0..<b]) = groups_join (map unat (take b ws))"
    using le assms(3) by (intro pieces_prefix) (auto simp: format_piece_def)
  have run: "concat (map (format_piece ws (Some (b, l))) [b..<b + l]) = '':''"
    using assms(2) by (intro pieces_run) simp
  show ?thesis
  proof (cases "b + l = 8")
    case True
    with assms(3,4) pre run split show ?thesis
      by (simp add: ntop6_format_pieces groups_join_def)
  next
    case False
    then have "concat (map (format_piece ws (Some (b, l))) [b + l..<8]) =
        CHR '':'' # groups_join (map unat (drop (b + l) ws))"
      using le assms pieces_suffix [of "b + l" ws "Some (b, l)"] by (auto simp: format_piece_def)
    with False assms(4) pre run split show ?thesis
      by (simp add: ntop6_format_pieces)
  qed
qed

lemma ntop4_tail:
  assumes "length bs = 4" and "n \<le> 30"
  shows "\<exists>buf. inet_ntop4 bs (replicate (46 - n) CHR 0x00) (46 - n) = Some (Inr buf) \<and> cstr buf = dotted bs"
  using v4.ntop_fits [of bs "46 - n" "replicate (46 - n) CHR 0x00"] inet_ntop4_Inr [OF assms(1)] assms
  by fastforce

lemma tmpsize [simp]: "ntop6_tmpsize = 46"
  by (simp add: ntop6_tmpsize_def)

lemma upt_8: "[0..<8] = [0, 1, 2, 3, 4, 5, 6, 7 :: nat]"
  by (simp add: upt_rec)

lemma show_hex_ffff: "show_hex 65535 = ''ffff''"
  by (simp add: show_hex_def show_base_step show_base_small lower_digits_def)

lemma format_v4:
  assumes "embeds_v4 ws (Some (b, l))" and "length src = 16"
  shows "ntop6_format src ws (Some (b, l)) [0..<8] [] =
    Some (Inr ('':'' @ CHR '':'' # (if l = 5 then ''ffff:'' else []) @ dotted (drop 12 src)))"
proof -
  have bs: "length (drop 12 src) = 4"
    using assms(2) by simp
  obtain t2 where t2: "inet_ntop4 (drop 12 src) (replicate 44 CHR 0x00) 44 = Some (Inr t2)"
      "cstr t2 = dotted (drop 12 src)"
    using ntop4_tail [OF bs, of 2] by auto
  obtain t7 where t7: "inet_ntop4 (drop 12 src) (replicate 39 CHR 0x00) 39 = Some (Inr t7)"
      "cstr t7 = dotted (drop 12 src)"
    using ntop4_tail [OF bs, of 7] by auto
  from assms(1) consider "b = 0" "l = 6" | "b = 0" "l = 5" "ws ! 5 = 0xffff"
    by (auto simp: embeds_v4_def)
  then show ?thesis
  proof cases
    case 1
    then show ?thesis
      by (simp add: upt_8 t2)
  next
    case 2
    then show ?thesis
      by (simp add: upt_8 t7 show_hex_ffff)
  qed
qed

lemma word16s_zero_run:
  assumes "zero_run (ntop6_words src) (b, l)"
  shows "word16s src = take b (word16s src) @ replicate l 0 @ drop (b + l) (word16s src)"
proof -
  let ?ns = "word16s src"
  have le: "b + l \<le> 8"
    using assms by (simp add: zero_run_def)
  have "?ns ! i = 0" if "b \<le> i" "i < b + l" for i
    using that assms le by (simp add: ntop6_words_eq [symmetric] zero_run_def)
  then have "take l (drop b ?ns) = replicate l 0"
    using le by (intro nth_equalityI) auto
  moreover have "?ns = take b ?ns @ take l (drop b ?ns) @ drop (b + l) ?ns"
    by (metis append_take_drop_id drop_drop add.commute)
  ultimately show ?thesis by simp
qed

lemma groups_bytes_zero: "groups_bytes (replicate l 0) = replicate (2 * l) 0"
  by (induction l) (auto simp: group_bytes_def)

lemma embeds_v4_tail:
  assumes "embeds_v4 (ntop6_words src) (Some (b, l))" and "length src = 16"
  shows "groups_text (take (6 - l) (drop l (word16s src))) = (if l = 5 then ''ffff:'' else [])"
proof -
  from assms(1) consider "l = 6" | "l = 5" "ntop6_words src ! 5 = 0xffff"
    by (auto simp: embeds_v4_def)
  then show ?thesis
  proof cases
    case 2
    then have "word16s src ! 5 = 65535"
      by (simp add: ntop6_words_eq [symmetric])
    moreover have "take 1 (drop 5 (word16s src)) = [word16s src ! 5]"
      by (simp add: take_Suc_conv_app_nth hd_drop_conv_nth take_Suc)
    ultimately show ?thesis
      using 2 by (simp add: show_hex_ffff)
  qed simp
qed

lemma inet_ntop6_text:
  assumes "length src = 16"
  shows "inet_ntop6 src dst sz =
    (if length (text6 src) + 1 > 46 then None
     else if length (text6 src) + 1 > sz then Some (Inl ENOSPC)
     else map_option Inr (strcpy dst (text6 src)))"
proof (cases "ntop6_best (ntop6_words src)")
  case None
  have "concat (map (format_piece (ntop6_words src) None) [0..<8]) = groups_join (word16s src)"
    using pieces_prefix [of 8 "ntop6_words src" None] by (simp add: format_piece_def ntop6_words_eq)
  with None assms show ?thesis
    by (simp add: inet_ntop6_def text6_def Let_def IN6ADDRSZ_def INT16SZ_def ntop6_format_pieces
        embeds_v4_def del: upt_Suc)
next
  case (Some bl)
  obtain b l where bl: "bl = (b, l)"
    by force
  have run: "zero_run (ntop6_words src) (b, l)" "2 \<le> l"
    using ntop6_best_run Some bl by auto
  show ?thesis
  proof (cases "embeds_v4 (ntop6_words src) (Some (b, l))")
    case True
    moreover from True have "b + l \<noteq> 8"
      by (auto simp: embeds_v4_def)
    ultimately show ?thesis
      using assms Some bl
      by (simp add: inet_ntop6_def text6_def Let_def IN6ADDRSZ_def INT16SZ_def format_v4
          embeds_v4_tail del: upt_Suc)
  next
    case False
    with format_compressed [OF run _ False, of src] Some bl assms show ?thesis
      by (auto simp: inet_ntop6_def text6_def Let_def IN6ADDRSZ_def INT16SZ_def
          take_map [symmetric] drop_map [symmetric] ntop6_words_eq simp del: upt_Suc)
  qed
qed

end
