(* ===== verification/Inet6_Props.thy ===== *)
theory Inet6_Props
  imports Inet6_Laws
begin

text \<open>
  What \<^verbatim>\<open>inet_pton6\<close> does on the texts \<^verbatim>\<open>inet_ntop6\<close> writes, the interpretation of the interface
  \<open>addr_text\<close> on the two, and the properties of the IPv6 conversions.
\<close>

section \<open>Reading the text back\<close>

lemma skip_leading_text: "p \<noteq> [] \<Longrightarrow> hd p \<noteq> CHR '':'' \<Longrightarrow> skip_leading_colon (p @ r) = Some (p @ r)"
  by (cases p) (auto simp: skip_leading_colon_def split: char.splits bool.splits)

lemma hd_show_hex: "hd (show_hex n) \<noteq> CHR '':''"
proof -
  have "hd (show_hex n) \<in> set lower_digits"
    using show_hex_lower [of n] hd_in_set [OF show_hex_nonempty [of n]] by blast
  then show ?thesis
    by (auto simp: lower_digits_def)
qed

lemma skip_leading_groups:
  "skip_leading_colon (groups_text (w # P) @ r) = Some (groups_text (w # P) @ r)"
  using skip_leading_text [of "show_hex w"] hd_show_hex [of w] by simp

lemma skip_leading_join: "ws \<noteq> [] \<Longrightarrow> skip_leading_colon (groups_join ws) = Some (groups_join ws)"
proof (cases ws)
  case (Cons w vs)
  then show ?thesis
    using skip_leading_text [of "show_hex w"] hd_show_hex [of w]
    by (cases vs) (auto simp: groups_join_def intro: skip_leading_text [of "show_hex w" "[]", simplified])
qed simp

lemma skip_double: "skip_leading_colon (CHR '':'' # CHR '':'' # r) = Some (CHR '':'' # r)"
  by (simp add: skip_leading_colon_def)

text \<open>
  The three forms of the text: all eight groups; a run of zero groups replaced by two colons; and
  the IPv4-compatible and IPv4-mapped addresses, whose last four bytes are written in decimal.
\<close>

lemma word16s_embedded:
  assumes "zero_run (ntop6_words src) (0, l)" and "l \<le> 6" and "length src = 16"
  shows "src = replicate (2 * l) 0 @ groups_bytes (take (6 - l) (drop l (word16s src))) @ drop 12 src"
proof -
  let ?ns = "word16s src" and ?Q = "take (6 - l) (drop l (word16s src))"
  have "drop l ?ns = ?Q @ drop 6 ?ns"
    using append_take_drop_id [of "6 - l" "drop l ?ns"] assms(2) by simp
  then have ns: "?ns = replicate l 0 @ ?Q @ drop 6 ?ns"
    using word16s_zero_run [OF assms(1)] by simp
  have src: "src = replicate (2 * l) 0 @ groups_bytes ?Q @ groups_bytes (drop 6 ?ns)"
    using groups_bytes_word16s [OF assms(3)] arg_cong [OF ns, of groups_bytes]
    by (simp add: groups_bytes_zero)
  have "length (replicate (2 * l) 0 @ groups_bytes ?Q) = 12"
    using assms(2) by simp
  then have "drop 12 ((replicate (2 * l) 0 @ groups_bytes ?Q) @ groups_bytes (drop 6 ?ns)) =
      groups_bytes (drop 6 ?ns)"
    by (metis append_eq_conv_conj)
  then have "drop 12 src = groups_bytes (drop 6 ?ns)"
    using src by simp
  then show ?thesis
    using src by simp
qed

lemma text6_cases [consumes 1, case_names full run embedded]:
  assumes "length src = 16"
  obtains ns where "text6 src = groups_join ns" "length ns = 8" "\<forall>w\<in>set ns. w < 65536"
      "src = groups_bytes ns"
  | P Q m where "text6 src = groups_join P @ '':'' @ CHR '':'' # groups_join Q"
      "\<forall>w\<in>set P \<union> set Q. w < 65536" "2 * length P + 2 * length Q + m = 16" "4 \<le> m"
      "src = groups_bytes P @ replicate m 0 @ groups_bytes Q"
  | Q m bs where "text6 src = '':'' @ CHR '':'' # groups_text Q @ dotted bs" "length bs = 4"
      "\<forall>w\<in>set Q. w < 65536" "2 * length Q + m = 12" "10 \<le> m"
      "src = replicate m 0 @ groups_bytes Q @ bs"
proof (cases "ntop6_best (ntop6_words src)")
  case None
  then show ?thesis
    using that(1) [of "word16s src"] word16s_less groups_bytes_word16s [OF assms]
    by (simp add: text6_def)
next
  case (Some bl)
  obtain b l where bl: "bl = (b, l)"
    by force
  let ?ns = "word16s src"
  have run: "zero_run (ntop6_words src) (b, l)" and l: "2 \<le> l"
    using ntop6_best_run Some bl by auto
  then have le: "b + l \<le> 8"
    by (simp add: zero_run_def)
  show ?thesis
  proof (cases "embeds_v4 (ntop6_words src) (Some (b, l))")
    case True
    then have "b = 0" "l = 5 \<or> l = 6"
      by (auto simp: embeds_v4_def)
    moreover have "src = replicate (2 * l) 0 @ groups_bytes (take (6 - l) (drop l ?ns)) @ drop 12 src"
    proof (rule word16s_embedded [OF _ _ assms])
      show "zero_run (ntop6_words src) (0, l)"
        using run \<open>b = 0\<close> by simp
      show "l \<le> 6"
        using \<open>l = 5 \<or> l = 6\<close> by linarith
    qed
    moreover have "\<forall>w\<in>set (take (6 - l) (drop l ?ns)). w < 65536"
      using word16s_less by (meson in_set_dropD in_set_takeD)
    ultimately show ?thesis
      using that(3) [of "take (6 - l) (drop l ?ns)" "drop 12 src" "2 * l"] Some bl True assms
      by (auto simp: text6_def)
  next
    case False
    have "\<forall>w\<in>set (take b ?ns) \<union> set (drop (b + l) ?ns). w < 65536"
      using word16s_less by (meson UnE in_set_dropD in_set_takeD)
    moreover have "src = groups_bytes (take b ?ns) @ replicate (2 * l) 0 @ groups_bytes (drop (b + l) ?ns)"
      using arg_cong [OF word16s_zero_run [OF run], of groups_bytes] groups_bytes_word16s [OF assms]
      by (simp add: groups_bytes_zero)
    ultimately show ?thesis
      using that(2) [of "take b ?ns" "drop (b + l) ?ns" "2 * l"] Some bl False le l
      by (simp add: text6_def Let_def)
  qed
qed

lemma inet_pton6_reads:
  assumes "skip_leading_colon s = Some t" and "16 \<le> length dst" and "length src = 16"
    and "pton6_run junk t t False 0 (replicate 16 0) 0 None = Some (Some src)"
  shows "inet_pton6 junk s dst = Some (1, src @ drop 16 dst)"
  using assms by (simp add: inet_pton6_run memcpy_at_0)

lemma inet_pton6_text6:
  assumes "length src = 16" and "length junk = 4" and "16 \<le> length dst"
  shows "inet_pton6 junk (text6 src) dst = Some (1, src @ drop 16 dst)"
  using assms(1)
proof (cases rule: text6_cases)
  case (full ns)
  then have "skip_leading_colon (text6 src) = Some (groups_join ns)"
    using skip_leading_join [of ns] by force
  then show ?thesis
    using run_join_full [of ns junk] full assms by (intro inet_pton6_reads) auto
next
  case (run P Q m)
  have "skip_leading_colon (text6 src) = Some (groups_text P @ CHR '':'' # groups_join Q)"
  proof (cases P)
    case Nil
    then show ?thesis
      using run by (simp add: groups_join_def skip_double)
  next
    case (Cons w vs)
    then have "text6 src = groups_text (w # vs) @ CHR '':'' # groups_join Q"
      using run groups_text_join [of "w # vs"] by simp
    with Cons show ?thesis
      using skip_leading_groups by metis
  qed
  then show ?thesis
    using run_compressed [of P Q m junk] run assms by (intro inet_pton6_reads) auto
next
  case (embedded Q m bs)
  then have "skip_leading_colon (text6 src) = Some (CHR '':'' # groups_text Q @ dotted bs)"
    by (simp add: skip_double)
  then show ?thesis
    using run_dotted [of bs junk Q m] embedded assms by (intro inet_pton6_reads) auto
qed

section \<open>The size of the text\<close>

lemma length_show_hex: "w < 65536 \<Longrightarrow> length (show_hex w) \<le> 4"
  using show_base_length [of 16 w 4] by (simp add: show_hex_def)

lemma length_groups_text: "\<forall>w\<in>set ws. w < 65536 \<Longrightarrow> length (groups_text ws) \<le> 5 * length ws"
  using length_show_hex by (induction ws) (fastforce simp: groups_text_def)+

lemma length_groups_join:
  assumes "\<forall>w\<in>set ws. w < 65536"
  shows "length (groups_join ws) \<le> 5 * length ws - 1"
proof (cases "ws = []")
  case False
  then show ?thesis
    using length_groups_text [OF assms] groups_text_join [of ws] by simp
qed (simp add: groups_join_def)

lemma length_text6:
  assumes "length src = 16"
  shows "length (text6 src) \<le> 39"
  using assms
proof (cases rule: text6_cases)
  case (full ns)
  then show ?thesis
    using length_groups_join [of ns] by simp
next
  case (run P Q m)
  then show ?thesis
    using length_groups_join [of P] length_groups_join [of Q] by simp
next
  case (embedded Q m bs)
  then show ?thesis
    using length_groups_text [of Q] length_dotted4 [of bs] by simp
qed

lemma NUL_show_base: "CHR 0x00 \<notin> set (show_hex n)" "CHR 0x00 \<notin> set (show_dec n)"
  using show_hex_lower [of n] show_dec_lower [of n] by (auto simp: lower_digits_def)

lemma NUL_groups_text: "CHR 0x00 \<notin> set (groups_text ws)"
  by (induction ws) (auto simp: groups_text_def NUL_show_base)

lemma NUL_groups_join: "CHR 0x00 \<notin> set (groups_join ws)"
  using NUL_groups_text [of ws] groups_text_join [of ws]
  by (cases "ws = []") (auto simp: groups_join_def [of "[]"])

lemma NUL_text6:
  assumes "length src = 16"
  shows "CHR 0x00 \<notin> set (text6 src)"
  using assms
proof (cases rule: text6_cases)
  case (embedded Q m bs)
  then show ?thesis
    by (auto simp: NUL_groups_text nul_notin_dotted4)
qed (auto simp: NUL_groups_join)

lemma inet_ntop6_eq:
  assumes "length src = 16"
  shows "inet_ntop6 src dst sz =
    (if length (text6 src) + 1 > sz then Some (Inl ENOSPC) else map_option Inr (strcpy dst (text6 src)))"
  using assms length_text6 [of src] by (simp add: inet_ntop6_text)

interpretation v6: addr_text inet_ntop6 "inet_pton6 (take 4 (junk @ replicate 4 0))" 16 46
  for junk :: "u8 list"
proof
  fix a :: "u8 list" and sz buf
  assume "length a = 16" and "46 \<le> sz" and "sz \<le> length (buf :: string)"
  then show "\<exists>buf'. inet_ntop6 a buf sz = Some (Inr buf')"
    using length_text6 [of a] by (simp add: inet_ntop6_eq strcpy_def)
next
  fix a :: "u8 list" and buf sz buf' and dst :: "u8 list"
  assume a: "length a = 16" and "inet_ntop6 a buf sz = Some (Inr buf')" and "16 \<le> length dst"
  moreover from this have "cstr buf' = text6 a"
    using cstr_strcpy NUL_text6 by (auto simp: inet_ntop6_eq split: if_splits)
  ultimately show "inet_pton6 (take 4 (junk @ replicate 4 0)) (cstr buf') dst = Some (1, a @ drop 16 dst)"
    by (simp add: inet_pton6_text6)
qed

section \<open>The parser never leaves its arrays\<close>

text \<open>
  The invariant of the loop: \<^verbatim>\<open>tmp\<close> keeps its 16 bytes and \<^verbatim>\<open>colonp <= tp <= endp\<close>.
\<close>

definition pton6_ok :: "u8 list \<Rightarrow> nat \<Rightarrow> nat option \<Rightarrow> bool" where
  "pton6_ok tmp tp colonp \<longleftrightarrow>
     length tmp = IN6ADDRSZ \<and> tp \<le> IN6ADDRSZ \<and> (case colonp of Some c \<Rightarrow> c \<le> tp | None \<Rightarrow> True)"

lemma put16_ok:
  "pton6_ok tmp tp cp \<Longrightarrow> \<not> tp + INT16SZ > IN6ADDRSZ \<Longrightarrow>
    \<exists>tmp'. put16 tmp tp val = Some tmp' \<and> pton6_ok tmp' (tp + 2) cp"
  by (auto simp: put16_def pton6_ok_def IN6ADDRSZ_def INT16SZ_def split: option.splits)

lemma inet_pton4_into:
  assumes "length junk = 4" and "pton6_ok tmp tp cp" and "tp + 4 \<le> IN6ADDRSZ"
  shows "\<exists>rc dst. inet_pton4 junk s (drop tp tmp) = Some (rc, dst) \<and> pton6_ok (take tp tmp @ dst) (tp + 4) cp"
  using assms
  by (auto simp: inet_pton4_eq memcpy_at_def pton6_ok_def dotted_quad_length IN6ADDRSZ_def
      split: option.splits)

lemma inet_pton6_loop_ok:
  assumes "length junk = 4" and "pton6_ok tmp tp cp"
  shows "inet_pton6_loop junk s ct saw val tmp tp cp \<noteq> None
    \<and> (\<forall>saw' val' tmp' tp' cp'. inet_pton6_loop junk s ct saw val tmp tp cp =
         Some (Some (saw', val', tmp', tp', cp')) \<longrightarrow> pton6_ok tmp' tp' cp')"
  using assms
proof (induction junk s ct saw val tmp tp cp rule: inet_pton6_loop.induct)
  case (2 junk ch s ct saw val tmp tp cp)
  have start: "pton6_ok tmp tp (Some tp)"
    using 2(5) by (simp add: pton6_ok_def)
  show ?case
  proof (cases "xdigit ch")
    case (Some k)
    then show ?thesis
      using 2(3) [OF Some refl] 2(4,5) by (auto simp: Let_def)
  next
    case None
    consider "ch = CHR '':''" "\<not> saw" | "ch = CHR '':''" "saw" "tp + INT16SZ > IN6ADDRSZ"
      | "ch = CHR '':''" "saw" "\<not> tp + INT16SZ > IN6ADDRSZ" | "ch \<noteq> CHR '':''"
      by blast
    then show ?thesis
    proof cases
      case 1
      then show ?thesis
        using 2(1) [OF None 1] 2(4) start None by auto
    next
      case 3
      obtain tmp' where "put16 tmp tp val = Some tmp'" "pton6_ok tmp' (tp + 2) cp"
        using put16_ok [OF 2(5) 3(3)] by blast
      then show ?thesis
        using 2(2) [of tmp'] 2(4) 3 None by auto
    next
      case 4
      show ?thesis
        using inet_pton4_into [OF 2(4,5), of ct] 4 None by (auto split: option.splits)
    qed (use None in simp)
  qed
qed simp

lemma length_shift_to [simp]: "length (shift_to e c n tmp) = length tmp"
proof -
  have "length (fold (\<lambda>i tmp. tmp[f i := h i tmp, g i := 0]) is tmp) = length tmp"
    for f g :: "nat \<Rightarrow> nat" and h :: "nat \<Rightarrow> u8 list \<Rightarrow> u8" and "is" and tmp
    by (induction "is" arbitrary: tmp) simp_all
  then show ?thesis
    by (simp add: shift_to_def)
qed

lemma inet_pton6_shift_ok:
  "pton6_ok tmp tp (Some c) \<Longrightarrow> \<exists>tmp'. inet_pton6_shift c (tp - c) tmp = Some tmp' \<and> length tmp' = 16"
  by (simp add: pton6_ok_def IN6ADDRSZ_def inet_pton6_shift_to)

lemma inet_pton6_end_ok:
  assumes "pton6_ok tmp tp cp"
  shows "\<exists>r. (case (case cp of
                   Some c \<Rightarrow> map_option (\<lambda>tmp. (tmp, IN6ADDRSZ)) (inet_pton6_shift c (tp - c) tmp)
                 | None \<Rightarrow> Some (tmp, tp)) of
             None \<Rightarrow> None
           | Some (tmp, tp) \<Rightarrow> Some (if tp \<noteq> IN6ADDRSZ then None else Some tmp)) = Some r
         \<and> (\<forall>tmp'. r = Some tmp' \<longrightarrow> length tmp' = 16)"
proof (cases cp)
  case (Some c)
  then show ?thesis
    using inet_pton6_shift_ok [of tmp tp c] assms by auto
qed (use assms in \<open>simp add: pton6_ok_def IN6ADDRSZ_def\<close>)

lemma inet_pton6_finish_ok:
  assumes "pton6_ok tmp tp cp"
  shows "\<exists>r. inet_pton6_finish saw val tmp tp cp = Some r \<and> (\<forall>tmp'. r = Some tmp' \<longrightarrow> length tmp' = 16)"
proof (cases "saw \<and> \<not> tp + INT16SZ > IN6ADDRSZ")
  case True
  then obtain tmp' where "put16 tmp tp val = Some tmp'" "pton6_ok tmp' (tp + 2) cp"
    using put16_ok assms by blast
  with True show ?thesis
    using inet_pton6_end_ok [of tmp' "tp + 2" cp] by (simp add: inet_pton6_finish_def del: add_2_eq_Suc')
next
  case False
  with assms show ?thesis
    using inet_pton6_end_ok [of tmp tp cp] by (auto simp: inet_pton6_finish_def)
qed

lemma pton6_ok_start: "pton6_ok (replicate IN6ADDRSZ 0) 0 None"
  by (simp add: pton6_ok_def)

lemma shift_full:
  assumes "length P + length B = 16"
  shows "inet_pton6_shift (length P) (length B) (P @ B) = Some (P @ replicate (length B) 0)"
proof -
  have "shift_to (length P + length Q) (length P) (length Q) (P @ Q @ R) = P @ replicate (length Q) 0 @ R"
    for Q R
  proof (induction Q arbitrary: R rule: rev_induct)
    case (snoc x Q)
    then show ?case
      using snoc [of "0 # R"] by (simp add: shift_to_Suc list_update_append replicate_append_same [symmetric])
  qed (simp add: shift_to_def)
  from this [of B "[]"] show ?thesis
    using assms by (simp add: inet_pton6_shift_to)
qed


lemma run_superfluous:
  assumes "\<forall>w\<in>set P \<union> set Q. w < 65536" and "length P + length Q = 8" and "Q \<noteq> []"
  shows "pton6_run junk (groups_text P @ CHR '':'' # groups_join Q) ct False 0 (replicate 16 0) 0 None =
    Some (Some (groups_bytes P @ replicate (2 * length Q) 0))"
proof -
  obtain vs w where Q: "Q = vs @ [w]"
    using assms(3) by (cases Q rule: rev_cases) auto
  have fill: "16 - 2 * length P = 2 * length Q"
    using assms(2) by simp
  have "inet_pton6_loop junk (groups_text P @ CHR '':'' # groups_join Q) ct False 0 (replicate 16 0) 0 None
    = inet_pton6_loop junk (groups_join Q) (groups_join Q) False 0
        (groups_bytes P @ replicate (2 * length Q) 0) (length (groups_bytes P)) (Some (length (groups_bytes P)))"
    using assms pton6_groups [of P "[]" 16 junk "CHR '':'' # groups_join Q" ct None]
    by (simp add: pton6_double_colon fill)
  also have "\<dots> = Some (Some (True, of_nat w, (groups_bytes P @ groups_bytes vs) @ replicate 2 0,
        length (groups_bytes P @ groups_bytes vs), Some (length (groups_bytes P))))"
    using assms Q pton6_groups [of vs "groups_bytes P" "2 * length Q" junk "show_hex w"] pton6_hex [of w junk "[]"]
    by (simp add: groups_join_snoc)
  finally show ?thesis
    using assms Q put16_append [of w "replicate 2 0" "groups_bytes P @ groups_bytes vs"]
      shift_full [of "groups_bytes P" "groups_bytes Q"]
    by (simp add: pton6_run_def inet_pton6_finish_def IN6ADDRSZ_def INT16SZ_def)
qed

lemma run_trailing_colon:
  assumes "\<forall>w\<in>set ws. w < 65536" and "length ws = 8"
  shows "pton6_run junk (groups_text ws) ct False 0 (replicate 16 0) 0 None = Some (Some (groups_bytes ws))"
  using assms pton6_groups [of ws "[]" 16 junk "[]" ct None]
  by (simp add: pton6_run_def inet_pton6_finish_def IN6ADDRSZ_def)

section \<open>Properties\<close>

text \<open>
  (C5) Every IPv6 address survives \<^verbatim>\<open>inet_ntop6\<close> followed by \<^verbatim>\<open>inet_pton6\<close>: with a buffer of
  \<^verbatim>\<open>INET6_ADDRSTRLEN\<close> = 46 bytes the first always succeeds, and the second reads exactly the 16
  bytes back, whichever of the forms (compressed, IPv4-compatible, IPv4-mapped, full) was written.
\<close>

theorem inet6_round_trip:
  assumes "length a = 16" and "46 \<le> length buf"
  shows "\<exists>buf'. inet_ntop6 a buf (length buf) = Some (Inr buf')
    \<and> inet_pton6 (take 4 (junk @ replicate 4 0)) (cstr buf') (replicate 16 0) = Some (1, a)"
  using assms by (rule v6.round_trip)

theorem inet6_round_trip_witness:
  "\<exists>buf'. inet_ntop6 (replicate 15 0 @ [1]) (replicate 46 CHR ''x'') 46 = Some (Inr buf')
    \<and> inet_pton6 [7, 7, 7, 7] (cstr buf') (replicate 16 0) = Some (1, replicate 15 0 @ [1])"
  using inet6_round_trip [of "replicate 15 0 @ [1]" "replicate 46 CHR ''x''" "[7, 7, 7, 7]"]
  by simp

text \<open>
  (C25) \<^verbatim>\<open>inet_ntop6\<close> never overruns its local \<^verbatim>\<open>tmp\<close> nor the caller's buffer: for every address
  there is one text of at most 39 characters; a \<^verbatim>\<open>size\<close> too small for it and its NUL gives
  \<^verbatim>\<open>ENOSPC\<close>, every other \<^verbatim>\<open>size\<close> gives the text.
\<close>

theorem inet_ntop6_bounds:
  assumes "length src = 16"
  shows "\<exists>t. length t \<le> 39 \<and> CHR 0x00 \<notin> set t \<and>
    (\<forall>dst. inet_ntop6 src dst (length dst) =
       (if length dst < length t + 1 then Some (Inl ENOSPC)
        else Some (Inr (t @ CHR 0x00 # drop (length t + 1) dst))))"
  using length_text6 [OF assms] NUL_text6 [OF assms]
  by (intro exI [of _ "text6 src"]) (auto simp: inet_ntop6_eq [OF assms] strcpy_def)

theorem inet_ntop6_bounds_witness:
  "\<exists>t. length t \<le> 39 \<and> CHR 0x00 \<notin> set t \<and>
    (\<forall>dst. inet_ntop6 (replicate 16 255) dst (length dst) =
       (if length dst < length t + 1 then Some (Inl ENOSPC)
        else Some (Inr (t @ CHR 0x00 # drop (length t + 1) dst))))"
  using inet_ntop6_bounds [of "replicate 16 255"] by simp

lemma inet_pton6_total:
  assumes "length junk = 4" and "16 \<le> length dst"
  shows "inet_pton6 junk s dst = Some (0, dst)
    \<or> (\<exists>a. length a = 16 \<and> inet_pton6 junk s dst = Some (1, a @ drop 16 dst))"
proof (cases "skip_leading_colon s")
  case (Some t)
  show ?thesis
  proof (cases "inet_pton6_loop junk t t False 0 (replicate IN6ADDRSZ 0) 0 None")
    case None
    then show ?thesis
      using inet_pton6_loop_ok [OF assms(1) pton6_ok_start] by blast
  next
    case loop: (Some r)
    show ?thesis
    proof (cases r)
      case None
      with loop Some show ?thesis
        by (simp add: inet_pton6_def)
    next
      case state: (Some st)
      obtain saw val tmp tp cp where st: "st = (saw, val, tmp, tp, cp)"
        by (metis surj_pair)
      then have "pton6_ok tmp tp cp"
        using inet_pton6_loop_ok [OF assms(1) pton6_ok_start] loop state by blast
      then obtain r' where "inet_pton6_finish saw val tmp tp cp = Some r'"
          "\<forall>tmp'. r' = Some tmp' \<longrightarrow> length tmp' = 16"
        using inet_pton6_finish_ok by blast
      then show ?thesis
        using loop state st Some assms(2)
        by (cases r') (auto simp: inet_pton6_def memcpy_at_0)
    qed
  qed
qed (simp add: inet_pton6_def)

text \<open>
  (C26) \<^verbatim>\<open>inet_pton6\<close> on any string whatever stays inside its arrays and touches the caller's
  buffer only on success: it returns 0 with \<^verbatim>\<open>dst\<close> unchanged, or 1 with exactly the 16 bytes of
  an address written.
\<close>

theorem inet_pton6_safe:
  assumes "length junk = 4" and "16 \<le> length dst"
  shows "inet_pton6 junk s dst = Some (0, dst)
    \<or> (\<exists>a. length a = 16 \<and> inet_pton6 junk s dst = Some (1, a @ drop 16 dst))"
  using assms by (rule inet_pton6_total)

theorem inet_pton6_safe_witness:
  "inet_pton6 [9, 9, 9, 9] ''1:2:::'' (replicate 18 5) = Some (0, replicate 18 5)
   \<or> (\<exists>a. length a = 16 \<and> inet_pton6 [9, 9, 9, 9] ''1:2:::'' (replicate 18 5) = Some (1, a @ replicate 2 5))"
  using inet_pton6_safe [of "[9, 9, 9, 9]" "replicate 18 5" "''1:2:::''"]
  by simp

text \<open>
  Two deviations of \<^verbatim>\<open>inet_pton6\<close> from the addresses its comment speaks of: with all eight
  groups present, a superfluous \<^verbatim>\<open>::\<close> is not ignored but clears every group after it; and a
  colon after the eighth group is accepted.
\<close>

theorem inet_pton6_deviations:
  assumes "\<forall>w\<in>set (P @ Q). w < 65536" and "length (P @ Q) = 8" and "P \<noteq> []" and "Q \<noteq> []"
    and "16 \<le> length dst"
  shows "inet_pton6 junk (groups_text P @ CHR '':'' # groups_join Q) dst =
      Some (1, groups_bytes P @ replicate (2 * length Q) 0 @ drop 16 dst)
    \<and> inet_pton6 junk (groups_text (P @ Q)) dst = Some (1, groups_bytes (P @ Q) @ drop 16 dst)"
proof -
  obtain w P' where P: "P = w # P'"
    using assms(3) by (cases P) auto
  have "skip_leading_colon (groups_text P @ r) = Some (groups_text P @ r)" for r
    unfolding P by (rule skip_leading_groups)
  moreover have "groups_text (P @ Q) = groups_text P @ groups_text Q"
    by (simp add: groups_text_def)
  ultimately show ?thesis
    using run_superfluous [of P Q junk] run_trailing_colon [of "P @ Q" junk] assms
      inet_pton6_reads [of "groups_text P @ CHR '':'' # groups_join Q" _ dst "groups_bytes P @ replicate (2 * length Q) 0" junk]
      inet_pton6_reads [of "groups_text (P @ Q)" _ dst "groups_bytes (P @ Q)" junk]
    by (simp add: ball_Un)
qed

theorem inet_pton6_deviations_witness:
  "inet_pton6 [9, 9, 9, 9] ''1::2:3:4:5:6:7:8'' (replicate 16 5) = Some (1, [0, 1] @ replicate 14 0)
   \<and> inet_pton6 [9, 9, 9, 9] ''1:2:3:4:5:6:7:8:'' (replicate 16 5) =
       Some (1, [0, 1, 0, 2, 0, 3, 0, 4, 0, 5, 0, 6, 0, 7, 0, 8])"
  using inet_pton6_deviations [of "[1]" "[2, 3, 4, 5, 6, 7, 8]" "replicate 16 5" "[9, 9, 9, 9]"]
  by (simp add: groups_join_def groups_text_def groups_bytes_def group_bytes_def show_hex_def
      show_base_small lower_digits_def)

end
