(* ===== verification/Bytes.thy ===== *)
theory Bytes
  imports Prelude
begin

text \<open>
  Integers in memory: the bytes of a \<^verbatim>\<open>k\<close>-byte integer in little-endian, big-endian (network) and
  host order. The order of the host is the argument \<open>le\<close>.
\<close>

fun bytes_le :: "nat \<Rightarrow> nat \<Rightarrow> u8 list" where
  "bytes_le 0 n = []"
| "bytes_le (Suc k) n = of_nat (n mod 256) # bytes_le k (n div 256)"

fun val_le :: "u8 list \<Rightarrow> nat" where
  "val_le [] = 0"
| "val_le (b # bs) = unat b + 256 * val_le bs"

definition host_bytes :: "bool \<Rightarrow> nat \<Rightarrow> nat \<Rightarrow> u8 list" where
  "host_bytes le k n = (if le then bytes_le k n else rev (bytes_le k n))"

definition host_val :: "bool \<Rightarrow> u8 list \<Rightarrow> nat" where
  "host_val le bs = val_le (if le then bs else rev bs)"

text \<open>\<^verbatim>\<open>htons\<close> and \<^verbatim>\<open>htonl\<close> give network order, that of a big-endian host.\<close>

abbreviation net_bytes :: "nat \<Rightarrow> nat \<Rightarrow> u8 list" where
  "net_bytes \<equiv> host_bytes False"

abbreviation net_val :: "u8 list \<Rightarrow> nat" where
  "net_val \<equiv> host_val False"

lemma length_bytes_le [simp]: "length (bytes_le k n) = k"
  by (induction k arbitrary: n) simp_all

lemma length_host_bytes [simp]: "length (host_bytes le k n) = k"
  by (simp add: host_bytes_def)

lemma val_bytes_le: "val_le (bytes_le k n) = n mod 256 ^ k"
proof (induction k arbitrary: n)
  case (Suc k)
  have "unat (of_nat (n mod 256) :: u8) = n mod 256"
    by (simp add: unat_of_nat take_bit_nat_eq_self)
  then show ?case
    using Suc [of "n div 256"] mod_mult2_eq [of n 256 "256 ^ k"] by simp
qed simp

lemma digit_less: "x < 256 \<Longrightarrow> v < p \<Longrightarrow> x + 256 * v < 256 * (p :: nat)"
  by linarith

lemma val_le_less: "val_le bs < 256 ^ length bs"
  by (induction bs) (simp_all add: digit_less del: power_Suc add: power_Suc)

lemma bytes_val_le: "bytes_le (length bs) (val_le bs) = bs"
proof (induction bs)
  case (Cons b bs)
  have "(unat b + 256 * val_le bs) mod 256 = unat b" "(unat b + 256 * val_le bs) div 256 = val_le bs"
    using mod_less [OF unat_u8_less] div_less [OF unat_u8_less] by simp_all
  with Cons show ?case
    by simp
qed simp

lemma host_val_bytes [wire_simps]: "host_val le (host_bytes le k n) = n mod 256 ^ k"
  by (simp add: host_val_def host_bytes_def val_bytes_le)

lemma host_bytes_val: "host_bytes le (length bs) (host_val le bs) = bs"
  using bytes_val_le [of bs] bytes_val_le [of "rev bs"] by (auto simp: host_val_def host_bytes_def)

lemma host_val_less: "host_val le bs < 256 ^ length bs"
  using val_le_less [of bs] val_le_less [of "rev bs"] by (auto simp: host_val_def)

lemma host_val_swap:
  "host_val True [a, b] = unat a + 256 * unat b" "host_val False [a, b] = 256 * unat a + unat b"
  by (simp_all add: host_val_def)

lemma host_bytes_inj: "n < 256 ^ k \<Longrightarrow> m < 256 ^ k \<Longrightarrow> host_bytes le k n = host_bytes le k m \<Longrightarrow> n = m"
  by (metis host_val_bytes mod_less)

text \<open>Reading \<open>n\<close> bytes at an offset of an object; \<^term>\<open>None\<close> outside it.\<close>

definition bytes_at :: "u8 list \<Rightarrow> nat \<Rightarrow> nat \<Rightarrow> u8 list option" where
  "bytes_at m at n = (if at + n \<le> length m then Some (take n (drop at m)) else None)"

definition u8_at :: "u8 list \<Rightarrow> nat \<Rightarrow> nat option" where
  "u8_at m at = map_option (host_val True) (bytes_at m at 1)"

definition host_at :: "bool \<Rightarrow> nat \<Rightarrow> u8 list \<Rightarrow> nat \<Rightarrow> nat option" where
  "host_at le k m at = map_option (host_val le) (bytes_at m at k)"

lemma bytes_at_Some: "at + n \<le> length m \<Longrightarrow> bytes_at m at n = Some (take n (drop at m))"
  by (simp add: bytes_at_def)

lemma u8_at_eq: "u8_at m at = (if at < length m then Some (unat (m ! at)) else None)"
proof (cases "at < length m")
  case True
  then have "take (Suc 0) (drop at m) = [m ! at]"
    by (simp add: take_Suc_conv_app_nth hd_drop_conv_nth take_Suc)
  with True show ?thesis
    by (simp add: u8_at_def bytes_at_def host_val_def)
qed (simp add: u8_at_def bytes_at_def)

lemma host_at_None: "host_at le k m at = None \<longleftrightarrow> length m < at + k"
  by (simp add: host_at_def bytes_at_def)

lemma host_at_append:
  "host_at le k (pre @ host_bytes le k n @ suf) (length pre) = Some (n mod 256 ^ k)"
  by (simp add: host_at_def bytes_at_def host_val_bytes)

end
