(* ===== verification/Checksum.thy ===== *)
theory Checksum
  imports Bytes
begin

unbundle bit_operations_syntax

text \<open>
  The Internet checksum, \<^verbatim>\<open>in_cksum\<close> of \<^verbatim>\<open>libfree/in_cksum.c\<close>: the translation, its equivalence with
  the one's-complement sum of RFC 1071, and the laws of the interface \<open>checksum\<close> that the packet
  builders rely on.
\<close>

section \<open>The code\<close>

text \<open>
  The \<^verbatim>\<open>while\<close> loop. \<open>w\<close> is the memory from the pointer on, \<^verbatim>\<open>sum\<close> a 32-bit accumulator that
  wraps; reading a word outside the memory is \<^term>\<open>None\<close>.
\<close>

fun in_cksum_loop :: "bool \<Rightarrow> u8 list \<Rightarrow> int \<Rightarrow> u32 \<Rightarrow> (u8 list \<times> int \<times> u32) option" where
  "in_cksum_loop le (a # b # w) nleft csum =
     (if nleft > 1 then in_cksum_loop le w (nleft - 2) (csum + of_nat (host_val le [a, b]))
      else Some (a # b # w, nleft, csum))"
| "in_cksum_loop le w nleft csum = (if nleft > 1 then None else Some (w, nleft, csum))"

text \<open>The two additions that fold the carries back, and the complement cut to 16 bits.\<close>

definition in_cksum_fold :: "u32 \<Rightarrow> u16" where
  "in_cksum_fold csum =
     (let csum = drop_bit 16 csum + (csum AND 0xffff);
          csum = csum + drop_bit 16 csum
      in ucast (NOT csum))"

definition in_cksum :: "bool \<Rightarrow> u8 list \<Rightarrow> int \<Rightarrow> u16 option" where
  "in_cksum le addr len =
     (case in_cksum_loop le addr len 0 of
        None \<Rightarrow> None
      | Some (w, nleft, csum) \<Rightarrow>
          (if nleft = 1 then
             (case w of
                [] \<Rightarrow> None
              | c # _ \<Rightarrow> Some (in_cksum_fold (csum + of_nat (host_val le [c, 0]))))
           else Some (in_cksum_fold csum)))"

section \<open>The one's-complement sum\<close>

text \<open>The sum of the 16-bit words of a byte string, an odd last byte padded with a zero.\<close>

fun word_sum :: "bool \<Rightarrow> u8 list \<Rightarrow> nat" where
  "word_sum le (a # b # w) = host_val le [a, b] + word_sum le w"
| "word_sum le [c] = host_val le [c, 0]"
| "word_sum le [] = 0"

text \<open>The representative of a sum in 16-bit one's-complement arithmetic.\<close>

definition ones :: "nat \<Rightarrow> nat" where
  "ones s = (if s = 0 then 0 else (s - 1) mod 65535 + 1)"

lemma ones_le: "ones s \<le> 65535"
  using mod_less_divisor [of 65535 "s - 1"] unfolding ones_def by (simp del: mod_less_divisor)

lemma ones_small: "s \<le> 65535 \<Longrightarrow> ones s = s"
  unfolding ones_def by (cases s) simp_all

lemma ones_pos: "0 < ones s \<longleftrightarrow> 0 < s"
  by (simp add: ones_def)

lemma ones_mod: "ones s mod 65535 = s mod 65535"
  unfolding ones_def by (cases s) (simp_all add: mod_Suc_eq)

lemma mod_65535_eq:
  assumes "x mod 65535 = y mod 65535" and "x \<le> 65535" and "y \<le> 65535" and "0 < x \<longleftrightarrow> 0 < (y :: nat)"
  shows "x = y"
proof -
  have z: "v mod 65535 = (if v = 65535 then 0 else v)" if "v \<le> 65535" for v :: nat
    using that by (cases "v = 65535") simp_all
  show ?thesis
    using assms(1,4) z [OF assms(2)] z [OF assms(3)] by (auto split: if_splits)
qed

lemma ones_cong: "s mod 65535 = t mod 65535 \<Longrightarrow> (0 < s \<longleftrightarrow> 0 < t) \<Longrightarrow> ones s = ones t"
  by (rule mod_65535_eq) (simp_all only: ones_mod ones_le ones_pos)

lemma ones_unique:
  assumes "r \<le> 65535" and "r mod 65535 = s mod 65535" and "0 < r \<longleftrightarrow> 0 < s"
  shows "ones s = r"
  using ones_cong [of s r] ones_small [of r] assms by simp

section \<open>The code computes it\<close>

lemma fold_ones:
  assumes "hi \<le> 65535" and "lo \<le> 65535"
  shows "ones (hi * 65536 + lo) = (hi + lo + (hi + lo) div 65536) mod 65536"
proof (rule ones_unique)
  have n: "(hi * 65536 + lo) mod 65535 = (hi + lo) mod 65535"
  proof -
    have "hi * 65536 + lo = hi + lo + hi * 65535"
      by linarith
    then show ?thesis
      by (simp only: mod_mult_self1)
  qed
  consider "hi + lo \<le> 65535" | "65536 \<le> hi + lo" "hi + lo \<le> 131070"
    using assms by linarith
  then have "(hi + lo + (hi + lo) div 65536) mod 65536 = (if hi + lo \<le> 65535 then hi + lo else hi + lo - 65535)"
  proof cases
    case 2
    then have "(hi + lo) div 65536 = 1" and "(hi + lo + 1) mod 65536 = hi + lo + 1 - 65536"
      by (auto intro!: div_nat_eqI simp: le_mod_geq)
    with 2 show ?thesis by simp
  qed simp
  note r = this
  show "(hi + lo + (hi + lo) div 65536) mod 65536 \<le> 65535"
    using mod_less_divisor [of 65536] by (simp add: less_Suc_eq_le [symmetric])
  show "(hi + lo + (hi + lo) div 65536) mod 65536 mod 65535 = (hi * 65536 + lo) mod 65535"
    unfolding r n by (simp add: le_mod_geq)
  show "0 < (hi + lo + (hi + lo) div 65536) mod 65536 \<longleftrightarrow> 0 < hi * 65536 + lo"
    unfolding r by auto
qed

lemma unat_not_u16: "unat (NOT (x :: u16)) = 65535 - unat x"
proof -
  have "NOT x = -1 - x"
    by (simp add: not_eq_complement)
  moreover have "unat (-1 - x) = unat (-1 :: u16) - unat x"
    by (rule unat_sub) (rule word_order.extremum)
  moreover have "unat (-1 :: u16) = 65535"
    by (simp add: unsigned_minus_1_eq_mask mask_eq_exp_minus_1)
  ultimately show ?thesis
    by simp
qed

lemma unat_eq_of_nat_u16: "unat (x :: u16) = n \<Longrightarrow> x = of_nat n"
  by auto

lemma in_cksum_fold_ones: "unat (in_cksum_fold s) = 65535 - ones (unat s)"
proof -
  let ?n = "unat s" and ?hi = "unat s div 65536" and ?lo = "unat s mod 65536"
  have n: "?n < 4294967296"
    using unsigned_less [of s, where ?'a = nat] by simp
  have hi: "unat (drop_bit 16 s) = ?hi"
    by (subst unat_drop_bit_eq) (simp add: drop_bit_eq_div)
  have lo: "unat (s AND 0xffff) = ?lo"
    using take_bit_eq_mask [of 16 "unat s"]
    by (simp add: unsigned_and_eq take_bit_eq_mod mask_eq_exp_minus_1)
  define t where "t = drop_bit 16 s + (s AND 0xffff)"
  have t: "unat t = ?hi + ?lo"
    unfolding t_def using n by (subst unat_add_lem [THEN iffD1]) (simp_all add: hi lo)
  then have t_hi: "unat (drop_bit 16 t) = (?hi + ?lo) div 65536"
    by (subst unat_drop_bit_eq) (simp add: drop_bit_eq_div)
  define u where "u = t + drop_bit 16 t"
  have bound: "?hi \<le> 65535" "?lo \<le> 65535"
    using n by auto
  have u: "unat u = ?hi + ?lo + (?hi + ?lo) div 65536"
    unfolding u_def using bound by (subst unat_add_lem [THEN iffD1]) (simp_all add: t t_hi)
  have "in_cksum_fold s = ucast (NOT u)"
    by (simp add: in_cksum_fold_def u_def t_def Let_def)
  also have "\<dots> = NOT (ucast u)"
    by (rule bit_word_eqI) (simp add: bit_simps)
  finally have "in_cksum_fold s = NOT (ucast u)" .
  moreover have "unat (ucast u :: u16) = unat u mod 65536"
    by (simp add: unsigned_ucast_eq take_bit_eq_mod)
  moreover have "unat u mod 65536 = ones ?n"
    by (simp only: u fold_ones [OF bound, symmetric] mod_mult_div_eq div_mult_mod_eq)
  ultimately show ?thesis
    by (simp add: unat_not_u16)
qed

lemma host_val_le: "host_val le [a, b] \<le> 65535"
  using host_val_less [of le "[a, b]"] by simp

lemma word_sum_le: "word_sum le bs \<le> 65535 * ((length bs + 1) div 2)"
  by (induction le bs rule: word_sum.induct) (use host_val_le in \<open>auto simp: add_mono\<close>)

lemma in_cksum_loop_sum:
  assumes "length bs = n"
  shows "\<exists>w nleft s. in_cksum_loop le (bs @ suf) (int n) acc = Some (w, nleft, s) \<and>
    (if nleft = 1 then \<exists>c v. w = c # v \<and> s + of_nat (host_val le [c, 0]) = acc + of_nat (word_sum le bs)
     else s = acc + of_nat (word_sum le bs))"
  using assms
proof (induction le bs arbitrary: acc n rule: word_sum.induct)
  case (1 le a b w)
  have "in_cksum_loop le ((a # b # w) @ suf) (int n) acc =
      in_cksum_loop le (w @ suf) (int (length w)) (acc + of_nat (host_val le [a, b]))"
    using 1(2) by auto
  then show ?case
    using 1(1) [OF refl, of "acc + of_nat (host_val le [a, b])"] by (simp only: word_sum.simps of_nat_add add.assoc)
next
  case (2 le c)
  then show ?case
    by (cases suf) auto
next
  case (3 le)
  then show ?case
    by (cases "(le, suf, 0::int, acc)" rule: in_cksum_loop.cases) auto
qed

text \<open>
  Up to 131074 bytes the 32-bit accumulator does not wrap, and the result is the complement of
  the one's-complement sum.
\<close>

lemma in_cksum_ones:
  assumes "length bs \<le> 131074"
  shows "in_cksum le (bs @ suf) (int (length bs)) = Some (of_nat (65535 - ones (word_sum le bs)))"
proof -
  have "(length bs + 1) div 2 \<le> 65537"
    using div_le_mono [of "length bs + 1" 131075 2] assms by simp
  then have "65535 * ((length bs + 1) div 2) \<le> 65535 * 65537"
    by (rule mult_le_mono2)
  then have "word_sum le bs < 2 ^ 32"
    using word_sum_le [of le bs] by (simp only: power_numeral) simp
  then have "unat (of_nat (word_sum le bs) :: u32) = word_sum le bs"
    by (simp add: unat_of_nat)
  then have fold: "in_cksum_fold (of_nat (word_sum le bs)) = of_nat (65535 - ones (word_sum le bs))"
    by (intro unat_eq_of_nat_u16) (simp only: in_cksum_fold_ones)
  obtain w nleft s where "in_cksum_loop le (bs @ suf) (int (length bs)) 0 = Some (w, nleft, s)"
    "if nleft = 1 then \<exists>c v. w = c # v \<and> s + of_nat (host_val le [c, 0]) = of_nat (word_sum le bs)
     else s = of_nat (word_sum le bs)"
    using in_cksum_loop_sum [OF refl, of le bs suf 0] unfolding add_0_left by blast
  then show ?thesis
    using fold by (auto simp: in_cksum_def split: if_splits)
qed

section \<open>What a checksum field relies on\<close>

text \<open>
  The interface: a checksum function and the way its result is stored in a two-byte field that
  was zero when the sum was taken.
\<close>

locale cksum_field =
  fixes ck :: "u8 list \<Rightarrow> u16 option"
    and put :: "u16 \<Rightarrow> u8 list"
    and maxlen :: nat
  assumes ck_total: "length m \<le> maxlen \<Longrightarrow> \<exists>c. ck m = Some c"
    and put_length: "length (put c) = 2"
    and ck_put: "even (length pre) \<Longrightarrow> length (pre @ [0, 0] @ suf) \<le> maxlen \<Longrightarrow>
      ck (pre @ [0, 0] @ suf) = Some c \<Longrightarrow> ck (pre @ put c @ suf) = Some 0"
    and ck_put_ffff: "even (length pre) \<Longrightarrow> length (pre @ [0, 0] @ suf) \<le> maxlen \<Longrightarrow>
      ck (pre @ [0, 0] @ suf) = Some 0 \<Longrightarrow> ck (pre @ put 0xffff @ suf) = Some 0"
begin

text \<open>Filling the field always succeeds and gives a packet that verifies.\<close>

lemma seal:
  assumes "even (length pre)" and "length pre + 2 + length suf \<le> maxlen"
  shows "\<exists>c. ck (pre @ [0, 0] @ suf) = Some c \<and> ck (pre @ put c @ suf) = Some 0"
proof -
  have len: "length (pre @ [0, 0] @ suf) \<le> maxlen"
    using assms(2) by simp
  then obtain c where "ck (pre @ [0, 0] @ suf) = Some c"
    using ck_total by blast
  then show ?thesis
    using ck_put [OF assms(1) len] by blast
qed

text \<open>The same where a zero checksum is sent as all ones, as UDP does.\<close>

lemma seal_nonzero:
  assumes "even (length pre)" and "length pre + 2 + length suf \<le> maxlen"
  shows "\<exists>c. ck (pre @ [0, 0] @ suf) = Some c \<and> ck (pre @ put (if c = 0 then 0xffff else c) @ suf) = Some 0"
proof -
  have len: "length (pre @ [0, 0] @ suf) \<le> maxlen"
    using assms(2) by simp
  then obtain c where c: "ck (pre @ [0, 0] @ suf) = Some c"
    using ck_total by blast
  show ?thesis
    using c ck_put [OF assms(1) len] ck_put_ffff [OF assms(1) len] by (cases "c = 0") simp_all
qed

end

text \<open>The laws hold for \<^const>\<open>in_cksum\<close> on hosts of either byte order.\<close>

definition put_cksum :: "bool \<Rightarrow> u16 \<Rightarrow> u8 list" where
  "put_cksum le c = host_bytes le 2 (unat c)"

lemma word_sum_append: "even (length pre) \<Longrightarrow> word_sum le (pre @ suf) = word_sum le pre + word_sum le suf"
  by (induction le pre rule: word_sum.induct) auto

lemma length2_cases:
  assumes "length xs = 2"
  obtains a b where "xs = [a, b]"
  using assms by (auto simp: numeral_2_eq_2 length_Suc_conv)

lemma word_sum_field:
  assumes "even (length pre)"
  shows "word_sum le (pre @ host_bytes le 2 n @ suf) = word_sum le (pre @ [0, 0] @ suf) + n mod 65536"
proof -
  obtain a b where ab: "host_bytes le 2 n = [a, b]"
    using length2_cases [OF length_host_bytes] .
  have "host_val le [a, b] = n mod 65536"
    using host_val_bytes [of le 2 n] by (simp add: ab)
  moreover have "host_val le [0, 0] = 0"
    by (simp add: host_val_def)
  ultimately show ?thesis
    using assms by (simp add: word_sum_append ab)
qed

lemma in_cksum_all:
  "length bs \<le> 131074 \<Longrightarrow> in_cksum le bs (int (length bs)) = Some (of_nat (65535 - ones (word_sum le bs)))"
  using in_cksum_ones [of bs le "[]"] by simp

text \<open>What lies behind the \<^verbatim>\<open>len\<close> bytes does not matter.\<close>

lemma in_cksum_prefix:
  "length bs \<le> 131074 \<Longrightarrow> in_cksum le (bs @ suf) (int (length bs)) = in_cksum le bs (int (length bs))"
  by (simp only: in_cksum_ones in_cksum_all)

lemma unat_cksum: "unat (of_nat (65535 - ones s) :: u16) = 65535 - ones s"
  by (rule unat_of_nat_u16) simp

lemma ones_complement: "ones (s + (65535 - ones s)) = 65535"
proof (rule ones_unique)
  have "(s + (65535 - ones s)) mod 65535 = (ones s + (65535 - ones s)) mod 65535"
    by (intro mod_add_cong) (simp_all only: ones_mod)
  then show "65535 mod 65535 = (s + (65535 - ones s)) mod 65535"
    by (simp only: le_add_diff_inverse [OF ones_le])
  have "ones 0 = 0"
    by (simp add: ones_def)
  then show "0 < (65535 :: nat) \<longleftrightarrow> 0 < s + (65535 - ones s)"
    by (cases "s = 0") simp_all
qed (rule order_refl)

lemma ones_all_ones:
  assumes "ones s = 65535"
  shows "ones (s + 65535) = 65535"
proof (rule ones_unique)
  show "65535 mod 65535 = (s + 65535) mod 65535"
    using ones_mod [of s] assms by (simp only: mod_add_self2)
qed simp_all

interpretation ip: cksum_field "\<lambda>m. in_cksum le m (int (length m))" "put_cksum le" 131074
  for le :: bool
proof
  fix m :: "u8 list"
  assume "length m \<le> 131074"
  then show "\<exists>c. in_cksum le m (int (length m)) = Some c"
    by (simp add: in_cksum_all)
next
  fix c
  show "length (put_cksum le c) = 2"
    by (simp add: put_cksum_def)
next
  fix pre suf :: "u8 list" and c
  let ?s = "word_sum le (pre @ [0, 0] @ suf)"
  assume pre: "even (length pre)" and len: "length (pre @ [0, 0] @ suf) \<le> 131074"
    and "in_cksum le (pre @ [0, 0] @ suf) (int (length (pre @ [0, 0] @ suf))) = Some c"
  then have c: "c = of_nat (65535 - ones ?s)"
    by (simp only: in_cksum_all option.inject)
  have "word_sum le (pre @ put_cksum le c @ suf) = ?s + (65535 - ones ?s)"
    using pre by (simp add: put_cksum_def word_sum_field c unat_cksum)
  then show "in_cksum le (pre @ put_cksum le c @ suf) (int (length (pre @ put_cksum le c @ suf))) = Some 0"
    using len in_cksum_all [of "pre @ put_cksum le c @ suf" le]
    by (simp add: put_cksum_def ones_complement)
next
  fix pre suf :: "u8 list"
  let ?s = "word_sum le (pre @ [0, 0] @ suf)"
  assume pre: "even (length pre)" and len: "length (pre @ [0, 0] @ suf) \<le> 131074"
    and "in_cksum le (pre @ [0, 0] @ suf) (int (length (pre @ [0, 0] @ suf))) = Some 0"
  then have "(of_nat (65535 - ones ?s) :: u16) = 0"
    by (simp only: in_cksum_all option.inject)
  then have "65535 - ones ?s = 0"
    by (metis unat_0 unat_cksum)
  then have "ones ?s = 65535"
    using ones_le [of ?s] by (intro antisym) (simp_all only: diff_is_0_eq)
  then have "ones (?s + 65535) = 65535"
    by (rule ones_all_ones)
  moreover have "word_sum le (pre @ put_cksum le 0xffff @ suf) = ?s + 65535"
    using pre by (simp add: put_cksum_def word_sum_field)
  ultimately show "in_cksum le (pre @ put_cksum le 0xffff @ suf) (int (length (pre @ put_cksum le 0xffff @ suf))) = Some 0"
    using len in_cksum_all [of "pre @ put_cksum le 0xffff @ suf" le] by (simp add: put_cksum_def)
qed

section \<open>Independence of the byte order\<close>

lemma word_sum_swap: "word_sum True bs mod 65535 = (256 * word_sum False bs) mod 65535"
proof (induction True bs rule: word_sum.induct)
  case (1 a b w)
  have "256 * host_val False [a, b] = host_val True [a, b] + unat a * 65535"
    by (simp add: host_val_swap)
  then have "(256 * host_val False [a, b]) mod 65535 = host_val True [a, b] mod 65535"
    by (simp only: mod_mult_self1)
  then show ?case
    using 1 by (simp only: word_sum.simps distrib_left) (intro mod_add_cong, simp_all only:)
next
  case (2 c)
  have "256 * host_val False [c, 0] = host_val True [c, 0] + unat c * 65535"
    by (simp add: host_val_swap)
  then show ?case
    by (simp only: word_sum.simps mod_mult_self1)
qed simp

lemma word_sum_0: "word_sum le bs = 0 \<longleftrightarrow> (\<forall>b\<in>set bs. b = 0)"
  by (induction le bs rule: word_sum.induct) (auto simp: host_val_def unat_eq_zero)

lemma ones_swap:
  assumes "r \<le> 65535" and "t mod 65535 = (256 * r) mod 65535" and "0 < r \<longleftrightarrow> 0 < t"
  shows "ones t = 256 * (r mod 256) + r div 256"
proof (rule ones_unique)
  have r: "r = 256 * (r div 256) + r mod 256"
    by simp
  have "r div 256 \<le> 255" "r mod 256 \<le> 255"
    using assms(1) div_le_mono [of r 65535 256] mod_less_divisor [of 256 r] by auto
  then show "256 * (r mod 256) + r div 256 \<le> 65535"
    by linarith
  have "256 * r = 256 * (r mod 256) + r div 256 + (r div 256) * 65535"
    using r by linarith
  then show "(256 * (r mod 256) + r div 256) mod 65535 = t mod 65535"
    unfolding assms(2) by (simp only: mod_mult_self1)
  show "0 < 256 * (r mod 256) + r div 256 \<longleftrightarrow> 0 < t"
    unfolding assms(3) [symmetric] using r by linarith
qed

lemma host_bytes_2: "host_bytes le 2 n = (if le then [of_nat (n mod 256), of_nat (n div 256 mod 256)]
    else [of_nat (n div 256 mod 256), of_nat (n mod 256)])"
  by (simp add: host_bytes_def numeral_2_eq_2)

lemma host_bytes_pair:
  assumes "y \<le> 255"
  shows "host_bytes le 2 (256 * x + y) = (if le then [of_nat y, of_nat (x mod 256)] else [of_nat (x mod 256), of_nat y])"
proof -
  have "(256 * x + y) mod 256 = y" "(256 * x + y) div 256 = x"
    using assms by simp_all
  then show ?thesis
    by (simp add: host_bytes_2)
qed

lemma complement_swap:
  assumes "r \<le> 65535"
  shows "host_bytes True 2 (65535 - (256 * (r mod 256) + r div 256)) = host_bytes False 2 (65535 - r)"
proof -
  define h l where "h = r div 256" and "l = r mod 256"
  have b: "h \<le> 255" "l \<le> 255"
    using assms div_le_mono [of r 65535 256] mod_less_divisor [of 256 r] by (auto simp: h_def l_def)
  have "65535 - (256 * l + h) = 256 * (255 - l) + (255 - h)"
    using b by (simp add: diff_mult_distrib2)
  moreover have "r = 256 * h + l"
    by (simp add: h_def l_def)
  then have "65535 - r = 256 * (255 - h) + (255 - l)"
    using b by (simp add: diff_mult_distrib2)
  ultimately show ?thesis
    using b unfolding h_def [symmetric] l_def [symmetric] by (simp only: host_bytes_pair) simp
qed

section \<open>Properties\<close>

text \<open>
  (C19) \<^verbatim>\<open>in_cksum\<close> computes the complement of the one's-complement sum of the 16-bit words
  (RFC 1071): for every length up to 131074 bytes, odd lengths included, its 32-bit accumulator
  does not lose a carry, it reads nothing outside the \<^verbatim>\<open>len\<close> bytes, and it is the value the
  mathematical definition gives.
\<close>

theorem in_cksum_correct:
  assumes "n \<le> length addr" and "n \<le> 131074"
  shows "in_cksum le addr (int n) = Some (of_nat (65535 - ones (word_sum le (take n addr))))"
  using in_cksum_ones [of "take n addr" le "drop n addr"] assms by simp

theorem in_cksum_correct_witness:
  "in_cksum True [1, 2, 255, 255, 7] 5 =
     Some (of_nat (65535 - ones (word_sum True (take 5 [1, 2, 255, 255, 7]))))
   \<and> in_cksum True [1, 2, 255, 255, 7] 5 = Some 0xfdf7"
  using in_cksum_correct [of 5 "[1, 2, 255, 255, 7]" True]
  by (simp add: ones_def host_val_def)

text \<open>
  A packet whose checksum field (two zero bytes at an even offset) is filled with the
  result of \<^verbatim>\<open>in_cksum\<close> over the packet has checksum 0, the test every receiver makes.
\<close>

theorem in_cksum_verifies:
  assumes "even (length pre)" and "length pre + 2 + length suf \<le> 131074"
  shows "\<exists>c. in_cksum le (pre @ [0, 0] @ suf) (int (length (pre @ [0, 0] @ suf))) = Some c
    \<and> in_cksum le (pre @ put_cksum le c @ suf) (int (length (pre @ put_cksum le c @ suf))) = Some 0"
  using assms by (rule ip.seal)

theorem in_cksum_verifies_witness:
  "\<exists>c. in_cksum True ([8, 0] @ [0, 0] @ [1, 2, 3]) (int (length [8, 0 :: u8, 0, 0, 1, 2, 3])) = Some c
    \<and> in_cksum True ([8, 0] @ put_cksum True c @ [1, 2, 3])
        (int (length ([8, 0] @ put_cksum True c @ [1, 2, 3]))) = Some 0"
  using in_cksum_verifies [of "[8, 0]" "[1, 2, 3]" True] by simp

text \<open>
  The checksum is independent of the byte order of the host: little-endian and big-endian
  hosts store the same two bytes for the same packet.
\<close>

theorem in_cksum_byte_order:
  assumes "length bs \<le> 131074"
  shows "\<exists>c d. in_cksum True bs (int (length bs)) = Some c \<and> in_cksum False bs (int (length bs)) = Some d
    \<and> put_cksum True c = put_cksum False d"
proof -
  let ?t = "word_sum True bs" and ?r = "ones (word_sum False bs)"
  have "?t mod 65535 = (256 * ?r) mod 65535"
    unfolding word_sum_swap by (metis mod_mult_right_eq ones_mod)
  moreover have "0 < ?r \<longleftrightarrow> 0 < ?t"
    unfolding ones_pos by (simp only: neq0_conv [symmetric] word_sum_0)
  ultimately have "ones ?t = 256 * (?r mod 256) + ?r div 256"
    by (rule ones_swap [OF ones_le])
  then have "host_bytes True 2 (65535 - ones ?t) = host_bytes False 2 (65535 - ?r)"
    using complement_swap [OF ones_le] by simp
  then show ?thesis
    using assms by (simp add: in_cksum_all put_cksum_def unat_cksum)
qed

theorem in_cksum_byte_order_witness:
  "\<exists>c d. in_cksum True [69, 0, 1] (int (length [69, 0, 1 :: u8])) = Some c
    \<and> in_cksum False [69, 0, 1] (int (length [69, 0, 1 :: u8])) = Some d
    \<and> put_cksum True c = put_cksum False d"
  using in_cksum_byte_order [of "[69, 0, 1]"] by simp

end
