(* ===== verification/Ping.thy ===== *)
theory Ping
  imports Checksum "HOL-Library.Monad_Syntax"
begin

unbundle bit_operations_syntax

text \<open>
  The \<^verbatim>\<open>ping\<close> program: building an ICMP echo request (\<^verbatim>\<open>send_v4\<close>, \<^verbatim>\<open>send_v6\<close>), examining what is
  received (\<^verbatim>\<open>proc_v4\<close>, \<^verbatim>\<open>proc_v6\<close>), and \<^verbatim>\<open>tv_sub\<close>. Its global variables are the record \<open>ping\<close>;
  a packet is a byte list; a \<^verbatim>\<open>struct timeval\<close> is two 64-bit integers, as on LP64 systems.
\<close>

section \<open>Time values\<close>

record timeval =
  tv_sec :: u64
  tv_usec :: u64

definition tv_sub :: "timeval \<Rightarrow> timeval \<Rightarrow> timeval" where
  "tv_sub out inn =
     (let out = out\<lparr>tv_usec := tv_usec out - tv_usec inn\<rparr>;
          out = (if sint (tv_usec out) < 0
                 then out\<lparr>tv_sec := tv_sec out - 1, tv_usec := tv_usec out + 1000000\<rparr>
                 else out)
      in out\<lparr>tv_sec := tv_sec out - tv_sec inn\<rparr>)"

text \<open>The object representation of a \<^verbatim>\<open>struct timeval\<close>.\<close>

definition put_timeval :: "bool \<Rightarrow> timeval \<Rightarrow> u8 list" where
  "put_timeval le tv = host_bytes le 8 (unat (tv_sec tv)) @ host_bytes le 8 (unat (tv_usec tv))"

definition get_timeval :: "bool \<Rightarrow> u8 list \<Rightarrow> timeval" where
  "get_timeval le bs =
     \<lparr>tv_sec = of_nat (host_val le (take 8 bs)), tv_usec = of_nat (host_val le (drop 8 bs))\<rparr>"

section \<open>The packets\<close>

record ping =
  sendbuf :: "u8 list"
  datalen :: nat
  nsent :: u32
  pid :: nat
  verbose :: bool

definition BUFSIZE :: nat where
  "BUFSIZE = 1500"

definition ICMP_ECHO :: u8 where
  "ICMP_ECHO = 8"

definition ICMP_ECHOREPLY :: nat where
  "ICMP_ECHOREPLY = 0"

definition ICMP6_ECHO_REQUEST :: u8 where
  "ICMP6_ECHO_REQUEST = 128"

definition ICMP6_ECHO_REPLY :: nat where
  "ICMP6_ECHO_REPLY = 129"

definition IPPROTO_ICMP :: nat where
  "IPPROTO_ICMP = 1"

definition IPPROTO_UDP :: nat where
  "IPPROTO_UDP = 17"

text \<open>
  The stores both senders begin with: type, code, identifier, sequence number, the fill pattern,
  and over it the time of sending. \<^term>\<open>None\<close> is a store outside \<^verbatim>\<open>sendbuf\<close>.
\<close>

definition echo_header :: "bool \<Rightarrow> u8 \<Rightarrow> timeval \<Rightarrow> ping \<Rightarrow> u8 list option" where
  "echo_header le typ now s = do {
     m \<leftarrow> memcpy_at (sendbuf s) 0 [typ];
     m \<leftarrow> memcpy_at m 1 [0];
     m \<leftarrow> memcpy_at m 4 (host_bytes le 2 (pid s));
     m \<leftarrow> memcpy_at m 6 (host_bytes le 2 (unat (nsent s)));
     m \<leftarrow> memcpy_at m 8 (replicate (datalen s) 0xa5);
     memcpy_at m 8 (put_timeval le now)
   }"

text \<open>The senders: the datagram handed to \<^verbatim>\<open>Sendto\<close> and the new globals.\<close>

definition send_v4 :: "bool \<Rightarrow> timeval \<Rightarrow> ping \<Rightarrow> (u8 list \<times> ping) option" where
  "send_v4 le now s = do {
     m \<leftarrow> echo_header le ICMP_ECHO now s;
     let len = 8 + datalen s;
     m \<leftarrow> memcpy_at m 2 [0, 0];
     c \<leftarrow> in_cksum le m (int len);
     m \<leftarrow> memcpy_at m 2 (put_cksum le c);
     Some (take len m, s\<lparr>sendbuf := m, nsent := nsent s + 1\<rparr>)
   }"

definition send_v6 :: "bool \<Rightarrow> timeval \<Rightarrow> ping \<Rightarrow> (u8 list \<times> ping) option" where
  "send_v6 le now s = do {
     m \<leftarrow> echo_header le ICMP6_ECHO_REQUEST now s;
     Some (take (8 + datalen s) m, s\<lparr>sendbuf := m, nsent := nsent s + 1\<rparr>)
   }"

text \<open>
  What the receivers print: a reply with its length, sequence number, TTL or hop limit (-1 where
  the ancillary data is missing, printed as question marks) and round-trip time; in verbose mode other messages with type and code;
  or nothing. The time is the \<^verbatim>\<open>timeval\<close> whose value in milliseconds is printed.
\<close>

datatype report =
    Reply int nat int timeval
  | Other int nat nat
  | Silent

definition proc_v4 :: "bool \<Rightarrow> ping \<Rightarrow> u8 list \<Rightarrow> int \<Rightarrow> timeval \<Rightarrow> report option" where
  "proc_v4 le s ptr len tvrecv = do {
     b0 \<leftarrow> u8_at ptr 0;
     let hlen1 = (b0 mod 16) * 4;
     p \<leftarrow> u8_at ptr 9;
     if p \<noteq> IPPROTO_ICMP then Some Silent
     else do {
       let icmplen = len - int hlen1;
       if icmplen < 8 then Some Silent
       else do {
         typ \<leftarrow> u8_at ptr hlen1;
         if typ = ICMP_ECHOREPLY then do {
           ident \<leftarrow> host_at le 2 ptr (hlen1 + 4);
           if ident \<noteq> pid s then Some Silent
           else if icmplen < 16 then Some Silent
           else do {
             tvsend \<leftarrow> bytes_at ptr (hlen1 + 8) 16;
             sq \<leftarrow> host_at le 2 ptr (hlen1 + 6);
             ttl \<leftarrow> u8_at ptr 8;
             Some (Reply icmplen sq (int ttl) (tv_sub tvrecv (get_timeval le tvsend)))
           }
         }
         else if verbose s then do {
           code \<leftarrow> u8_at ptr (hlen1 + 1);
           Some (Other icmplen typ code)
         }
         else Some Silent
       }
     }
   }"

text \<open>The loop over the control messages, each given as level, type and data.\<close>

definition IPPROTO_IPV6 :: nat where
  "IPPROTO_IPV6 = 41"

definition IPV6_HOPLIMIT :: nat where
  "IPV6_HOPLIMIT = 52"

fun find_hlim :: "(nat \<times> nat \<times> nat) list \<Rightarrow> int" where
  "find_hlim [] = -1"
| "find_hlim ((level, typ, dat) # cmsgs) =
     (if level = IPPROTO_IPV6 \<and> typ = IPV6_HOPLIMIT then sint (of_nat dat :: u32) else find_hlim cmsgs)"

definition proc_v6 ::
  "bool \<Rightarrow> ping \<Rightarrow> u8 list \<Rightarrow> int \<Rightarrow> (nat \<times> nat \<times> nat) list \<Rightarrow> timeval \<Rightarrow> report option" where
  "proc_v6 le s ptr len cmsgs tvrecv =
     (if len < 8 then Some Silent
      else do {
        typ \<leftarrow> u8_at ptr 0;
        if typ = ICMP6_ECHO_REPLY then do {
          ident \<leftarrow> host_at le 2 ptr 4;
          if ident \<noteq> pid s then Some Silent
          else if len < 16 then Some Silent
          else do {
            tvsend \<leftarrow> bytes_at ptr 8 16;
            sq \<leftarrow> host_at le 2 ptr 6;
            Some (Reply len sq (find_hlim cmsgs) (tv_sub tvrecv (get_timeval le tvsend)))
          }
        }
        else if verbose s then do {
          code \<leftarrow> u8_at ptr 1;
          Some (Other len typ code)
        }
        else Some Silent
      })"

text \<open>
  The body of the \<^verbatim>\<open>for\<close> loop of \<^verbatim>\<open>readloop\<close> on the results of \<^verbatim>\<open>recvmsg\<close>: an error other than
  \<^verbatim>\<open>EINTR\<close> ends the process, a packet goes to \<^verbatim>\<open>fproc\<close>. The loop runs until the script ends, where
  the process blocks.
\<close>

datatype received =
    Recv_error errno
  | Recv "u8 list" int "(nat \<times> nat \<times> nat) list" timeval

fun readloop_for ::
  "(u8 list \<Rightarrow> int \<Rightarrow> (nat \<times> nat \<times> nat) list \<Rightarrow> timeval \<Rightarrow> report option) \<Rightarrow> received list \<Rightarrow>
   (report list \<times> bool) option" where
  "readloop_for fproc [] = Some ([], False)"
| "readloop_for fproc (Recv_error e # rs) =
     (if e = EINTR then readloop_for fproc rs else Some ([], True))"
| "readloop_for fproc (Recv buf n cmsgs tval # rs) = do {
     r \<leftarrow> fproc buf n cmsgs tval;
     (out, exited) \<leftarrow> readloop_for fproc rs;
     Some (r # out, exited)
   }"

section \<open>Lemmas\<close>

lemma memcpy_at_mid:
  "at = length xs \<Longrightarrow> length ys' = length ys \<Longrightarrow> memcpy_at (xs @ ys @ zs) at ys' = Some (xs @ ys' @ zs)"
  by (simp add: memcpy_at_def)

lemma bytes_at_mid:
  "at = length xs \<Longrightarrow> n = length ys \<Longrightarrow> bytes_at (xs @ ys @ zs) at n = Some ys"
  by (simp add: bytes_at_def)

lemma take_prefix: "n = length xs \<Longrightarrow> take n (xs @ ys) = xs"
  by simp

lemma length_put_timeval [simp]: "length (put_timeval le tv) = 16"
  by (simp add: put_timeval_def)

lemma get_put_timeval [simp]: "get_timeval le (put_timeval le tv) = tv"
proof -
  have "unat x mod 256 ^ 8 = unat x" for x :: u64
    using unsigned_less [of x, where ?'a = nat] by simp
  then show ?thesis
    by (simp add: get_timeval_def put_timeval_def host_val_bytes)
qed

text \<open>The layout of an echo message in the buffer.\<close>

definition echo_data :: "bool \<Rightarrow> timeval \<Rightarrow> ping \<Rightarrow> u8 list" where
  "echo_data le now s = put_timeval le now @ replicate (datalen s - 16) 0xa5"

lemma sendbuf_split:
  assumes "8 + n \<le> length m"
  obtains a b K I Q D R where "m = [a, b] @ K @ I @ Q @ D @ R"
    and "length K = 2" and "length I = 2" and "length Q = 2" and "length D = n"
proof -
  have "length (take 2 m) = 2"
    using assms by simp
  then obtain a b where "take 2 m = [a, b]"
    by (rule length2_cases)
  moreover have piece: "take 2 (drop k m) @ drop (2 + k) m = drop k m" for k
    using append_take_drop_id [of 2 "drop k m"] by (simp only: drop_drop)
  have "m = take 2 m @ take 2 (drop 2 m) @ take 2 (drop 4 m) @ take 2 (drop 6 m)
      @ take n (drop 8 m) @ drop n (drop 8 m)"
    using piece [of 2] piece [of 4] piece [of 6]
    by (simp only: append_take_drop_id numeral_plus_numeral add_num_simps)
  ultimately show thesis
    using that [of a b "take 2 (drop 2 m)" "take 2 (drop 4 m)" "take 2 (drop 6 m)" "take n (drop 8 m)"
        "drop n (drop 8 m)"] assms by simp
qed

lemma echo_header_layout:
  assumes "16 \<le> datalen s" and "8 + datalen s \<le> length (sendbuf s)"
  obtains K R where "length K = 2" and "8 + datalen s + length R = length (sendbuf s)"
    and "echo_header le typ now s = Some ([typ, 0] @ K @ host_bytes le 2 (pid s)
      @ host_bytes le 2 (unat (nsent s)) @ echo_data le now s @ R)"
proof -
  obtain a b K I Q D R where m: "sendbuf s = [a, b] @ K @ I @ Q @ D @ R"
    and len: "length K = 2" "length I = 2" "length Q = 2" "length D = datalen s"
    using sendbuf_split [OF assms(2)] .
  let ?I = "host_bytes le 2 (pid s)" and ?Q = "host_bytes le 2 (unat (nsent s))"
  have 1: "memcpy_at (sendbuf s) 0 [typ] = Some ([] @ [typ] @ [b] @ K @ I @ Q @ D @ R)"
    unfolding m using memcpy_at_mid [of 0 "[]" "[typ]" "[a]"] by simp
  have 2: "memcpy_at ([] @ [typ] @ [b] @ K @ I @ Q @ D @ R) 1 [0] = Some ([typ, 0] @ K @ I @ Q @ D @ R)"
    using memcpy_at_mid [of 1 "[typ]" "[0]" "[b]"] by simp
  have 3: "memcpy_at ([typ, 0] @ K @ I @ Q @ D @ R) 4 ?I = Some ([typ, 0] @ K @ ?I @ Q @ D @ R)"
    using memcpy_at_mid [of 4 "[typ, 0] @ K" ?I I] len by simp
  have 4: "memcpy_at ([typ, 0] @ K @ ?I @ Q @ D @ R) 6 ?Q = Some ([typ, 0] @ K @ ?I @ ?Q @ D @ R)"
    using memcpy_at_mid [of 6 "[typ, 0] @ K @ ?I" ?Q Q] len by simp
  have 5: "memcpy_at ([typ, 0] @ K @ ?I @ ?Q @ D @ R) 8 (replicate (datalen s) 0xa5) =
      Some ([typ, 0] @ K @ ?I @ ?Q @ replicate (datalen s) 0xa5 @ R)"
    using memcpy_at_mid [of 8 "[typ, 0] @ K @ ?I @ ?Q" "replicate (datalen s) 0xa5" D] len by simp
  have fill: "replicate (datalen s) (0xa5 :: u8) = replicate 16 0xa5 @ replicate (datalen s - 16) 0xa5"
    using assms(1) by (simp flip: replicate_add)
  have 6: "memcpy_at ([typ, 0] @ K @ ?I @ ?Q @ replicate (datalen s) 0xa5 @ R) 8 (put_timeval le now) =
      Some ([typ, 0] @ K @ ?I @ ?Q @ echo_data le now s @ R)"
    unfolding fill echo_data_def
    using memcpy_at_mid [of 8 "[typ, 0] @ K @ ?I @ ?Q" "put_timeval le now" "replicate 16 0xa5"] len by simp
  have "echo_header le typ now s = Some ([typ, 0] @ K @ ?I @ ?Q @ echo_data le now s @ R)"
    unfolding echo_header_def 1 Option.bind.bind_lunit 2 3 4 5 6 ..
  moreover have "8 + datalen s + length R = length (sendbuf s)"
    unfolding m by (simp add: len)
  ultimately show thesis
    using that len by blast
qed


text \<open>The echo request on the wire, with its checksum field.\<close>

definition echo_packet :: "bool \<Rightarrow> u8 \<Rightarrow> u8 list \<Rightarrow> timeval \<Rightarrow> ping \<Rightarrow> u8 list" where
  "echo_packet le typ ck now s =
     [typ, 0] @ ck @ host_bytes le 2 (pid s) @ host_bytes le 2 (unat (nsent s)) @ echo_data le now s"

lemma length_echo_packet:
  "16 \<le> datalen s \<Longrightarrow> length ck = 2 \<Longrightarrow> length (echo_packet le typ ck now s) = 8 + datalen s"
  by (simp add: echo_packet_def echo_data_def)

lemma send_v4_packet:
  assumes "16 \<le> datalen s" and "8 + datalen s \<le> length (sendbuf s)" and "length (sendbuf s) = BUFSIZE"
  obtains c s' where "send_v4 le now s = Some (echo_packet le ICMP_ECHO (put_cksum le c) now s, s')"
    and "in_cksum le (echo_packet le ICMP_ECHO (put_cksum le c) now s) (int (8 + datalen s)) = Some 0"
    and "nsent s' = nsent s + 1" and "length (sendbuf s') = BUFSIZE" and "pid s' = pid s"
    and "datalen s' = datalen s"
proof -
  obtain K R where K: "length K = 2" and R: "8 + datalen s + length R = length (sendbuf s)"
    and hdr: "echo_header le ICMP_ECHO now s = Some ([ICMP_ECHO, 0] @ K @ host_bytes le 2 (pid s)
      @ host_bytes le 2 (unat (nsent s)) @ echo_data le now s @ R)"
    using echo_header_layout [OF assms(1,2)] .
  let ?B = "host_bytes le 2 (pid s) @ host_bytes le 2 (unat (nsent s)) @ echo_data le now s"
  have B: "length ?B = 4 + datalen s"
    using assms(1) by (simp add: echo_data_def)
  obtain c where c: "in_cksum le ([ICMP_ECHO, 0] @ [0, 0] @ ?B) (int (length ([ICMP_ECHO, 0] @ [0, 0] @ ?B))) = Some c"
    and v: "in_cksum le ([ICMP_ECHO, 0] @ put_cksum le c @ ?B) (int (length ([ICMP_ECHO, 0] @ put_cksum le c @ ?B))) = Some 0"
    using ip.seal [of "[ICMP_ECHO, 0]" ?B le] B assms(2,3) unfolding BUFSIZE_def by force
  have 1: "memcpy_at ([ICMP_ECHO, 0] @ K @ ?B @ R) 2 x = Some ([ICMP_ECHO, 0] @ x @ ?B @ R)" if "length x = 2" for x
    using memcpy_at_mid [of 2 "[ICMP_ECHO, 0]" x K "?B @ R"] K that by simp
  have 2: "memcpy_at ([ICMP_ECHO, 0] @ [0, 0] @ ?B @ R) 2 x = Some ([ICMP_ECHO, 0] @ x @ ?B @ R)" if "length x = 2" for x
    using memcpy_at_mid [of 2 "[ICMP_ECHO, 0]" x "[0, 0]" "?B @ R"] that by simp
  have len: "length ([ICMP_ECHO, 0] @ [0, 0] @ ?B) = 8 + datalen s"
    using B by simp
  have small: "8 + datalen s \<le> 131074"
    using assms(2,3) by (simp add: BUFSIZE_def)
  have "in_cksum le (([ICMP_ECHO, 0] @ [0, 0] @ ?B) @ R) (int (8 + datalen s)) = Some c"
    using c in_cksum_prefix [of "[ICMP_ECHO, 0] @ [0, 0] @ ?B" le R] small
    unfolding len by (simp only:)
  moreover have ck: "length (put_cksum le c) = 2"
    by (simp add: put_cksum_def)
  moreover have "take (8 + datalen s) (([ICMP_ECHO, 0] @ put_cksum le c @ ?B) @ R) = [ICMP_ECHO, 0] @ put_cksum le c @ ?B"
    using B ck by (intro take_prefix) simp
  ultimately have "send_v4 le now s = Some (echo_packet le ICMP_ECHO (put_cksum le c) now s,
      s\<lparr>sendbuf := [ICMP_ECHO, 0] @ put_cksum le c @ ?B @ R, nsent := nsent s + 1\<rparr>)"
    using hdr 1 [of "[0, 0]"] 2 [of "put_cksum le c"] by (simp add: send_v4_def echo_packet_def)
  moreover have "length ([ICMP_ECHO, 0] @ put_cksum le c @ ?B) = 8 + datalen s"
    using B ck by simp
  ultimately show thesis
    using that [of c] v R B ck assms(3) by (simp add: echo_packet_def)
qed

section \<open>Properties\<close>

text \<open>A time value with \<^verbatim>\<open>0 <= tv_usec < 1000000\<close> and seconds far from overflow; its microseconds.\<close>

definition tv_ok :: "timeval \<Rightarrow> bool" where
  "tv_ok tv \<longleftrightarrow> sint (tv_usec tv) \<in> {0..<1000000} \<and> sint (tv_sec tv) \<in> {0..<2 ^ 62}"

definition tv_micros :: "timeval \<Rightarrow> int" where
  "tv_micros tv = sint (tv_sec tv) * 1000000 + sint (tv_usec tv)"

lemma sint_sub_u64:
  "sint (a :: u64) - sint b \<in> {- (2 ^ 63)..<2 ^ 63} \<Longrightarrow> sint (a - b) = sint a - sint b"
  by (simp add: sint_word_ariths signed_take_bit_int_eq_self)

lemma sint_add_u64:
  "sint (a :: u64) + sint b \<in> {- (2 ^ 63)..<2 ^ 63} \<Longrightarrow> sint (a + b) = sint a + sint b"
  by (simp add: sint_word_ariths signed_take_bit_int_eq_self)

text \<open>
  \<^verbatim>\<open>tv_sub\<close> computes the exact difference of two normalised times in microseconds, and its
  result is normalised again: the borrow from the seconds is right.
\<close>

theorem tv_sub_correct:
  assumes "tv_ok out" and "tv_ok inn"
  shows "tv_micros (tv_sub out inn) = tv_micros out - tv_micros inn
    \<and> sint (tv_usec (tv_sub out inn)) \<in> {0..<1000000}"
proof -
  have usec: "sint (tv_usec out - tv_usec inn) = sint (tv_usec out) - sint (tv_usec inn)"
    using assms by (intro sint_sub_u64) (auto simp: tv_ok_def)
  have sec: "sint (tv_sec out - tv_sec inn) = sint (tv_sec out) - sint (tv_sec inn)"
    using assms by (intro sint_sub_u64) (auto simp: tv_ok_def)
  have sec1: "sint (tv_sec out - 1 - tv_sec inn) = sint (tv_sec out) - 1 - sint (tv_sec inn)"
  proof -
    have "sint (tv_sec out - 1) = sint (tv_sec out) - 1"
      using assms sint_sub_u64 [of "tv_sec out" 1] by (auto simp: tv_ok_def)
    then show ?thesis
      using assms sint_sub_u64 [of "tv_sec out - 1" "tv_sec inn"] by (auto simp: tv_ok_def)
  qed
  have borrow: "sint (tv_usec out - tv_usec inn + 1000000) = sint (tv_usec out) - sint (tv_usec inn) + 1000000"
    using assms sint_add_u64 [of "tv_usec out - tv_usec inn" 1000000] usec by (auto simp: tv_ok_def)
  show ?thesis
    using assms usec sec sec1 borrow
    by (auto simp: tv_sub_def tv_micros_def tv_ok_def Let_def)
qed

theorem tv_sub_correct_witness:
  "tv_micros (tv_sub \<lparr>tv_sec = 10, tv_usec = 5\<rparr> \<lparr>tv_sec = 8, tv_usec = 999999\<rparr>) =
     tv_micros \<lparr>tv_sec = 10, tv_usec = 5\<rparr> - tv_micros \<lparr>tv_sec = 8, tv_usec = 999999\<rparr>
   \<and> sint (tv_usec (tv_sub \<lparr>tv_sec = 10, tv_usec = 5\<rparr> \<lparr>tv_sec = 8, tv_usec = 999999\<rparr>)) \<in> {0..<1000000}"
  by (rule tv_sub_correct) (simp_all add: tv_ok_def)

lemma host_at_mid:
  "at = length xs \<Longrightarrow> host_at le k (xs @ host_bytes le k n @ zs) at = Some (n mod 256 ^ k)"
  using host_at_append [of le k xs n zs] by simp

lemma u8_at_mid: "i < length xs \<Longrightarrow> u8_at (xs @ ys) i = Some (unat (xs ! i))"
  by (simp add: u8_at_eq nth_append)

text \<open>
  (C27) What \<^verbatim>\<open>ping\<close> sends and what it prints fit together. An echo request of \<^verbatim>\<open>send_v4\<close> verifies
  under the Internet checksum, and when a peer echoes it (type 0, any code and checksum, behind any
  IP header that announces its own length and ICMP) \<^verbatim>\<open>proc_v4\<close> of the same process prints a reply
  with the whole length, the sequence number sent, the TTL of the header, and a round-trip time. When the
  times of sending and of receiving are normalised, that is the exact number of microseconds between
  them, normalised again.
\<close>

theorem ping_v4_echo:
  assumes "16 \<le> datalen s" and "8 + datalen s \<le> BUFSIZE" and "length (sendbuf s) = BUFSIZE"
    and "pid s < 65536"
    and "20 \<le> length h" and "unat (h ! 0) mod 16 * 4 = length h" and "unat (h ! 9) = IPPROTO_ICMP"
    and "length ck = 2"
  shows "\<exists>pkt s' rtt. send_v4 le t0 s = Some (pkt, s')
    \<and> in_cksum le pkt (int (length pkt)) = Some 0 \<and> nsent s' = nsent s + 1
    \<and> proc_v4 le s' (h @ [0, code] @ ck @ drop 4 pkt @ rest) (int (length h + length pkt)) t1 =
        Some (Reply (int (8 + datalen s)) (unat (nsent s) mod 65536) (int (unat (h ! 8))) rtt)
    \<and> (tv_ok t0 \<and> tv_ok t1 \<longrightarrow> tv_micros rtt = tv_micros t1 - tv_micros t0 \<and> sint (tv_usec rtt) \<in> {0..<1000000})"
proof -
  obtain c s' where send: "send_v4 le t0 s = Some (echo_packet le ICMP_ECHO (put_cksum le c) t0 s, s')"
    and ck0: "in_cksum le (echo_packet le ICMP_ECHO (put_cksum le c) t0 s) (int (8 + datalen s)) = Some 0"
    and s': "nsent s' = nsent s + 1" "pid s' = pid s"
    using send_v4_packet [of s le t0] assms(1-3) by metis
  let ?pkt = "echo_packet le ICMP_ECHO (put_cksum le c) t0 s"
  let ?I = "host_bytes le 2 (pid s)" and ?Q = "host_bytes le 2 (unat (nsent s))"
  have ck: "length (put_cksum le c) = 2"
    by (simp add: put_cksum_def)
  have len: "length ?pkt = 8 + datalen s"
    using assms(1) ck by (rule length_echo_packet)
  have drop: "drop 4 ?pkt = ?I @ ?Q @ echo_data le t0 s"
    using ck by (simp add: echo_packet_def)
  define ptr where "ptr = h @ [0, code] @ ck @ drop 4 ?pkt @ rest"
  have "u8_at ptr 0 = Some (unat (h ! 0))" "u8_at ptr 8 = Some (unat (h ! 8))" "u8_at ptr 9 = Some (unat (h ! 9))"
    unfolding ptr_def using assms(5) by (intro u8_at_mid, linarith)+
  moreover have "u8_at ptr (length h) = Some 0"
    unfolding ptr_def by (simp add: u8_at_eq)
  moreover have "host_at le 2 ptr (length h + 4) = Some (pid s)"
    using host_at_mid [of "length h + 4" "h @ [0, code] @ ck" le 2 "pid s" "?Q @ echo_data le t0 s @ rest"] assms(4,8)
    unfolding ptr_def drop by simp
  moreover have "host_at le 2 ptr (length h + 6) = Some (unat (nsent s) mod 65536)"
    using host_at_mid [of "length h + 6" "h @ [0, code] @ ck @ ?I" le 2 "unat (nsent s)" "echo_data le t0 s @ rest"] assms(8)
    unfolding ptr_def drop by simp
  moreover have "bytes_at ptr (length h + 8) 16 = Some (put_timeval le t0)"
    using bytes_at_mid [of "length h + 8" "h @ [0, code] @ ck @ ?I @ ?Q" 16 "put_timeval le t0"] assms(8)
    unfolding ptr_def drop echo_data_def by simp
  ultimately have "proc_v4 le s' ptr (int (length h + length ?pkt)) t1 =
      Some (Reply (int (8 + datalen s)) (unat (nsent s) mod 65536) (int (unat (h ! 8))) (tv_sub t1 t0))"
    using assms(1,6,7) len s' by (simp add: proc_v4_def ICMP_ECHOREPLY_def)
  then show ?thesis
    using send ck0 s'(1) len tv_sub_correct [of t1 t0] unfolding ptr_def
    by (intro exI [of _ ?pkt] exI [of _ s'] exI [of _ "tv_sub t1 t0"]) simp
qed

definition ping_example :: ping where
  "ping_example = \<lparr>sendbuf = replicate 1500 0, datalen = 56, nsent = 7, pid = 4242, verbose = False\<rparr>"

theorem ping_v4_echo_witness:
  "\<exists>pkt s' rtt. send_v4 True \<lparr>tv_sec = 1, tv_usec = 999998\<rparr> ping_example = Some (pkt, s')
    \<and> in_cksum True pkt (int (length pkt)) = Some 0 \<and> nsent s' = nsent ping_example + 1
    \<and> proc_v4 True s' ([0x45, 0, 0, 84, 0, 0, 0, 0, 64, 1, 0, 0, 127, 0, 0, 1, 127, 0, 0, 1] @ [0, 0] @ [9, 9] @ drop 4 pkt @ [])
        (int (20 + length pkt)) \<lparr>tv_sec = 2, tv_usec = 9\<rparr> = Some (Reply 64 7 64 rtt)
    \<and> tv_micros rtt = 11"
  using ping_v4_echo [of ping_example
      "[0x45, 0, 0, 84, 0, 0, 0, 0, 64, 1, 0, 0, 127, 0, 0, 1, 127, 0, 0, 1]" "[9, 9]" True
      "\<lparr>tv_sec = 1, tv_usec = 999998\<rparr>" 0 "[]" "\<lparr>tv_sec = 2, tv_usec = 9\<rparr>"]
  by (auto simp: ping_example_def BUFSIZE_def IPPROTO_ICMP_def tv_ok_def tv_micros_def [of "\<lparr>tv_sec = _, tv_usec = _\<rparr>"])

text \<open>
  On LP64 systems the test for enough data in \<^verbatim>\<open>proc_v4\<close> is too weak: a reply of 16 to 23 bytes
  passes it although the time stamp needs 24, and the time printed depends on what an earlier
  packet left in the buffer.
\<close>

theorem proc_v4_stale_timestamp:
  assumes "h = [0x45, 0, 0, 36, 0, 0, 0, 0, 64, 1, 0, 0, 127, 0, 0, 1, 127, 0, 0, 1]"
    and "icmp = [0, 0, 0, 0] @ host_bytes le 2 (pid s) @ [0, 1] @ sec" and "length sec = 8"
    and "pid s < 65536" and "length old = 8"
  shows "proc_v4 le s (h @ icmp @ old) (int (length (h @ icmp))) t1 =
    Some (Reply 16 (host_val le [0, 1]) 64 (tv_sub t1 (get_timeval le (sec @ old))))"
proof -
  define ptr where "ptr = h @ icmp @ old"
  have h: "length h = 20" "h ! 0 = 0x45" "h ! 8 = 64" "h ! 9 = 1"
    using assms(1) by simp_all
  have "u8_at ptr 0 = Some (unat (h ! 0))" "u8_at ptr 8 = Some (unat (h ! 8))" "u8_at ptr 9 = Some (unat (h ! 9))"
    unfolding ptr_def using h(1) by (intro u8_at_mid, linarith)+
  moreover have "u8_at ptr 20 = Some 0"
    unfolding ptr_def assms(2) using h(1) by (simp add: u8_at_eq nth_append)
  moreover have "host_at le 2 ptr 24 = Some (pid s)"
    using host_at_mid [of 24 "h @ [0, 0, 0, 0]" le 2 "pid s" "[0, 1] @ sec @ old"] h(1) assms(4)
    unfolding ptr_def assms(2) by simp
  moreover have "host_at le 2 ptr 26 = Some (host_val le [0, 1])"
    using bytes_at_mid [of 26 "h @ [0, 0, 0, 0] @ host_bytes le 2 (pid s)" 2 "[0, 1]" "sec @ old"] h(1)
    unfolding ptr_def assms(2) host_at_def by simp
  moreover have "bytes_at ptr 28 16 = Some (sec @ old)"
    using bytes_at_mid [of 28 "h @ [0, 0, 0, 0] @ host_bytes le 2 (pid s) @ [0, 1]" 16 "sec @ old" "[]"] h(1) assms(3,5)
    unfolding ptr_def assms(2) by simp
  moreover have "length (h @ icmp) = 36"
    using h(1) assms(2,3) by simp
  ultimately show ?thesis
    unfolding ptr_def [symmetric] using h
    by (simp add: proc_v4_def ICMP_ECHOREPLY_def IPPROTO_ICMP_def)
qed

end
