(* ===== verification/Udp_Packet.thy ===== *)
theory Udp_Packet
  imports Ping
begin

unbundle bit_operations_syntax

text \<open>
  Building and checking raw UDP datagrams: \<^verbatim>\<open>udp_write\<close> of \<^verbatim>\<open>udpcksum/udpwrite.c\<close> and \<^verbatim>\<open>udp_read\<close> and
  \<^verbatim>\<open>udp_check\<close> of \<^verbatim>\<open>udpcksum/udpread.c\<close>. The header fields are stored at their offsets in
  \<^verbatim>\<open>struct udpiphdr\<close> (28 bytes): protocol 9, length 10, source 12, destination 16, ports 20 and 22,
  UDP length 24, checksum 26.
\<close>

section \<open>Writing\<close>

text \<open>The address and port of a \<^verbatim>\<open>struct sockaddr_in\<close>, in network order.\<close>

record endpoint =
  ep_addr :: "u8 list"
  ep_port :: "u8 list"

definition TTL_OUT :: u8 where
  "TTL_OUT = 64"

definition sizeof_udpiphdr :: nat where
  "sizeof_udpiphdr = 28"

definition udp_header :: "endpoint \<Rightarrow> endpoint \<Rightarrow> u8 list \<Rightarrow> nat \<Rightarrow> u8 list option" where
  "udp_header local dest buf userlen = do {
     m \<leftarrow> memcpy_at buf 0 (replicate sizeof_udpiphdr 0);
     m \<leftarrow> memcpy_at m 10 (net_bytes 2 (8 + userlen));
     m \<leftarrow> memcpy_at m 9 [of_nat IPPROTO_UDP];
     m \<leftarrow> memcpy_at m 12 (ep_addr local);
     m \<leftarrow> memcpy_at m 16 (ep_addr dest);
     m \<leftarrow> memcpy_at m 20 (ep_port local);
     m \<leftarrow> memcpy_at m 22 (ep_port dest);
     ui_len \<leftarrow> bytes_at m 10 2;
     memcpy_at m 24 ui_len
   }"

definition udp_sum :: "bool \<Rightarrow> u8 list \<Rightarrow> nat \<Rightarrow> u8 list option" where
  "udp_sum le m userlen = do {
     c \<leftarrow> in_cksum le m (int userlen);
     m \<leftarrow> memcpy_at m 26 (put_cksum le c);
     if c = 0 then memcpy_at m 26 (put_cksum le 0xffff) else Some m
   }"

definition ip_rest :: "u8 list \<Rightarrow> nat \<Rightarrow> u8 list option" where
  "ip_rest m userlen = do {
     m \<leftarrow> memcpy_at m 0 [0x45];
     m \<leftarrow> memcpy_at m 1 [0];
     m \<leftarrow> memcpy_at m 2 (net_bytes 2 userlen);
     m \<leftarrow> memcpy_at m 4 [0, 0];
     m \<leftarrow> memcpy_at m 6 [0, 0];
     memcpy_at m 8 [TTL_OUT]
   }"

text \<open>The datagram given to \<^verbatim>\<open>Sendto\<close>, with the code as compiled on Linux.\<close>

definition udp_write ::
  "bool \<Rightarrow> endpoint \<Rightarrow> endpoint \<Rightarrow> bool \<Rightarrow> u8 list \<Rightarrow> nat \<Rightarrow> u8 list option" where
  "udp_write le local dest zerosum buf userlen = do {
     m \<leftarrow> udp_header local dest buf userlen;
     let userlen = userlen + sizeof_udpiphdr;
     m \<leftarrow> (if \<not> zerosum then udp_sum le m userlen else Some m);
     m \<leftarrow> ip_rest m userlen;
     bytes_at m 0 userlen
   }"

section \<open>Reading\<close>

text \<open>
  The checks end the process by \<^verbatim>\<open>err_quit\<close> or accept the packet, whose checksum field then holds
  the (zero) result. The comparisons with \<^verbatim>\<open>sizeof\<close> are unsigned: a negative \<^verbatim>\<open>len\<close> becomes a large
  number.
\<close>

datatype checked = Quit | Accept "u8 list"

definition below_size :: "int \<Rightarrow> nat \<Rightarrow> bool" where
  "below_size len sz \<longleftrightarrow> (of_int len :: u64) < of_nat sz"

definition udp_check :: "bool \<Rightarrow> u8 list \<Rightarrow> int \<Rightarrow> checked option" where
  "udp_check le m len =
     (if below_size len (20 + 8) then Some Quit
      else do {
        b0 \<leftarrow> u8_at m 0;
        if b0 div 16 \<noteq> 4 then Some Quit
        else do {
          let hlen = (b0 mod 16) * 4;
          if hlen < 20 then Some Quit
          else if below_size len (hlen + 8) then Some Quit
          else do {
            c \<leftarrow> in_cksum le m (int hlen);
            m \<leftarrow> memcpy_at m 10 (put_cksum le c);
            if c \<noteq> 0 then Some Quit
            else do {
              p \<leftarrow> u8_at m 9;
              Some (if p = IPPROTO_UDP then Accept m else Quit)
            }
          }
        }
      })"

text \<open>The link types, and \<^verbatim>\<open>udp_read\<close> on the packet that \<^verbatim>\<open>next_pcap\<close> returns.\<close>

datatype datalink = DLT_NULL | DLT_EN10MB | DLT_SLIP | DLT_PPP | DLT_OTHER nat

definition ETHERTYPE_IP :: nat where
  "ETHERTYPE_IP = 0x800"

definition udp_read :: "bool \<Rightarrow> datalink \<Rightarrow> u8 list \<Rightarrow> int \<Rightarrow> checked option" where
  "udp_read le datalink ptr len =
     (case datalink of
        DLT_NULL \<Rightarrow> udp_check le (drop 4 ptr) (len - 4)
      | DLT_EN10MB \<Rightarrow> do {
          ether_type \<leftarrow> host_at False 2 ptr 12;
          if ether_type \<noteq> ETHERTYPE_IP then Some Quit
          else udp_check le (drop 14 ptr) (len - 14)
        }
      | DLT_SLIP \<Rightarrow> udp_check le (drop 24 ptr) (len - 24)
      | DLT_PPP \<Rightarrow> udp_check le (drop 24 ptr) (len - 24)
      | DLT_OTHER _ \<Rightarrow> Some Quit)"

section \<open>The layout of a datagram\<close>

text \<open>The pseudo header, and the UDP header and data with a given checksum field.\<close>

definition udp_pseudo :: "endpoint \<Rightarrow> endpoint \<Rightarrow> nat \<Rightarrow> u8 list" where
  "udp_pseudo local dest n = net_bytes 2 (8 + n) @ ep_addr local @ ep_addr dest"

definition udp_ports :: "endpoint \<Rightarrow> endpoint \<Rightarrow> nat \<Rightarrow> u8 list" where
  "udp_ports local dest n = ep_port local @ ep_port dest @ net_bytes 2 (8 + n)"

definition ep_ok :: "endpoint \<Rightarrow> bool" where
  "ep_ok ep \<longleftrightarrow> length (ep_addr ep) = 4 \<and> length (ep_port ep) = 2"

lemma udp_header_layout:
  assumes "ep_ok local" and "ep_ok dest" and "length hdr = 28"
  shows "udp_header local dest (hdr @ rest) n = Some (replicate 9 0 @ [17] @ udp_pseudo local dest n
    @ udp_ports local dest n @ [0, 0] @ rest)"
proof -
  let ?L = "net_bytes 2 (8 + n)" and ?z = "\<lambda>k. replicate k (0 :: u8)"
  have ep: "length (ep_addr local) = 4" "length (ep_addr dest) = 4" "length (ep_port local) = 2" "length (ep_port dest) = 2"
    using assms(1,2) by (simp_all add: ep_ok_def)
  have z: "?z 28 = ?z 9 @ ?z 1 @ ?z 2 @ ?z 4 @ ?z 4 @ ?z 2 @ ?z 2 @ ?z 2 @ ?z 2"
    by (simp only: replicate_add [symmetric]) simp
  have 0: "memcpy_at (hdr @ rest) 0 (?z 28) = Some (?z 9 @ ?z 1 @ ?z 2 @ ?z 4 @ ?z 4 @ ?z 2 @ ?z 2 @ ?z 2 @ ?z 2 @ rest)"
    using memcpy_at_mid [of 0 "[]" "?z 28" hdr rest] assms(3) unfolding z by simp
  have 1: "memcpy_at (?z 9 @ ?z 1 @ ?z 2 @ X) 10 ?L = Some (?z 9 @ ?z 1 @ ?L @ X)" for X
    using memcpy_at_mid [of 10 "?z 9 @ ?z 1" ?L "?z 2" X] by simp
  have 2: "memcpy_at (?z 9 @ ?z 1 @ X) 9 [17] = Some (?z 9 @ [17] @ X)" for X
    using memcpy_at_mid [of 9 "?z 9" "[17]" "?z 1" X] by simp
  have 3: "memcpy_at (?z 9 @ [17] @ ?L @ ?z 4 @ X) 12 (ep_addr local) = Some (?z 9 @ [17] @ ?L @ ep_addr local @ X)" for X
    using memcpy_at_mid [of 12 "?z 9 @ [17] @ ?L" "ep_addr local" "?z 4" X] ep by simp
  have 4: "memcpy_at (?z 9 @ [17] @ ?L @ ep_addr local @ ?z 4 @ X) 16 (ep_addr dest) =
      Some (?z 9 @ [17] @ ?L @ ep_addr local @ ep_addr dest @ X)" for X
    using memcpy_at_mid [of 16 "?z 9 @ [17] @ ?L @ ep_addr local" "ep_addr dest" "?z 4" X] ep by simp
  let ?H = "?z 9 @ [17] @ ?L @ ep_addr local @ ep_addr dest"
  have H: "length ?H = 20"
    using ep by simp
  have 5: "memcpy_at (?z 9 @ [17] @ ?L @ ep_addr local @ ep_addr dest @ ?z 2 @ X) 20 (ep_port local) =
      Some (?z 9 @ [17] @ ?L @ ep_addr local @ ep_addr dest @ ep_port local @ X)" for X
    using memcpy_at_mid [of 20 ?H "ep_port local" "?z 2" X] ep H by simp
  have 6: "memcpy_at (?z 9 @ [17] @ ?L @ ep_addr local @ ep_addr dest @ ep_port local @ ?z 2 @ X) 22 (ep_port dest) =
      Some (?z 9 @ [17] @ ?L @ ep_addr local @ ep_addr dest @ ep_port local @ ep_port dest @ X)" for X
    using memcpy_at_mid [of 22 "?H @ ep_port local" "ep_port dest" "?z 2" X] ep H by simp
  have 7: "bytes_at (?z 9 @ [17] @ ?L @ X) 10 2 = Some ?L" for X
    using bytes_at_mid [of 10 "?z 9 @ [17]" 2 ?L X] by simp
  have 8: "memcpy_at (?z 9 @ [17] @ ?L @ ep_addr local @ ep_addr dest @ ep_port local @ ep_port dest @ ?z 2 @ X) 24 ?L =
      Some (?z 9 @ [17] @ ?L @ ep_addr local @ ep_addr dest @ ep_port local @ ep_port dest @ ?L @ X)" for X
    using memcpy_at_mid [of 24 "?H @ ep_port local @ ep_port dest" ?L "?z 2" X] ep H by simp
  have "?z 2 = [0, 0]"
    by (simp add: numeral_2_eq_2)
  then show ?thesis
    unfolding udp_header_def sizeof_udpiphdr_def IPPROTO_UDP_def of_nat_numeral 0 Option.bind.bind_lunit 1 2 3 4 5 6 7 8
    by (simp only: udp_pseudo_def udp_ports_def append.assoc)
qed


definition udp_datagram :: "endpoint \<Rightarrow> endpoint \<Rightarrow> nat \<Rightarrow> u8 list \<Rightarrow> u8 list \<Rightarrow> u8 list" where
  "udp_datagram local dest n ck user =
     [0x45, 0] @ net_bytes 2 (n + 28) @ [0, 0] @ [0, 0] @ [TTL_OUT] @ [17]
       @ udp_pseudo local dest n @ udp_ports local dest n @ ck @ user"

lemma length_udp_parts:
  assumes "ep_ok local" and "ep_ok dest"
  shows "length (udp_pseudo local dest n) = 10" "length (udp_ports local dest n) = 6"
  using assms by (simp_all add: udp_pseudo_def udp_ports_def ep_ok_def)

lemma length_put_cksum [simp]: "length (put_cksum le c) = 2"
  by (simp add: put_cksum_def)

lemma ip_rest_layout:
  "ip_rest (replicate 9 0 @ X) k = Some ([0x45, 0] @ net_bytes 2 k @ [0, 0] @ [0, 0] @ [TTL_OUT] @ X)"
proof -
  let ?z = "\<lambda>k. replicate k (0 :: u8)" and ?N = "net_bytes 2 k"
  have z: "?z 9 = [0] @ [0] @ ?z 2 @ ?z 2 @ ?z 2 @ [0]"
    by (simp add: eval_nat_numeral)
  have 0: "memcpy_at (?z 9 @ X) 0 [0x45] = Some ([0x45] @ [0] @ ?z 2 @ ?z 2 @ ?z 2 @ [0] @ X)"
    unfolding z using memcpy_at_mid [of 0 "[]" "[0x45]" "[0]"] by simp
  have 1: "memcpy_at ([0x45] @ [0] @ Y) 1 [0] = Some ([0x45, 0] @ Y)" for Y
    using memcpy_at_mid [of 1 "[0x45]" "[0]" "[0]" Y] by simp
  have 2: "memcpy_at ([0x45, 0] @ ?z 2 @ Y) 2 ?N = Some ([0x45, 0] @ ?N @ Y)" for Y
    using memcpy_at_mid [of 2 "[0x45, 0]" ?N "?z 2" Y] by simp
  have 3: "memcpy_at ([0x45, 0] @ ?N @ ?z 2 @ Y) 4 [0, 0] = Some ([0x45, 0] @ ?N @ [0, 0] @ Y)" for Y
    using memcpy_at_mid [of 4 "[0x45, 0] @ ?N" "[0, 0]" "?z 2" Y] by simp
  have 4: "memcpy_at ([0x45, 0] @ ?N @ [0, 0] @ ?z 2 @ Y) 6 [0, 0] = Some ([0x45, 0] @ ?N @ [0, 0] @ [0, 0] @ Y)" for Y
    using memcpy_at_mid [of 6 "[0x45, 0] @ ?N @ [0, 0]" "[0, 0]" "?z 2" Y] by simp
  have 5: "memcpy_at ([0x45, 0] @ ?N @ [0, 0] @ [0, 0] @ [0] @ Y) 8 [TTL_OUT] = Some ([0x45, 0] @ ?N @ [0, 0] @ [0, 0] @ [TTL_OUT] @ Y)" for Y
    using memcpy_at_mid [of 8 "[0x45, 0] @ ?N @ [0, 0] @ [0, 0]" "[TTL_OUT]" "[0]" Y] by simp
  show ?thesis
    unfolding ip_rest_def 0 Option.bind.bind_lunit 1 2 3 4 5 ..
qed

text \<open>The checksum covers the pseudo header, laid over the IP header, and the datagram.\<close>

lemma udp_sum_layout:
  assumes "length X = 16" and "length user = n" and "n \<le> 65507"
  obtains c where "udp_sum le (replicate 9 0 @ [17] @ X @ [0, 0] @ user @ rest) (n + 28) =
      Some (replicate 9 0 @ [17] @ X @ put_cksum le c @ user @ rest)"
    and "in_cksum le (replicate 9 0 @ [17] @ X @ put_cksum le c @ user) (int (n + 28)) = Some 0"
    and "c \<noteq> 0"
proof -
  let ?P = "replicate 9 0 @ [17] @ X"
  have P: "length ?P = 26"
    using assms(1) by simp
  then obtain d where d: "in_cksum le (?P @ [0, 0] @ user) (int (length (?P @ [0, 0] @ user))) = Some d"
    and v: "in_cksum le (?P @ put_cksum le (if d = 0 then 0xffff else d) @ user)
      (int (length (?P @ put_cksum le (if d = 0 then 0xffff else d) @ user))) = Some 0"
    using ip.seal_nonzero [of ?P user le] assms(2,3) by auto
  have small: "length (?P @ [0, 0] @ user) \<le> 131074"
    using P assms(2,3) by simp
  have len: "length (?P @ ck @ user) = n + 28" if "length ck = 2" for ck
    using P assms(2) that by simp
  have l0: "length (?P @ [0, 0] @ user) = n + 28"
    using len [of "[0, 0]"] by simp
  have "in_cksum le ((?P @ [0, 0] @ user) @ rest) (int (n + 28)) = Some d"
    using in_cksum_prefix [OF small, of le rest] d unfolding l0 by (simp only:)
  moreover have st: "memcpy_at (?P @ x @ user @ rest) 26 y = Some (?P @ y @ user @ rest)"
    if "length x = 2" "length y = 2" for x y
    using memcpy_at_mid [of 26 ?P y x "user @ rest"] P that by simp
  ultimately have "udp_sum le (?P @ [0, 0] @ user @ rest) (n + 28) =
      Some (?P @ put_cksum le (if d = 0 then 0xffff else d) @ user @ rest)"
    using st [of "[0, 0]" "put_cksum le d"] st [of "put_cksum le 0" "put_cksum le 0xffff"]
    by (cases "d = 0") (simp_all add: udp_sum_def)
  moreover have "in_cksum le (?P @ put_cksum le (if d = 0 then 0xffff else d) @ user) (int (n + 28)) = Some 0"
    using v len [of "put_cksum le (if d = 0 then 0xffff else d)"] by (simp only: length_put_cksum)
  ultimately show thesis
    using that [of "if d = 0 then 0xffff else d"] by (simp add: append.assoc)
qed

lemma udp_write_layout:
  assumes "ep_ok local" and "ep_ok dest" and "length hdr = 28" and "length user = n" and "n \<le> 65507"
  obtains c where "udp_write le local dest False (hdr @ user @ rest) n =
      Some (udp_datagram local dest n (put_cksum le c) user)"
    and "in_cksum le (replicate 9 0 @ [17] @ udp_pseudo local dest n @ udp_ports local dest n
      @ put_cksum le c @ user) (int (n + 28)) = Some 0"
    and "c \<noteq> 0"
proof -
  have len: "length (udp_pseudo local dest n @ udp_ports local dest n) = 16"
    using length_udp_parts [OF assms(1,2)] by simp
  obtain c where c: "udp_sum le (replicate 9 0 @ [17] @ (udp_pseudo local dest n @ udp_ports local dest n) @ [0, 0] @ user @ rest) (n + 28) =
      Some (replicate 9 0 @ [17] @ (udp_pseudo local dest n @ udp_ports local dest n) @ put_cksum le c @ user @ rest)"
    and v: "in_cksum le (replicate 9 0 @ [17] @ (udp_pseudo local dest n @ udp_ports local dest n) @ put_cksum le c @ user) (int (n + 28)) = Some 0"
    and c0: "c \<noteq> 0"
    using udp_sum_layout [OF len assms(4,5)] .
  have "bytes_at (udp_datagram local dest n (put_cksum le c) user @ rest) 0 (n + 28) =
      Some (udp_datagram local dest n (put_cksum le c) user)"
    using bytes_at_mid [of 0 "[]" "n + 28" "udp_datagram local dest n (put_cksum le c) user" rest] len assms(4)
    by (simp add: udp_datagram_def)
  then have "udp_write le local dest False (hdr @ user @ rest) n = Some (udp_datagram local dest n (put_cksum le c) user)"
    using c udp_header_layout [OF assms(1-3), of "user @ rest" n]
      ip_rest_layout [of "[17] @ (udp_pseudo local dest n @ udp_ports local dest n) @ put_cksum le c @ user @ rest" "n + 28"]
    by (simp add: udp_write_def sizeof_udpiphdr_def udp_datagram_def)
  then show thesis
    using that v c0 by (simp add: append.assoc)
qed

section \<open>The header check\<close>

lemma below_size_nonneg:
  assumes "sz < 2 ^ 64" and "n < 2 ^ 63"
  shows "below_size (int n) sz \<longleftrightarrow> n < sz"
proof -
  have "unat (of_nat n :: u64) = n" "unat (of_nat sz :: u64) = sz"
    using assms by (simp_all add: unat_of_nat)
  then show ?thesis
    by (simp add: below_size_def word_less_nat_alt)
qed

lemma udp_check_accepts:
  assumes "length hdr = 20" and "unat (hdr ! 0) = 0x45" and "unat (hdr ! 9) = 17"
    and "in_cksum le hdr 20 = Some 0" and "28 \<le> n" and "n < 2 ^ 63"
  shows "\<exists>m. udp_check le (hdr @ rest) (int n) = Some (Accept m)"
proof -
  have "hdr @ rest \<noteq> []"
    using assms(1) by auto
  have ck: "in_cksum le (hdr @ rest) 20 = Some 0"
    using in_cksum_prefix [of hdr le rest] assms(1,4) by simp
  have 0: "u8_at (hdr @ rest) 0 = Some 0x45"
    using u8_at_mid [of 0 hdr rest] assms(1,2) by simp
  obtain m where m: "memcpy_at (hdr @ rest) 10 (put_cksum le 0) = Some m"
    using assms(1) by (simp add: memcpy_at_def)
  have "m ! 9 = hdr ! 9" "9 < length m"
    using m assms(1) by (auto simp: memcpy_at_def nth_append split: if_splits)
  then have "u8_at m 9 = Some 17"
    using assms(3) by (simp add: u8_at_eq)
  then show ?thesis
    using 0 ck m assms(5,6) below_size_nonneg [of _ n]
    by (simp add: udp_check_def IPPROTO_UDP_def)
qed

text \<open>The first ten bytes of the IP header, and a datagram cut behind them.\<close>

definition ip_head :: "nat \<Rightarrow> u8 list" where
  "ip_head n = [0x45, 0] @ net_bytes 2 (n + 28) @ [0, 0] @ [0, 0] @ [TTL_OUT] @ [17]"

lemma ip_head_nth: "length (ip_head n) = 10" "ip_head n ! 0 = 0x45" "ip_head n ! 9 = 17"
  by (simp_all add: ip_head_def nth_append)

declare ip_head_nth(1) [simp]

lemma datagram_split:
  "udp_datagram local dest n ck user =
    ip_head n @ net_bytes 2 (8 + n) @ (ep_addr local @ ep_addr dest) @ udp_ports local dest n @ ck @ user"
  by (simp add: udp_datagram_def ip_head_def udp_pseudo_def)

lemma udp_write_shape:
  assumes "ep_ok local" and "ep_ok dest" and "length hdr = 28" and "length user \<le> 65507"
  shows "\<exists>ck. udp_write le local dest zerosum (hdr @ user) (length user) =
      Some (udp_datagram local dest (length user) ck user) \<and> length ck = 2"
proof (cases zerosum)
  case True
  have "bytes_at (udp_datagram local dest (length user) [0, 0] user) 0 (length user + 28) =
      Some (udp_datagram local dest (length user) [0, 0] user)"
    using bytes_at_mid [of 0 "[]" "length user + 28" "udp_datagram local dest (length user) [0, 0] user" "[]"]
      length_udp_parts [OF assms(1,2)] by (simp add: udp_datagram_def)
  then show ?thesis
    using True udp_header_layout [OF assms(1-3), of user "length user"]
      ip_rest_layout [of "[17] @ udp_pseudo local dest (length user) @ udp_ports local dest (length user) @ [0, 0] @ user"]
    by (simp add: udp_write_def sizeof_udpiphdr_def udp_datagram_def)
next
  case False
  obtain c where "udp_write le local dest False (hdr @ user @ []) (length user) =
      Some (udp_datagram local dest (length user) (put_cksum le c) user)"
    using udp_write_layout [OF assms(1-3) refl assms(4)] .
  with False show ?thesis
    by auto
qed

text \<open>The checksum of the 20 header bytes, with the field at offset 10 taken as zero, seals the header.\<close>

lemma header_sealed:
  assumes "ep_ok local" and "ep_ok dest"
  shows "\<exists>c. in_cksum le (ip_head n @ [0, 0] @ ep_addr local @ ep_addr dest) 20 = Some c
    \<and> in_cksum le (ip_head n @ put_cksum le c @ ep_addr local @ ep_addr dest) 20 = Some 0"
proof -
  have addrs: "length (ep_addr local @ ep_addr dest) = 8"
    using assms by (simp add: ep_ok_def)
  have "length (ip_head n @ x @ ep_addr local @ ep_addr dest) = 20" if "length x = 2" for x :: "u8 list"
    using addrs that by simp
  from this [of "[0, 0]"] this [of "put_cksum le _"] show ?thesis
    using ip.seal [of "ip_head n" "ep_addr local @ ep_addr dest" le] addrs by fastforce
qed

lemma onwire_accepted:
  assumes "ep_ok local" and "ep_ok dest" and "length user \<le> 65507" and "length ck = 2"
  defines "pkt \<equiv> udp_datagram local dest (length user) ck user"
  shows "\<exists>c. in_cksum le (take 10 pkt @ [0, 0] @ take 8 (drop 12 pkt)) 20 = Some c
    \<and> (\<exists>m. udp_check le (take 10 pkt @ put_cksum le c @ drop 12 pkt) (int (length (take 10 pkt @ put_cksum le c @ drop 12 pkt))) = Some (Accept m))"
proof -
  let ?n = "length user"
  have take: "take 10 pkt = ip_head ?n"
    by (simp add: pkt_def datagram_split take_prefix)
  have tail: "take 8 (drop 12 pkt) = ep_addr local @ ep_addr dest"
    "drop 12 pkt = (ep_addr local @ ep_addr dest) @ udp_ports local dest ?n @ ck @ user"
    using assms(1,2) by (simp_all add: pkt_def datagram_split ep_ok_def take_prefix)
  have addrs: "length (ep_addr local @ ep_addr dest) = 8"
    using assms(1,2) by (simp add: ep_ok_def)
  obtain c where c: "in_cksum le (ip_head ?n @ [0, 0] @ ep_addr local @ ep_addr dest) 20 = Some c"
    and v: "in_cksum le (ip_head ?n @ put_cksum le c @ ep_addr local @ ep_addr dest) 20 = Some 0"
    using header_sealed [OF assms(1,2), of le ?n] by blast
  let ?hdr = "ip_head ?n @ put_cksum le c @ ep_addr local @ ep_addr dest"
  define onwire where "onwire = take 10 pkt @ put_cksum le c @ drop 12 pkt"
  have onwire: "onwire = ?hdr @ udp_ports local dest ?n @ ck @ user"
    unfolding onwire_def take tail by simp
  have len: "length onwire = ?n + 28"
    unfolding onwire using addrs assms(4) length_udp_parts [OF assms(1,2)] by simp
  have "\<exists>m. udp_check le onwire (int (length onwire)) = Some (Accept m)"
    unfolding onwire
  proof (rule udp_check_accepts)
    show "length ?hdr = 20"
      using addrs by simp
    show "unat (?hdr ! 0) = 0x45" "unat (?hdr ! 9) = 17"
      by (simp_all add: ip_head_nth nth_append)
    show "in_cksum le ?hdr 20 = Some 0"
      by (rule v)
  qed (use len assms(3) in \<open>simp_all add: onwire\<close>)
  then show ?thesis
    using c unfolding take tail(1) onwire_def by blast
qed

section \<open>Properties\<close>

text \<open>
  (C28) \<^verbatim>\<open>udp_write\<close> sends a correct datagram for every user length up to the largest UDP allows:
  header fields, addresses, ports and data are where the protocol wants them, the checksum over
  pseudo header, UDP header and data verifies, and it is never the value 0 that means no checksum.
\<close>

theorem udp_write_correct:
  assumes "ep_ok local" and "ep_ok dest" and "length hdr = 28" and "length user \<le> 65507"
  shows "\<exists>c. udp_write le local dest False (hdr @ user) (length user) =
      Some (udp_datagram local dest (length user) (put_cksum le c) user)
    \<and> in_cksum le (replicate 9 0 @ [17] @ drop 10 (udp_datagram local dest (length user) (put_cksum le c) user))
        (int (length user + 28)) = Some 0
    \<and> c \<noteq> 0"
  using udp_write_layout [OF assms(1-3) refl assms(4), of le "[]"] by (auto simp: udp_datagram_def)

definition ep_example :: endpoint where
  "ep_example = \<lparr>ep_addr = [127, 0, 0, 1], ep_port = [0, 53]\<rparr>"

theorem udp_write_correct_witness:
  "\<exists>c. udp_write True ep_example ep_example False (replicate 28 9 @ [1, 2, 3]) (length [1, 2, 3 :: u8]) =
      Some (udp_datagram ep_example ep_example (length [1, 2, 3 :: u8]) (put_cksum True c) [1, 2, 3])
    \<and> in_cksum True (replicate 9 0 @ [17] @ drop 10 (udp_datagram ep_example ep_example (length [1, 2, 3 :: u8])
        (put_cksum True c) [1, 2, 3])) (int (length [1, 2, 3 :: u8] + 28)) = Some 0
    \<and> c \<noteq> 0"
  by (rule udp_write_correct) (simp_all add: ep_example_def ep_ok_def)

text \<open>
  (C29) What \<^verbatim>\<open>udp_write\<close> sends passes \<^verbatim>\<open>udp_read\<close> at the other end: once the kernel has stored the
  header checksum over the 20 header bytes (the field was used for the pseudo header), the receiver
  accepts the packet on every supported link type.
\<close>

theorem udp_write_read:
  assumes "ep_ok local" and "ep_ok dest" and "length hdr = 28" and "length user \<le> 65507"
    and "length eth = 12"
  shows "\<exists>pkt c. udp_write le local dest zerosum (hdr @ user) (length user) = Some pkt
    \<and> in_cksum le (take 10 pkt @ [0, 0] @ take 8 (drop 12 pkt)) 20 = Some c
    \<and> (let onwire = take 10 pkt @ put_cksum le c @ drop 12 pkt in
       (\<exists>m. udp_read le DLT_EN10MB (eth @ [8, 0] @ onwire) (int (14 + length onwire)) = Some (Accept m))
       \<and> (\<exists>m. udp_read le DLT_NULL ([2, 0, 0, 0] @ onwire) (int (4 + length onwire)) = Some (Accept m)))"
proof -
  let ?n = "length user"
  obtain ck where pkt: "udp_write le local dest zerosum (hdr @ user) ?n = Some (udp_datagram local dest ?n ck user)"
    and ck: "length ck = 2"
    using udp_write_shape [OF assms(1-4)] by blast
  let ?pkt = "udp_datagram local dest ?n ck user"
  obtain c where c: "in_cksum le (take 10 ?pkt @ [0, 0] @ take 8 (drop 12 ?pkt)) 20 = Some c"
    and accept: "\<exists>m. udp_check le (take 10 ?pkt @ put_cksum le c @ drop 12 ?pkt) (int (length (take 10 ?pkt @ put_cksum le c @ drop 12 ?pkt))) = Some (Accept m)"
    using onwire_accepted [OF assms(1,2,4) ck] by blast
  define onwire where "onwire = take 10 ?pkt @ put_cksum le c @ drop 12 ?pkt"
  have "host_at False 2 (eth @ [8, 0] @ onwire) 12 = Some ETHERTYPE_IP"
    using bytes_at_mid [of 12 eth 2 "[8, 0]" onwire] assms(5)
    by (simp add: host_at_def host_val_def ETHERTYPE_IP_def)
  then have "\<exists>m. udp_read le DLT_EN10MB (eth @ [8, 0] @ onwire) (int (14 + length onwire)) = Some (Accept m)"
    using accept [folded onwire_def] assms(5) by (simp add: udp_read_def)
  moreover have "\<exists>m. udp_read le DLT_NULL ([2, 0, 0, 0] @ onwire) (int (4 + length onwire)) = Some (Accept m)"
    using accept [folded onwire_def] by (simp add: udp_read_def)
  ultimately show ?thesis
    using pkt c unfolding Let_def onwire_def by blast
qed

theorem udp_write_read_witness:
  "\<exists>pkt c. udp_write True ep_example ep_example True (replicate 28 9 @ [1, 2, 3]) (length [1, 2, 3 :: u8]) = Some pkt
    \<and> in_cksum True (take 10 pkt @ [0, 0] @ take 8 (drop 12 pkt)) 20 = Some c
    \<and> (let onwire = take 10 pkt @ put_cksum True c @ drop 12 pkt in
       (\<exists>m. udp_read True DLT_EN10MB (replicate 12 7 @ [8, 0] @ onwire) (int (14 + length onwire)) = Some (Accept m))
       \<and> (\<exists>m. udp_read True DLT_NULL ([2, 0, 0, 0] @ onwire) (int (4 + length onwire)) = Some (Accept m)))"
  by (rule udp_write_read) (simp_all add: ep_example_def ep_ok_def)

text \<open>
  The length tests of \<^verbatim>\<open>udp_check\<close> compare a signed length with \<^verbatim>\<open>sizeof\<close>, so they stop
  every packet that is too short except one that is shorter than its link header: then the length
  is negative, all tests pass as if it were huge, and memory behind the packet is read.
\<close>

theorem udp_check_length:
  assumes "n < 28" and "k < 4"
  shows "udp_check le m (int n) = Some Quit \<and> udp_read le DLT_NULL (replicate k 0) (int k) = None"
proof -
  have "k = 0 \<or> k = 1 \<or> k = 2 \<or> k = 3"
    using assms(2) by linarith
  then have "\<not> below_size (int k - 4) 28"
    by (elim disjE)
      (simp_all add: below_size_def word_less_def unsigned_minus_1_eq_mask mask_eq_exp_minus_1)
  then have "udp_read le DLT_NULL (replicate k 0) (int k) = None"
    using assms(2) by (simp add: udp_read_def udp_check_def u8_at_eq)
  moreover have "udp_check le m (int n) = Some Quit"
    using below_size_nonneg [of 28 n] assms(1) by (simp add: udp_check_def)
  ultimately show ?thesis
    by simp
qed

theorem udp_check_length_witness:
  "udp_check True [] (int 27) = Some Quit \<and> udp_read True DLT_NULL (replicate 3 0) (int 3) = None"
  by (rule udp_check_length) simp_all

end
