(* ===== verification/Traceroute.thy ===== *)
theory Traceroute
  imports Ping
begin

text \<open>
  The \<^verbatim>\<open>traceroute\<close> program: recognising the ICMP errors that answer a probe (\<^verbatim>\<open>recv_v4\<close>, \<^verbatim>\<open>recv_v6\<close>)
  and the loop over hop limits and probes (\<^verbatim>\<open>traceloop\<close>).
\<close>

section \<open>One received packet\<close>

definition ICMP_TIMXCEED :: nat where
  "ICMP_TIMXCEED = 11"

definition ICMP_TIMXCEED_INTRANS :: nat where
  "ICMP_TIMXCEED_INTRANS = 0"

definition ICMP_UNREACH :: nat where
  "ICMP_UNREACH = 3"

definition ICMP_UNREACH_PORT :: nat where
  "ICMP_UNREACH_PORT = 3"

definition ICMP6_TIME_EXCEEDED :: nat where
  "ICMP6_TIME_EXCEEDED = 3"

definition ICMP6_TIME_EXCEED_TRANSIT :: nat where
  "ICMP6_TIME_EXCEED_TRANSIT = 0"

definition ICMP6_DST_UNREACH :: nat where
  "ICMP6_DST_UNREACH = 1"

definition ICMP6_DST_UNREACH_NOPORT :: nat where
  "ICMP6_DST_UNREACH_NOPORT = 4"

text \<open>
  The decision about a packet: leave the loop with a value of \<^verbatim>\<open>ret\<close> (\<^term>\<open>None\<close> inside \<open>Break\<close> is an
  uninitialised \<^verbatim>\<open>ret\<close>), or receive again. An access outside the memory is \<^term>\<open>None\<close>.
\<close>

datatype verdict = Break "int option" | Again

text \<open>
  The test of the quoted UDP header: protocol, source port and destination port. \<^verbatim>\<open>&&\<close> reads the
  ports only if the protocol is UDP.
\<close>

definition quotes_probe :: "nat \<Rightarrow> nat \<Rightarrow> nat \<Rightarrow> u8 list \<Rightarrow> nat \<Rightarrow> nat \<Rightarrow> bool option" where
  "quotes_probe sport dport sq buf proto_at udp = do {
     p \<leftarrow> u8_at buf proto_at;
     if p \<noteq> IPPROTO_UDP then Some False
     else do {
       sp \<leftarrow> host_at False 2 buf udp;
       if sp \<noteq> sport then Some False
       else do {
         dp \<leftarrow> host_at False 2 buf (udp + 2);
         Some (dp = (dport + sq) mod 65536)
       }
     }
   }"

definition recv_v4_packet :: "nat \<Rightarrow> nat \<Rightarrow> nat \<Rightarrow> u8 list \<Rightarrow> int \<Rightarrow> verdict option" where
  "recv_v4_packet sport dport sq recvbuf n = do {
     b0 \<leftarrow> u8_at recvbuf 0;
     let hlen1 = (b0 mod 16) * 4;
     let icmplen = n - int hlen1;
     if icmplen < 8 then Some Again
     else do {
       typ \<leftarrow> u8_at recvbuf hlen1;
       code \<leftarrow> u8_at recvbuf (hlen1 + 1);
       if typ = ICMP_TIMXCEED \<and> code = ICMP_TIMXCEED_INTRANS then
         if icmplen < 8 + 20 then Some Again
         else do {
           b \<leftarrow> u8_at recvbuf (hlen1 + 8);
           let hlen2 = (b mod 16) * 4;
           if icmplen < 8 + int hlen2 + 4 then Some Again
           else do {
             ours \<leftarrow> quotes_probe sport dport sq recvbuf (hlen1 + 8 + 9) (hlen1 + 8 + hlen2);
             Some (if ours then Break (Some (-2)) else Again)
           }
         }
       else if typ = ICMP_UNREACH then
         if icmplen < 8 + 20 then Some Again
         else do {
           b \<leftarrow> u8_at recvbuf (hlen1 + 8);
           let hlen2 = (b mod 16) * 4;
           if icmplen < 8 + int hlen2 + 4 then Some Again
           else do {
             ours \<leftarrow> quotes_probe sport dport sq recvbuf (hlen1 + 8 + 9) (hlen1 + 8 + hlen2);
             Some (if ours then Break (Some (if code = ICMP_UNREACH_PORT then -1 else int code)) else Again)
           }
         }
       else Some Again
     }
   }"

definition recv_v6_packet :: "nat \<Rightarrow> nat \<Rightarrow> nat \<Rightarrow> u8 list \<Rightarrow> int \<Rightarrow> verdict option" where
  "recv_v6_packet sport dport sq recvbuf n =
     (let icmp6len = n in
      if icmp6len < 8 then Some Again
      else do {
        typ \<leftarrow> u8_at recvbuf 0;
        code \<leftarrow> u8_at recvbuf 1;
        if typ = ICMP6_TIME_EXCEEDED \<and> code = ICMP6_TIME_EXCEED_TRANSIT then
          if icmp6len < 8 + 40 + 4 then Some Again
          else do {
            ours \<leftarrow> quotes_probe sport dport sq recvbuf (8 + 6) (8 + 40);
            Some (Break (if ours then Some (-2) else None))
          }
        else if typ = ICMP6_DST_UNREACH then
          if icmp6len < 8 + 40 + 4 then Some Again
          else do {
            ours \<leftarrow> quotes_probe sport dport sq recvbuf (8 + 6) (8 + 40);
            Some (if ours then Break (Some (if code = ICMP6_DST_UNREACH_NOPORT then -1 else int code))
                  else Again)
          }
        else Some Again
      })"

section \<open>The receive loops\<close>

text \<open>
  One return of \<^verbatim>\<open>recvfrom\<close>: an error, or a packet with the contents of \<^verbatim>\<open>recvbuf\<close> and its length;
  the flag says whether \<^verbatim>\<open>SIGALRM\<close> arrived meanwhile, which sets \<^verbatim>\<open>gotalarm\<close>.
\<close>

datatype rcv = Rcv_err errno | Rcv "u8 list" int

text \<open>
  Both functions share the loop; they return, exit by \<^verbatim>\<open>err_sys\<close>, or block when no further packet
  or signal comes. A returned \<^term>\<open>None\<close> is an indeterminate value.
\<close>

fun recv_loop ::
  "(u8 list \<Rightarrow> int \<Rightarrow> verdict option) \<Rightarrow> bool \<Rightarrow> (bool \<times> rcv) list \<Rightarrow> int option outcome option" where
  "recv_loop pkt True rs = Some (Ret (Some (-3)))"
| "recv_loop pkt False [] = Some Blocks"
| "recv_loop pkt False ((alarm, Rcv_err e) # rs) =
     (if e = EINTR then recv_loop pkt alarm rs else Some (Exits ''recvfrom error''))"
| "recv_loop pkt False ((alarm, Rcv buf n) # rs) =
     (case pkt buf n of
        None \<Rightarrow> None
      | Some (Break ret) \<Rightarrow> Some (Ret ret)
      | Some Again \<Rightarrow> recv_loop pkt alarm rs)"

definition recv_v4 :: "nat \<Rightarrow> nat \<Rightarrow> nat \<Rightarrow> (bool \<times> rcv) list \<Rightarrow> int option outcome option" where
  "recv_v4 sport dport sq rs = recv_loop (recv_v4_packet sport dport sq) False rs"

definition recv_v6 :: "nat \<Rightarrow> nat \<Rightarrow> nat \<Rightarrow> (bool \<times> rcv) list \<Rightarrow> int option outcome option" where
  "recv_v6 sport dport sq rs = recv_loop (recv_v6_packet sport dport sq) False rs"

section \<open>The probe loop\<close>

text \<open>
  A probe sent: the hop limit, the sequence number and the destination port. The replies, one per
  probe, are the codes of \<^verbatim>\<open>recv\<close>; \<open>replies\<close> gives the code for a sequence number.
\<close>

record probe =
  p_ttl :: nat
  p_seq :: nat
  p_dport :: nat

fun trace_probes :: "nat \<Rightarrow> (nat \<Rightarrow> int) \<Rightarrow> nat \<Rightarrow> nat \<Rightarrow> nat \<Rightarrow> nat \<Rightarrow> probe list \<times> nat \<times> nat" where
  "trace_probes dport replies ttl 0 sq done = ([], sq, done)"
| "trace_probes dport replies ttl (Suc k) sq done =
     (let sq = sq + 1;
          p = \<lparr>p_ttl = ttl, p_seq = sq mod 65536, p_dport = (dport + sq) mod 65536\<rparr>;
          done = (if replies sq = -1 then done + 1 else done);
          (ps, sq, done) = trace_probes dport replies ttl k sq done
      in (p # ps, sq, done))"

function trace_ttls :: "nat \<Rightarrow> (nat \<Rightarrow> int) \<Rightarrow> nat \<Rightarrow> nat \<Rightarrow> nat \<Rightarrow> nat \<Rightarrow> nat \<Rightarrow> probe list" where
  "trace_ttls dport replies nprobes max_ttl ttl sq done =
     (if ttl \<le> max_ttl \<and> done = 0 then
        (case trace_probes dport replies ttl nprobes sq done of
           (ps, sq, done) \<Rightarrow> ps @ trace_ttls dport replies nprobes max_ttl (ttl + 1) sq done)
      else [])"
  by pat_completeness auto
termination
  by (relation "measure (\<lambda>(dport, replies, nprobes, max_ttl, ttl, sq, done). Suc max_ttl - ttl)") auto

declare trace_ttls.simps [simp del]

definition traceloop :: "nat \<Rightarrow> (nat \<Rightarrow> int) \<Rightarrow> nat \<Rightarrow> nat \<Rightarrow> probe list" where
  "traceloop dport replies nprobes max_ttl = trace_ttls dport replies nprobes max_ttl 1 0 0"

section \<open>Lemmas\<close>

text \<open>Reads below the length of the buffer succeed.\<close>

lemma u8_at_in: "i < length m \<Longrightarrow> \<exists>b < 256. u8_at m i = Some b"
  by (auto simp: u8_at_eq unat_u8_less)

lemma quotes_probe_in:
  assumes "i < length m" and "j + 4 \<le> length m"
  shows "quotes_probe sport dport sq m i j \<noteq> None"
proof -
  obtain p where "u8_at m i = Some p"
    using u8_at_in [OF assms(1)] by auto
  moreover obtain v where "host_at False 2 m j = Some v"
    using host_at_None [of False 2 m j] assms(2) by auto
  moreover obtain w where "host_at False 2 m (j + 2) = Some w"
    using host_at_None [of False 2 m "j + 2"] assms(2) by auto
  ultimately show ?thesis
    by (simp add: quotes_probe_def del: not_None_eq)
qed

lemma recv_v4_packet_in:
  assumes "m \<noteq> []"
  shows "recv_v4_packet sport dport sq m (int (length m)) \<noteq> None"
proof -
  have "0 < length m"
    using assms by simp
  then obtain b0 where b0: "u8_at m 0 = Some b0"
    using u8_at_in by blast
  define h1 where "h1 = (b0 mod 16) * 4"
  show ?thesis
  proof (cases "int (length m) - int h1 < 8")
    case True
    then show ?thesis
      using b0 unfolding h1_def by (simp add: recv_v4_packet_def Let_def del: not_None_eq)
  next
    case False
    then obtain t c where tc: "u8_at m h1 = Some t" "u8_at m (h1 + 1) = Some c"
      using u8_at_in [of h1 m] u8_at_in [of "h1 + 1" m] by auto
    show ?thesis
    proof (cases "int (length m) - int h1 < 28")
      case True
      then show ?thesis
        using b0 tc False unfolding h1_def by (simp add: recv_v4_packet_def Let_def del: not_None_eq)
    next
      case long: False
      then obtain b where b: "u8_at m (h1 + 8) = Some b"
        using u8_at_in [of "h1 + 8" m] by auto
      define h2 where "h2 = (b mod 16) * 4"
      have "quotes_probe sport dport sq m (h1 + 8 + 9) (h1 + 8 + h2) \<noteq> None"
        if "\<not> int (length m) - int h1 < 8 + int h2 + 4"
        using that long by (intro quotes_probe_in) auto
      then show ?thesis
        using b0 tc b False long unfolding h1_def h2_def
        by (cases "quotes_probe sport dport sq m (h1 + 8 + 9) (h1 + 8 + h2)")
          (auto simp: recv_v4_packet_def Let_def h1_def h2_def simp del: not_None_eq)
    qed
  qed
qed

lemma recv_v6_packet_in: "recv_v6_packet sport dport sq m (int (length m)) \<noteq> None"
proof (cases "length m < 8")
  case False
  then obtain t c where "u8_at m 0 = Some t" "u8_at m 1 = Some c"
    using u8_at_in [of 0 m] u8_at_in [of 1 m] by fastforce
  moreover have "quotes_probe sport dport sq m 14 48 \<noteq> None" if "52 \<le> length m"
    using that by (intro quotes_probe_in) auto
  ultimately show ?thesis
    by (cases "length m < 52"; cases "quotes_probe sport dport sq m 14 48")
      (simp_all add: recv_v6_packet_def Let_def del: not_None_eq)
qed (simp add: recv_v6_packet_def)

lemma recv_loop_in:
  assumes "\<And>m. P m \<Longrightarrow> pkt m (int (length m)) \<noteq> None"
    and "\<And>al m n. (al, Rcv m n) \<in> set rs \<Longrightarrow> n = int (length m) \<and> P m"
  shows "recv_loop pkt al rs \<noteq> None"
  using assms(2)
proof (induction rs arbitrary: al)
  case Nil
  then show ?case
    by (cases al) simp_all
next
  case (Cons r rs)
  obtain a x where r: "r = (a, x)"
    by force
  show ?case
  proof (cases x)
    case (Rcv m n)
    then have "pkt m n \<noteq> None"
      using assms(1) Cons.prems [of a m n] r by (simp del: not_None_eq)
    moreover have "recv_loop pkt a rs \<noteq> None"
      using Cons.IH Cons.prems by (meson list.set_intros(2))
    ultimately show ?thesis
      using r Rcv by (cases al) (auto split: verdict.splits)
  qed (use Cons r in \<open>cases al; auto\<close>)
qed

text \<open>A probe quoted behind a prefix is recognised, and only a probe.\<close>

lemma quotes_probe_built:
  assumes "sport < 65536" and "i < length pre" and "unat (pre ! i) = IPPROTO_UDP" and "j = length pre"
  shows "quotes_probe sport dport sq (pre @ net_bytes 2 sport @ net_bytes 2 (dport + sq) @ rest) i j = Some True"
proof -
  let ?m = "pre @ net_bytes 2 sport @ net_bytes 2 (dport + sq) @ rest"
  have "u8_at ?m i = Some IPPROTO_UDP"
    using u8_at_mid [OF assms(2)] assms(3) by simp
  moreover have "host_at False 2 ?m j = Some sport"
    using host_at_mid [of j pre False 2 sport] assms(1,4) by simp
  moreover have "host_at False 2 ?m (j + 2) = Some ((dport + sq) mod 65536)"
    using host_at_mid [of "j + 2" "pre @ net_bytes 2 sport" False 2 "dport + sq" rest] assms(4) by simp
  ultimately show ?thesis
    by (simp add: quotes_probe_def)
qed

text \<open>
  An ICMP error as a router or host sends it: an IP header, type and code, six further bytes of
  ICMP header, the IP header of the offending datagram, and the beginning of its UDP header.
\<close>

definition icmp_error :: "u8 list \<Rightarrow> nat \<Rightarrow> nat \<Rightarrow> u8 list \<Rightarrow> u8 list \<Rightarrow> nat \<Rightarrow> nat \<Rightarrow> u8 list \<Rightarrow> u8 list" where
  "icmp_error h1 typ code six h2 sp dp rest =
     (h1 @ [of_nat typ, of_nat code] @ six @ h2) @ net_bytes 2 sp @ net_bytes 2 dp @ rest"

definition ip_header_ok :: "u8 list \<Rightarrow> bool" where
  "ip_header_ok h \<longleftrightarrow> 20 \<le> length h \<and> unat (h ! 0) mod 16 * 4 = length h"

lemma recv_v4_packet_built:
  assumes h1: "ip_header_ok h1" and h2: "ip_header_ok h2" "unat (h2 ! 9) = IPPROTO_UDP"
    and "length six = 6" and "sport < 65536" and "typ < 256" and "code < 256"
    and "typ = ICMP_TIMXCEED \<and> code = ICMP_TIMXCEED_INTRANS \<or> typ = ICMP_UNREACH"
  shows "recv_v4_packet sport dport sq (icmp_error h1 typ code six h2 sport (dport + sq) rest)
      (int (length (icmp_error h1 typ code six h2 sport (dport + sq) rest))) =
    Some (Break (Some (if typ = ICMP_TIMXCEED then -2 else if code = ICMP_UNREACH_PORT then -1 else int code)))"
proof -
  let ?pre = "h1 @ [of_nat typ, of_nat code] @ six @ h2"
  define m where "m = icmp_error h1 typ code six h2 sport (dport + sq) rest"
  have m: "m = ?pre @ net_bytes 2 sport @ net_bytes 2 (dport + sq) @ rest"
    by (simp add: m_def icmp_error_def)
  have u8: "u8_at m i = Some (unat (?pre ! i))" if "i < length ?pre" for i
    unfolding m using that by (rule u8_at_mid)
  have l1: "20 \<le> length h1" and l2: "20 \<le> length h2"
    using h1 h2 by (simp_all add: ip_header_ok_def)
  have ne: "h1 \<noteq> []" "h2 \<noteq> []"
    using l1 l2 by auto
  have "u8_at m 0 = Some (unat (h1 ! 0))" "u8_at m (length h1) = Some typ" "u8_at m (length h1 + 1) = Some code"
    "u8_at m (length h1 + 8) = Some (unat (h2 ! 0))"
    using ne assms(4,6,7) u8 [of 0] u8 [of "length h1"] u8 [of "length h1 + 1"] u8 [of "length h1 + 8"]
    by (auto simp: nth_append unat_of_nat_u8)
  moreover have "quotes_probe sport dport sq m (length h1 + 8 + 9) (length h1 + 8 + length h2) = Some True"
    unfolding m using l1 l2 assms(4,5) h2(2) by (intro quotes_probe_built) (auto simp: nth_append)
  moreover have "length m = length h1 + 8 + length h2 + 4 + length rest"
    unfolding m using assms(4) by simp
  ultimately show ?thesis
    unfolding m_def [symmetric] using h1 h2 l1 l2 assms(8)
    by (auto simp: recv_v4_packet_def ip_header_ok_def ICMP_TIMXCEED_def ICMP_UNREACH_def)
qed

text \<open>The probes in closed form.\<close>

definition the_probe :: "nat \<Rightarrow> nat \<Rightarrow> nat \<Rightarrow> probe" where
  "the_probe dport ttl i = \<lparr>p_ttl = ttl, p_seq = i mod 65536, p_dport = (dport + i) mod 65536\<rparr>"

lemma upt_Cons: "i < j \<Longrightarrow> [i..<j] = i # [Suc i..<j]"
  by (simp add: upt_conv_Cons)

lemma trace_probes_eq:
  "trace_probes dport replies ttl k sq done =
    (map (the_probe dport ttl) [sq + 1..<sq + k + 1], sq + k,
     done + length (filter (\<lambda>i. replies i = -1) [sq + 1..<sq + k + 1]))"
proof (induction k arbitrary: sq "done")
  case (Suc k)
  have "[sq + 1..<sq + Suc k + 1] = (sq + 1) # [sq + 1 + 1..<sq + 1 + k + 1]"
    by (simp add: upt_Cons)
  then show ?case
    using Suc [of "sq + 1"] by (simp add: Let_def the_probe_def del: upt_Suc)
qed simp

text \<open>The sequence numbers of the probes with a hop limit, and the last hop limit tried.\<close>

definition ttl_seqs :: "nat \<Rightarrow> nat \<Rightarrow> nat list" where
  "ttl_seqs nprobes t = [(t - 1) * nprobes + 1..<t * nprobes + 1]"

definition arrived :: "(nat \<Rightarrow> int) \<Rightarrow> nat \<Rightarrow> nat \<Rightarrow> bool" where
  "arrived replies nprobes t \<longleftrightarrow> (\<exists>i\<in>set (ttl_seqs nprobes t). replies i = -1)"

definition last_ttl :: "(nat \<Rightarrow> int) \<Rightarrow> nat \<Rightarrow> nat \<Rightarrow> nat \<Rightarrow> nat" where
  "last_ttl replies nprobes from max_ttl =
     (case find (arrived replies nprobes) [from..<Suc max_ttl] of Some t \<Rightarrow> t | None \<Rightarrow> max_ttl)"

lemma last_ttl_step:
  assumes "from \<le> max_ttl"
  shows "last_ttl replies nprobes from max_ttl =
    (if arrived replies nprobes from then from else last_ttl replies nprobes (Suc from) max_ttl)"
  using assms by (simp add: last_ttl_def upt_conv_Cons del: upt_Suc)

lemma last_ttl_ge: "from \<le> Suc max_ttl \<Longrightarrow> from \<le> Suc (last_ttl replies nprobes from max_ttl)"
  by (auto simp: last_ttl_def find_Some_iff split: option.split simp del: upt_Suc)

lemma ttl_step:
  "0 < ttl \<Longrightarrow> trace_probes dport replies ttl nprobes ((ttl - Suc 0) * nprobes) 0 =
    (map (the_probe dport ttl) (ttl_seqs nprobes ttl), ttl * nprobes,
     length (filter (\<lambda>i. replies i = -1) (ttl_seqs nprobes ttl)))"
  by (cases ttl) (simp_all add: trace_probes_eq ttl_seqs_def algebra_simps del: upt_Suc)

lemma trace_ttls_eq:
  assumes "0 < ttl" and "ttl \<le> Suc max_ttl"
  shows "trace_ttls dport replies nprobes max_ttl ttl ((ttl - 1) * nprobes) 0 =
    concat (map (\<lambda>t. map (the_probe dport t) (ttl_seqs nprobes t))
      [ttl..<Suc (last_ttl replies nprobes ttl max_ttl)])"
  using assms
proof (induction "Suc max_ttl - ttl" arbitrary: ttl)
  case 0
  then have "ttl = Suc max_ttl"
    by simp
  then show ?case
    by (simp add: trace_ttls.simps [of dport] last_ttl_def)
next
  case (Suc d)
  then have le: "ttl \<le> max_ttl"
    by simp
  let ?T = "last_ttl replies nprobes ttl max_ttl"
  have hit: "arrived replies nprobes ttl \<longleftrightarrow> length (filter (\<lambda>i. replies i = -1) (ttl_seqs nprobes ttl)) \<noteq> 0"
    by (auto simp: arrived_def filter_empty_conv)
  have upt: "[ttl..<Suc ?T] = ttl # [Suc ttl..<Suc ?T]"
    using le last_ttl_ge [of "Suc ttl" max_ttl replies nprobes] by (simp add: last_ttl_step upt_conv_Cons del: upt_Suc)
  have IH: "trace_ttls dport replies nprobes max_ttl (Suc ttl) (ttl * nprobes) 0 =
      concat (map (\<lambda>t. map (the_probe dport t) (ttl_seqs nprobes t))
        [Suc ttl..<Suc (last_ttl replies nprobes (Suc ttl) max_ttl)])"
    using Suc(1) [of "Suc ttl"] Suc(2) le by simp
  show ?case
  proof (cases "arrived replies nprobes ttl")
    case True
    then have "trace_ttls dport replies nprobes max_ttl ttl ((ttl - 1) * nprobes) 0 =
        map (the_probe dport ttl) (ttl_seqs nprobes ttl)"
      using le Suc.prems(1) hit
      by (subst trace_ttls.simps) (simp add: ttl_step trace_ttls.simps [of dport replies nprobes max_ttl "Suc ttl"])
    then show ?thesis
      using True le by (simp add: last_ttl_step)
  next
    case False
    then have "trace_ttls dport replies nprobes max_ttl ttl ((ttl - 1) * nprobes) 0 =
        map (the_probe dport ttl) (ttl_seqs nprobes ttl) @ trace_ttls dport replies nprobes max_ttl (Suc ttl) (ttl * nprobes) 0"
      using le Suc.prems(1) hit by (subst trace_ttls.simps) (simp add: ttl_step)
    then show ?thesis
      using False le IH upt by (simp add: last_ttl_step del: upt_Suc)
  qed
qed

section \<open>Properties\<close>

text \<open>
  (C30) The receive loops never look at bytes behind the received packet: on packets that fill their
  memory exactly, whatever they contain and in whatever order packets, errors and alarms come, no access
  is out of bounds. The packets of \<^verbatim>\<open>recv_v6\<close> may have any length, the empty packet included. Those of
  \<^verbatim>\<open>recv_v4\<close> must not be empty, which a raw IPv4 socket guarantees: what it returns starts with the IP header.
\<close>

theorem recv_in_bounds:
  assumes "\<And>al m n. (al, Rcv m n) \<in> set rs4 \<Longrightarrow> n = int (length m) \<and> m \<noteq> []"
    and "\<And>al m n. (al, Rcv m n) \<in> set rs6 \<Longrightarrow> n = int (length m)"
  shows "recv_v4 sport dport sq rs4 \<noteq> None \<and> recv_v6 sport dport sq rs6 \<noteq> None"
proof
  show "recv_v4 sport dport sq rs4 \<noteq> None"
    unfolding recv_v4_def using assms(1) recv_v4_packet_in by (intro recv_loop_in [of "\<lambda>m. m \<noteq> []"]) blast+
  show "recv_v6 sport dport sq rs6 \<noteq> None"
    unfolding recv_v6_def using assms(2) recv_v6_packet_in by (intro recv_loop_in [of "\<lambda>m. True"]) blast+
qed

theorem recv_in_bounds_witness:
  "recv_v4 40000 33434 1 [(False, Rcv (replicate 28 0x4f) 28), (True, Rcv_err EINTR)] \<noteq> None
   \<and> recv_v6 40000 33434 1 [(False, Rcv [] 0), (False, Rcv (replicate 28 3) 28), (True, Rcv_err EINTR)] \<noteq> None"
  by (rule recv_in_bounds) auto

text \<open>
  (C31) The answer to a probe is recognised. Any IPv4 ICMP error quoting the probe \<^verbatim>\<open>seq\<close> (with
  IP options in either header or without) makes \<^verbatim>\<open>recv_v4\<close> return -2 for time exceeded in transit, -1
  for port unreachable and the code for any other unreachable message, no matter what unrelated or
  malformed packets the loop has skipped before; and an alarm makes it return -3.
\<close>

theorem recv_v4_answers:
  assumes "ip_header_ok h1" and "ip_header_ok h2" and "unat (h2 ! 9) = IPPROTO_UDP" and "length six = 6"
    and "sport < 65536" and "typ < 256" and "code < 256"
    and "typ = ICMP_TIMXCEED \<and> code = ICMP_TIMXCEED_INTRANS \<or> typ = ICMP_UNREACH"
    and "\<forall>m\<in>set skipped. recv_v4_packet sport dport sq m (int (length m)) = Some Again"
    and "answer = icmp_error h1 typ code six h2 sport (dport + sq) rest"
  shows "recv_v4 sport dport sq (map (\<lambda>m. (False, Rcv m (int (length m)))) skipped
        @ (False, Rcv answer (int (length answer))) # later) =
      Some (Ret (Some (if typ = ICMP_TIMXCEED then -2 else if code = ICMP_UNREACH_PORT then -1 else int code)))
    \<and> recv_v4 sport dport sq (map (\<lambda>m. (False, Rcv m (int (length m)))) skipped
        @ (True, Rcv_err EINTR) # later) = Some (Ret (Some (-3)))"
proof -
  have skip: "recv_loop (recv_v4_packet sport dport sq) False (map (\<lambda>m. (False, Rcv m (int (length m)))) skipped @ rs) =
      recv_loop (recv_v4_packet sport dport sq) False rs" for rs
    using assms(9) by (induction skipped) simp_all
  show ?thesis
    unfolding recv_v4_def skip using recv_v4_packet_built [OF assms(1-8), of dport sq rest]
    by (simp add: assms(10))
qed

definition ip_header_example :: "u8 list" where
  "ip_header_example = [0x45, 0, 0, 56, 0, 0, 0, 0, 64, 17, 0, 0, 10, 0, 0, 1, 10, 0, 0, 2]"

theorem recv_v4_answers_witness:
  "recv_v4 40000 33434 1 (map (\<lambda>m. (False, Rcv m (int (length m)))) [[0x45]]
      @ (False, Rcv (icmp_error ip_header_example 3 3 [0, 0, 0, 0, 0, 0] ip_header_example 40000 (33434 + 1) [])
          (int (length (icmp_error ip_header_example 3 3 [0, 0, 0, 0, 0, 0] ip_header_example 40000 (33434 + 1) [])))) # []) =
     Some (Ret (Some (if 3 = ICMP_TIMXCEED then -2 else if 3 = ICMP_UNREACH_PORT then -1 else int 3)))
   \<and> recv_v4 40000 33434 1 (map (\<lambda>m. (False, Rcv m (int (length m)))) [[0x45]] @ (True, Rcv_err EINTR) # []) =
     Some (Ret (Some (-3)))"
  by (rule recv_v4_answers)
    (simp_all add: ip_header_example_def ip_header_ok_def IPPROTO_UDP_def ICMP_UNREACH_def
      recv_v4_packet_def u8_at_eq)

text \<open>
  In \<^verbatim>\<open>recv_v6\<close> the braces around the two statements after the comparison of the quoted header are
  missing: a time-exceeded message that quotes anybody's datagram ends the wait, and when it does
  not quote the probe the value returned is an uninitialised variable.
\<close>

theorem recv_v6_indeterminate:
  assumes "length m = 52" and "unat (m ! 0) = ICMP6_TIME_EXCEEDED" and "unat (m ! 1) = ICMP6_TIME_EXCEED_TRANSIT"
    and "unat (m ! 14) \<noteq> IPPROTO_UDP \<or> host_at False 2 m 48 \<noteq> Some sport"
  shows "recv_v6 sport dport sq ((False, Rcv m 52) # rs) = Some (Ret None)"
proof -
  have b: "u8_at m 0 = Some ICMP6_TIME_EXCEEDED" "u8_at m 1 = Some ICMP6_TIME_EXCEED_TRANSIT" "u8_at m 14 = Some (unat (m ! 14))"
    using assms(1-3) by (simp_all add: u8_at_eq)
  obtain v where "host_at False 2 m 48 = Some v"
    using assms(1) host_at_None [of False 2 m 48] by auto
  then have "quotes_probe sport dport sq m 14 48 = Some False"
    using b(3) assms(4) by (auto simp: quotes_probe_def)
  then show ?thesis
    using b(1,2) by (simp add: recv_v6_def recv_v6_packet_def)
qed

theorem recv_v6_indeterminate_witness:
  "recv_v6 40000 33434 1 ((False, Rcv ([3, 0] @ replicate 50 0) 52) # []) = Some (Ret None)"
  by (rule recv_v6_indeterminate)
    (simp_all add: ICMP6_TIME_EXCEEDED_def ICMP6_TIME_EXCEED_TRANSIT_def IPPROTO_UDP_def)

text \<open>
  (C24) \<^verbatim>\<open>traceloop\<close> terminates and sends exactly these probes: for every hop limit from 1 to the
  first at which some probe is answered by port unreachable (or \<^verbatim>\<open>max_ttl\<close>, if none is), all
  \<^verbatim>\<open>nprobes\<close> probes, numbered consecutively over the whole run, each to its own port.
\<close>

theorem traceloop_probes:
  "traceloop dport replies nprobes max_ttl =
     concat (map (\<lambda>t. map (the_probe dport t) (ttl_seqs nprobes t))
       [1..<Suc (last_ttl replies nprobes 1 max_ttl)])"
  using trace_ttls_eq [of 1 max_ttl dport replies nprobes] by (simp add: traceloop_def del: upt_Suc)

end
