(* ===== verification/Stream_IO.thy ===== *)
theory Stream_IO
  imports Prelude
begin

text \<open>
  Reading and writing byte streams: \<^verbatim>\<open>readn\<close>, \<^verbatim>\<open>writen\<close>, \<^verbatim>\<open>readline\<close> and the echo functions of
  \<^verbatim>\<open>lib/\<close>, and the variants of \<^verbatim>\<open>readline\<close> in \<^verbatim>\<open>threads/\<close> and \<^verbatim>\<open>server/\<close>.

  A descriptor is a script of the answers the kernel gives. What is read: a non-empty chunk of
  bytes that has arrived, the end of the file (which stays), or an error. What is written: the
  number of bytes the kernel takes, or an error. A script that has ended means the call blocks.
\<close>

section \<open>The system calls\<close>

datatype ranswer = Chunk u8 "u8 list" | Eof | Rerr errno

datatype rresult = Data "u8 list" | At_eof | Failed errno

text \<open>\<^verbatim>\<open>read(fd, p, n)\<close> for \<open>n > 0\<close>: at most \<open>n\<close> bytes of the chunk; the rest of it stays.\<close>

fun read_sys :: "nat \<Rightarrow> ranswer list \<Rightarrow> (rresult \<times> ranswer list) option" where
  "read_sys n [] = None"
| "read_sys n (Eof # s) = Some (At_eof, Eof # s)"
| "read_sys n (Rerr e # s) = Some (Failed e, s)"
| "read_sys n (Chunk b bs # s) =
     Some (Data (take n (b # bs)),
           case drop n (b # bs) of [] \<Rightarrow> s | c # cs \<Rightarrow> Chunk c cs # s)"

datatype wanswer = Wrote nat | Werr errno

text \<open>\<^verbatim>\<open>write(fd, p, n)\<close>: the result is the number of bytes taken from the front, or an error.\<close>

fun write_sys :: "u8 list \<Rightarrow> wanswer list \<Rightarrow> ((errno + nat) \<times> wanswer list) option" where
  "write_sys bs [] = None"
| "write_sys bs (Wrote k # w) = Some (Inr (min k (length bs)), w)"
| "write_sys bs (Werr e # w) = Some (Inl e, w)"

text \<open>The size of a script, for termination: every call takes something away from it.\<close>

fun script_size :: "ranswer list \<Rightarrow> nat" where
  "script_size [] = 0"
| "script_size (Chunk b bs # s) = Suc (length bs) + script_size s"
| "script_size (r # s) = Suc (script_size s)"

lemma script_size_rest:
  "script_size (case drop n xs of [] \<Rightarrow> s | c # cs \<Rightarrow> Chunk c cs # s) = length xs - n + script_size s"
  by (cases "drop n xs") (auto dest: arg_cong [of _ _ length])

lemma read_sys_Data:
  assumes "read_sys n s = Some (Data bs, s')" and "0 < n"
  shows "0 < length bs" "length bs \<le> n" "script_size s' + length bs = script_size s"
  using assms by (cases "(n, s)" rule: read_sys.cases; auto simp: script_size_rest)+

lemma read_sys_smaller: "read_sys n s = Some (Data bs, s') \<Longrightarrow> 0 < n \<Longrightarrow> script_size s' < script_size s"
  using read_sys_Data [of n s bs s'] by linarith

lemma read_sys_Failed: "read_sys n s = Some (Failed e, s') \<Longrightarrow> script_size s = Suc (script_size s')"
  by (induction n s rule: read_sys.induct) auto

section \<open>readn and writen\<close>

text \<open>
  The loop of \<^verbatim>\<open>readn\<close> with what has been stored so far. The result is the return value, the bytes
  stored, and the script that is left.
\<close>

function readn_loop :: "nat \<Rightarrow> nat \<Rightarrow> u8 list \<Rightarrow> ranswer list \<Rightarrow> (int \<times> u8 list \<times> ranswer list) outcome" where
  "readn_loop n nleft stored s =
     (if nleft > 0 then
        (case read_sys nleft s of
           None \<Rightarrow> Blocks
         | Some (Failed e, s) \<Rightarrow>
             (if e = EINTR then readn_loop n nleft stored s else Ret (-1, stored, s))
         | Some (At_eof, s) \<Rightarrow> Ret (int (n - nleft), stored, s)
         | Some (Data bs, s) \<Rightarrow> readn_loop n (nleft - length bs) (stored @ bs) s)
      else Ret (int (n - nleft), stored, s))"
  by pat_completeness auto
termination
  by (relation "measure (\<lambda>(n, nleft, stored, s). script_size s)")
    (auto dest!: read_sys_Failed dest: read_sys_smaller)

declare readn_loop.simps [simp del]

definition readn :: "nat \<Rightarrow> ranswer list \<Rightarrow> (int \<times> u8 list \<times> ranswer list) outcome" where
  "readn n s = readn_loop n n [] s"

definition Readn :: "nat \<Rightarrow> ranswer list \<Rightarrow> (int \<times> u8 list \<times> ranswer list) outcome" where
  "Readn n s =
     (case readn n s of
        Ret (rc, bs, s) \<Rightarrow> if rc < 0 then Exits ''readn error'' else Ret (rc, bs, s)
      | r \<Rightarrow> r)"

text \<open>The loop of \<^verbatim>\<open>writen\<close>; \<open>sent\<close> collects what the kernel has taken.\<close>

fun writen_loop :: "nat \<Rightarrow> u8 list \<Rightarrow> u8 list \<Rightarrow> wanswer list \<Rightarrow> (int \<times> u8 list \<times> wanswer list) outcome" where
  "writen_loop n sent [] w = Ret (int n, sent, w)"
| "writen_loop n sent (b # bs) [] = Blocks"
| "writen_loop n sent (b # bs) (a # w) =
     (case a of
        Werr e \<Rightarrow>
          (if e = EINTR then writen_loop n sent (b # bs) w else Ret (-1, sent, w))
      | Wrote k \<Rightarrow>
          (let nwritten = min k (length (b # bs)) in
           if nwritten = 0 then Ret (-1, sent, w)
           else writen_loop n (sent @ take nwritten (b # bs)) (drop nwritten (b # bs)) w))"

definition writen :: "u8 list \<Rightarrow> wanswer list \<Rightarrow> (int \<times> u8 list \<times> wanswer list) outcome" where
  "writen bs w = writen_loop (length bs) [] bs w"

definition Writen :: "u8 list \<Rightarrow> wanswer list \<Rightarrow> (u8 list \<times> wanswer list) outcome" where
  "Writen bs w =
     (case writen bs w of
        Ret (rc, sent, w) \<Rightarrow> if rc \<noteq> int (length bs) then Exits ''writen error'' else Ret (sent, w)
      | Exits m \<Rightarrow> Exits m
      | Blocks \<Rightarrow> Blocks)"

section \<open>readline\<close>

text \<open>The static variables of \<^verbatim>\<open>readline.c\<close>: the count, and the bytes from \<^verbatim>\<open>read_ptr\<close> on.\<close>

record rline =
  read_cnt :: int
  read_ptr :: "u8 list"
  rl_fd :: "ranswer list"

definition MAXLINE :: nat where
  "MAXLINE = 4096"

datatype getc = Byte u8 | Getc_eof | Getc_error

text \<open>The part of \<^verbatim>\<open>my_read\<close> from the label \<^verbatim>\<open>again\<close> to the end of the outer \<^verbatim>\<open>if\<close>.\<close>

fun refill :: "ranswer list \<Rightarrow> (getc option \<times> rline) outcome" where
  "refill [] = Blocks"
| "refill (Rerr e # s) =
     (if e = EINTR then refill s
      else Ret (Some Getc_error, \<lparr>read_cnt = -1, read_ptr = [], rl_fd = s\<rparr>))"
| "refill (Eof # s) = Ret (Some Getc_eof, \<lparr>read_cnt = 0, read_ptr = [], rl_fd = Eof # s\<rparr>)"
| "refill (Chunk b bs # s) =
     Ret (None,
       \<lparr>read_cnt = int (length (take MAXLINE (b # bs))),
        read_ptr = take MAXLINE (b # bs),
        rl_fd = (case drop MAXLINE (b # bs) of [] \<Rightarrow> s | c # cs \<Rightarrow> Chunk c cs # s)\<rparr>)"

definition my_read_next :: "rline \<Rightarrow> (getc \<times> rline) outcome" where
  "my_read_next r =
     (case read_ptr r of
        [] \<Rightarrow> Exits ''read outside read_buf''
      | c # cs \<Rightarrow> Ret (Byte c, r\<lparr>read_cnt := read_cnt r - 1, read_ptr := cs\<rparr>))"

definition my_read :: "rline \<Rightarrow> (getc \<times> rline) outcome" where
  "my_read r =
     (if read_cnt r \<le> 0 then
        (case refill (rl_fd r) of
           Ret (Some g, r) \<Rightarrow> Ret (g, r)
         | Ret (None, r) \<Rightarrow> my_read_next r
         | Exits m \<Rightarrow> Exits m
         | Blocks \<Rightarrow> Blocks)
      else my_read_next r)"

text \<open>
  The \<^verbatim>\<open>for\<close> loop of \<^verbatim>\<open>readline\<close>, for a way of getting a byte and a rule for the end of the file.
  The second argument is \<^verbatim>\<open>maxlen - n\<close>. The result is the return value and the bytes stored,
  the NUL included.
\<close>

fun readline_loop ::
  "('s \<Rightarrow> (getc \<times> 's) outcome) \<Rightarrow> (int \<Rightarrow> u8 list \<Rightarrow> int \<times> u8 list) \<Rightarrow> nat \<Rightarrow> int \<Rightarrow> u8 list \<Rightarrow> 's \<Rightarrow>
   (int \<times> u8 list \<times> 's) outcome" where
  "readline_loop getc at_eof 0 n ptr st = Ret (n, ptr @ [0], st)"
| "readline_loop getc at_eof (Suc k) n ptr st =
     (case getc st of
        Ret (Byte c, st) \<Rightarrow>
          (if c = 10 then Ret (n, ptr @ [c, 0], st)
           else readline_loop getc at_eof k (n + 1) (ptr @ [c]) st)
      | Ret (Getc_eof, st) \<Rightarrow> (case at_eof n ptr of (rc, ptr) \<Rightarrow> Ret (rc, ptr, st))
      | Ret (Getc_error, st) \<Rightarrow> Ret (-1, ptr, st)
      | Exits m \<Rightarrow> Exits m
      | Blocks \<Rightarrow> Blocks)"

definition readline :: "nat \<Rightarrow> rline \<Rightarrow> (int \<times> u8 list \<times> rline) outcome" where
  "readline maxlen r = readline_loop my_read (\<lambda>n ptr. (n - 1, ptr @ [0])) (maxlen - 1) 1 [] r"

definition readlinebuf :: "rline \<Rightarrow> int \<times> u8 list option" where
  "readlinebuf r = (read_cnt r, if read_cnt r \<noteq> 0 then Some (read_ptr r) else None)"

definition Readline :: "nat \<Rightarrow> rline \<Rightarrow> (int \<times> u8 list \<times> rline) outcome" where
  "Readline maxlen r =
     (case readline maxlen r of
        Ret (rc, bs, r) \<Rightarrow> if rc < 0 then Exits ''readline error'' else Ret (rc, bs, r)
      | x \<Rightarrow> x)"

text \<open>
  \<^verbatim>\<open>server/readline.c\<close> reads one byte per call, knows no \<^verbatim>\<open>EINTR\<close>, and has another rule for the end
  of the file. (\<^verbatim>\<open>server/readline_r.c\<close> has that rule too.)
\<close>

definition read_one :: "ranswer list \<Rightarrow> (getc \<times> ranswer list) outcome" where
  "read_one s =
     (case read_sys 1 s of
        None \<Rightarrow> Blocks
      | Some (Data bs, s) \<Rightarrow> Ret (Byte (hd bs), s)
      | Some (At_eof, s) \<Rightarrow> Ret (Getc_eof, s)
      | Some (Failed e, s) \<Rightarrow> Ret (Getc_error, s))"

definition server_eof :: "int \<Rightarrow> u8 list \<Rightarrow> int \<times> u8 list" where
  "server_eof n ptr = (if n = 1 then (0, ptr) else (n, ptr @ [0]))"

definition server_readline :: "nat \<Rightarrow> ranswer list \<Rightarrow> (int \<times> u8 list \<times> ranswer list) outcome" where
  "server_readline maxlen s = readline_loop read_one server_eof (maxlen - 1) 1 [] s"

definition readline_r :: "nat \<Rightarrow> rline \<Rightarrow> (int \<times> u8 list \<times> rline) outcome" where
  "readline_r maxlen r = readline_loop my_read server_eof (maxlen - 1) 1 [] r"

section \<open>The echo service\<close>

text \<open>The server side, \<^verbatim>\<open>str_echo\<close>; the result is everything echoed.\<close>

function str_echo_loop :: "ranswer list \<Rightarrow> wanswer list \<Rightarrow> u8 list \<Rightarrow> u8 list outcome" where
  "str_echo_loop s w echoed =
     (case read_sys MAXLINE s of
        None \<Rightarrow> Blocks
      | Some (Data buf, s) \<Rightarrow>
          (case Writen buf w of
             Ret (sent, w) \<Rightarrow> str_echo_loop s w (echoed @ sent)
           | Exits m \<Rightarrow> Exits m
           | Blocks \<Rightarrow> Blocks)
      | Some (Failed e, s) \<Rightarrow>
          (if e = EINTR then str_echo_loop s w echoed else Exits ''str_echo: read error'')
      | Some (At_eof, s) \<Rightarrow> Ret echoed)"
  by pat_completeness auto
termination
  by (relation "measure (\<lambda>(s, w, echoed). script_size s)")
    (auto dest!: read_sys_Failed dest: read_sys_smaller simp: MAXLINE_def)

declare str_echo_loop.simps [simp del]

definition str_echo :: "ranswer list \<Rightarrow> wanswer list \<Rightarrow> u8 list outcome" where
  "str_echo s w = str_echo_loop s w []"

text \<open>\<^verbatim>\<open>fgets\<close> with room for \<open>k\<close> bytes: the line, and the rest of the input.\<close>

fun fgets :: "nat \<Rightarrow> u8 list \<Rightarrow> u8 list \<times> u8 list" where
  "fgets 0 xs = ([], xs)"
| "fgets (Suc k) [] = ([], [])"
| "fgets (Suc k) (c # cs) =
     (if c = 10 then ([c], cs) else (case fgets k cs of (l, r) \<Rightarrow> (c # l, r)))"

text \<open>The bytes before the first NUL, what \<^verbatim>\<open>strlen\<close> and \<^verbatim>\<open>fputs\<close> see of a buffer.\<close>

definition to_nul :: "u8 list \<Rightarrow> u8 list" where
  "to_nul bs = takeWhile (\<lambda>b. b \<noteq> 0) bs"

lemma fgets_append: "fst (fgets k xs) @ snd (fgets k xs) = xs"
  by (induction k xs rule: fgets.induct) (auto split: prod.splits)

lemma fgets_shorter: "0 < k \<Longrightarrow> xs \<noteq> [] \<Longrightarrow> length (snd (fgets k xs)) < length xs"
proof -
  assume "0 < k" "xs \<noteq> []"
  then have "fst (fgets k xs) \<noteq> []"
    by (cases "(k, xs)" rule: fgets.cases) (auto split: prod.splits)
  then show ?thesis
    using arg_cong [OF fgets_append [of k xs], of length] by (cases "fst (fgets k xs)") simp_all
qed

text \<open>The client side: the input, the socket in both directions; the results are what was sent and what was printed.\<close>

function str_cli_loop ::
  "u8 list \<Rightarrow> wanswer list \<Rightarrow> rline \<Rightarrow> u8 list \<Rightarrow> u8 list \<Rightarrow> (u8 list \<times> u8 list) outcome" where
  "str_cli_loop input w r sent out =
     (if input = [] then Ret (sent, out)
      else
        (case Writen (to_nul (fst (fgets (MAXLINE - 1) input))) w of
           Exits m \<Rightarrow> Exits m
         | Blocks \<Rightarrow> Blocks
         | Ret (bs, w) \<Rightarrow>
             (case Readline MAXLINE r of
                Exits m \<Rightarrow> Exits m
              | Blocks \<Rightarrow> Blocks
              | Ret (rc, recvline, r) \<Rightarrow>
                  (if rc = 0 then Exits ''str_cli: server terminated prematurely''
                   else str_cli_loop (snd (fgets (MAXLINE - 1) input)) w r (sent @ bs) (out @ to_nul recvline)))))"
  by pat_completeness auto
termination
  by (relation "measure (\<lambda>(input, w, r, sent, out). length input)")
    (auto simp: MAXLINE_def intro: fgets_shorter)

declare str_cli_loop.simps [simp del]

definition str_cli :: "u8 list \<Rightarrow> wanswer list \<Rightarrow> rline \<Rightarrow> (u8 list \<times> u8 list) outcome" where
  "str_cli input w r = str_cli_loop input w r [] []"

end
