(* ===== verification/Stream_Props.thy ===== *)
theory Stream_Props
  imports Stream_IO "HOL-Library.Sublist"
begin

text \<open>
  What the stream functions promise, whatever way the bytes arrive in: the abstraction of a
  descriptor is the sequence of bytes still to come and how it ends.
\<close>

section \<open>The stream behind a script\<close>

datatype fin = Fin_eof | Fin_error errno | Fin_open

fun stream :: "ranswer list \<Rightarrow> u8 list \<times> fin" where
  "stream [] = ([], Fin_open)"
| "stream (Eof # s) = ([], Fin_eof)"
| "stream (Rerr e # s) = (if e = EINTR then stream s else ([], Fin_error e))"
| "stream (Chunk b bs # s) = (b # bs @ fst (stream s), snd (stream s))"

text \<open>The same without a retry after \<^verbatim>\<open>EINTR\<close>.\<close>

fun raw_stream :: "ranswer list \<Rightarrow> u8 list \<times> fin" where
  "raw_stream [] = ([], Fin_open)"
| "raw_stream (Eof # s) = ([], Fin_eof)"
| "raw_stream (Rerr e # s) = ([], Fin_error e)"
| "raw_stream (Chunk b bs # s) = (b # bs @ fst (raw_stream s), snd (raw_stream s))"

lemma stream_rest:
  "stream (case drop n xs of [] \<Rightarrow> s | c # cs \<Rightarrow> Chunk c cs # s) = (drop n xs @ fst (stream s), snd (stream s))"
  by (cases "drop n xs") simp_all

lemma raw_stream_rest:
  "raw_stream (case drop n xs of [] \<Rightarrow> s | c # cs \<Rightarrow> Chunk c cs # s) = (drop n xs @ fst (raw_stream s), snd (raw_stream s))"
  by (cases "drop n xs") simp_all

section \<open>readn\<close>

lemma readn_loop_Nil: "readn_loop n nleft stored [] = (if 0 < nleft then Blocks else Ret (int n, stored, []))"
  by (subst readn_loop.simps) simp

lemma readn_loop_Eof:
  "readn_loop n nleft stored (Eof # s) = Ret (int (n - nleft), stored, Eof # s)"
  by (subst readn_loop.simps) simp

lemma readn_loop_Rerr:
  "readn_loop n nleft stored (Rerr e # s) =
    (if nleft = 0 then Ret (int n, stored, Rerr e # s)
     else if e = EINTR then readn_loop n nleft stored s else Ret (-1, stored, s))"
  by (subst readn_loop.simps) simp

lemma readn_loop_Chunk:
  "readn_loop n nleft stored (Chunk b bs # s) =
    (if nleft < length (b # bs)
     then Ret (int n, stored @ take nleft (b # bs), case drop nleft (b # bs) of [] \<Rightarrow> s | c # cs \<Rightarrow> Chunk c cs # s)
     else readn_loop n (nleft - length (b # bs)) (stored @ b # bs) s)"
proof (cases "nleft < length (b # bs)")
  case True
  have "readn_loop n 0 st s'' = Ret (int n, st, s'')" for st s''
    by (subst readn_loop.simps) simp
  then show ?thesis
    using True by (subst readn_loop.simps) (auto simp: min_absorb2)
next
  case False
  then show ?thesis
    by (subst readn_loop.simps) (auto simp: drop_all)
qed

lemmas readn_loop_simps = readn_loop_Nil readn_loop_Eof readn_loop_Rerr readn_loop_Chunk

lemma readn_loop_enough:
  assumes "nleft \<le> length (fst (stream s))"
  shows "\<exists>s'. readn_loop n nleft stored s = Ret (int n, stored @ take nleft (fst (stream s)), s')
    \<and> stream s' = (drop nleft (fst (stream s)), snd (stream s))"
  using assms
proof (induction s arbitrary: nleft stored)
  case (Cons a s)
  show ?case
  proof (cases a)
    case (Chunk b bs)
    define xs where "xs = b # bs"
    have st: "stream (a # s) = (xs @ fst (stream s), snd (stream s))"
      by (simp add: Chunk xs_def)
    have step: "readn_loop n nleft stored (a # s) =
        (if nleft < length xs then Ret (int n, stored @ take nleft xs, case drop nleft xs of [] \<Rightarrow> s | c # cs \<Rightarrow> Chunk c cs # s)
         else readn_loop n (nleft - length xs) (stored @ xs) s)"
      unfolding Chunk xs_def by (rule readn_loop_Chunk)
    show ?thesis
    proof (cases "nleft < length xs")
      case True
      then show ?thesis
        unfolding st step by (simp add: stream_rest)
    next
      case False
      then show ?thesis
        using Cons.IH [of "nleft - length xs" "stored @ xs"] Cons.prems unfolding st step by simp
    qed
  next
    case (Rerr e)
    then show ?thesis
      using Cons.IH [of nleft stored] Cons.prems by (auto simp: readn_loop_Rerr intro: prod_eqI)
  qed (use Cons.prems in \<open>simp add: readn_loop_Eof\<close>)
qed (simp add: readn_loop_Nil)

lemma readn_loop_short:
  assumes "length (fst (stream s)) < nleft" and "nleft \<le> n"
  shows "case snd (stream s) of
      Fin_eof \<Rightarrow> \<exists>s'. readn_loop n nleft stored s = Ret (int (n - nleft + length (fst (stream s))), stored @ fst (stream s), s')
        \<and> stream s' = ([], Fin_eof)
    | Fin_error e \<Rightarrow> \<exists>s'. readn_loop n nleft stored s = Ret (-1, stored @ fst (stream s), s')
    | Fin_open \<Rightarrow> readn_loop n nleft stored s = Blocks"
  using assms
proof (induction s arbitrary: nleft stored)
  case (Cons a s)
  show ?case
  proof (cases a)
    case (Chunk b bs)
    then show ?thesis
      using Cons.IH [of "nleft - length (b # bs)" "stored @ b # bs"] Cons.prems
      by (auto simp: readn_loop_Chunk algebra_simps split: fin.splits)
  next
    case (Rerr e)
    then show ?thesis
      using Cons.IH [of nleft stored] Cons.prems by (auto simp: readn_loop_Rerr split: fin.splits)
  qed (use Cons.prems in \<open>simp add: readn_loop_Eof\<close>)
qed (simp add: readn_loop_Nil)

section \<open>writen\<close>

lemma writen_loop_sent:
  assumes "writen_loop n sent bs w = Ret (rc, sent', w')"
  shows "rc = int n \<and> sent' = sent @ bs \<or> rc = -1 \<and> (\<exists>k < length bs. sent' = sent @ take k bs)"
  using assms
proof (induction n sent bs w rule: writen_loop.induct)
  case (3 n sent b bs a w)
  show ?case
  proof (cases a)
    case (Werr e)
    then show ?thesis
      using 3 by (auto split: if_splits intro!: exI [of _ 0])
  next
    case (Wrote k)
    let ?m = "min k (length (b # bs))"
    show ?thesis
    proof (cases "?m = 0")
      case True
      then show ?thesis
        using 3 Wrote by (auto intro!: exI [of _ 0])
    next
      case False
      then have "writen_loop n (sent @ take ?m (b # bs)) (drop ?m (b # bs)) w = Ret (rc, sent', w')"
        using 3(3) False unfolding writen_loop.simps Wrote wanswer.case Let_def by (simp only: if_False)
      with 3(1) [OF Wrote refl False]
      have "rc = int n \<and> sent' = (sent @ take ?m (b # bs)) @ drop ?m (b # bs) \<or>
          rc = -1 \<and> (\<exists>j < length (drop ?m (b # bs)). sent' = (sent @ take ?m (b # bs)) @ take j (drop ?m (b # bs)))"
        by blast
      then show ?thesis
      proof (elim disjE conjE exE)
        fix j
        assume "rc = -1" "j < length (drop ?m (b # bs))" "sent' = (sent @ take ?m (b # bs)) @ take j (drop ?m (b # bs))"
        then show ?thesis
          by (intro disjI2 conjI exI [of _ "?m + j"])
            (simp_all only: take_add append.assoc length_drop less_diff_conv add.commute [of j])
      qed (simp only: append.assoc append_take_drop_id, simp)
    qed
  qed
qed auto

lemma writen_loop_all:
  assumes "\<forall>a\<in>set w. a = Werr EINTR \<or> (\<exists>k > 0. a = Wrote k)" and "length bs \<le> length (filter (\<lambda>a. a \<noteq> Werr EINTR) w)"
  shows "\<exists>w'. writen_loop n sent bs w = Ret (int n, sent @ bs, w') \<and> suffix w' w
    \<and> length (filter (\<lambda>a. a \<noteq> Werr EINTR) w) \<le> length (filter (\<lambda>a. a \<noteq> Werr EINTR) w') + length bs"
  using assms
proof (induction n sent bs w rule: writen_loop.induct)
  case (3 n sent b bs a w)
  show ?case
  proof (cases "a = Werr EINTR")
    case True
    then show ?thesis
      using 3 by (auto intro: suffix_ConsI)
  next
    case False
    then obtain k where a: "a = Wrote k" "0 < k"
      using 3(3) by auto
    let ?m = "min k (length (b # bs))"
    have m: "?m \<noteq> 0"
      using a by simp
    have len: "length (drop ?m (b # bs)) \<le> length (filter (\<lambda>a. a \<noteq> Werr EINTR) w)"
      using 3(4) a m by auto
    then obtain w' where "writen_loop n (sent @ take ?m (b # bs)) (drop ?m (b # bs)) w =
          Ret (int n, (sent @ take ?m (b # bs)) @ drop ?m (b # bs), w')" "suffix w' w"
        "length (filter (\<lambda>a. a \<noteq> Werr EINTR) w) \<le> length (filter (\<lambda>a. a \<noteq> Werr EINTR) w') + length (drop ?m (b # bs))"
      using 3(1) [OF a(1) refl m] 3(3) by auto
    moreover have "length (drop ?m (b # bs)) < length (b # bs)"
      using m by simp
    moreover have "(sent @ take ?m (b # bs)) @ drop ?m (b # bs) = sent @ b # bs"
      by (simp only: append.assoc append_take_drop_id)
    moreover have "writen_loop n sent (b # bs) (a # w) = writen_loop n (sent @ take ?m (b # bs)) (drop ?m (b # bs)) w"
      using m unfolding writen_loop.simps a(1) wanswer.case Let_def by (simp only: if_False)
    ultimately show ?thesis
      using a by (auto intro!: suffix_ConsI)
  qed
qed auto

section \<open>Reading lines\<close>

text \<open>
  The interface between \<^verbatim>\<open>readline\<close> and the way it gets a byte: each call takes the next byte of
  the stream, and tells how the stream ends.
\<close>

locale byte_source =
  fixes getc :: "'s \<Rightarrow> (getc \<times> 's) outcome"
    and strm :: "'s \<Rightarrow> u8 list \<times> fin"
    and ok :: "'s \<Rightarrow> bool"
  assumes getc_byte: "ok st \<Longrightarrow> strm st = (c # cs, f) \<Longrightarrow>
      \<exists>st'. getc st = Ret (Byte c, st') \<and> strm st' = (cs, f) \<and> ok st'"
    and getc_eof: "ok st \<Longrightarrow> strm st = ([], Fin_eof) \<Longrightarrow>
      \<exists>st'. getc st = Ret (Getc_eof, st') \<and> strm st' = ([], Fin_eof) \<and> ok st'"
    and getc_error: "ok st \<Longrightarrow> strm st = ([], Fin_error e) \<Longrightarrow>
      \<exists>st'. getc st = Ret (Getc_error, st') \<and> ok st'"
    and getc_open: "ok st \<Longrightarrow> strm st = ([], Fin_open) \<Longrightarrow> getc st = Blocks"
begin

text \<open>A line that ends within the room, or fills it, is the one \<^verbatim>\<open>fgets\<close> would give.\<close>

lemma loop_line:
  assumes "ok st" and "strm st = (bs, f)" and "fgets k bs = (l, r)"
    and "l \<noteq> [] \<and> last l = 10 \<or> length l = k"
  shows "\<exists>st'. readline_loop getc at_eof k n ptr st =
      Ret (n + int (length l) - (if l \<noteq> [] \<and> last l = 10 then 1 else 0), ptr @ l @ [0], st')
    \<and> strm st' = (r, f) \<and> ok st'"
  using assms
proof (induction k arbitrary: n ptr st bs l)
  case 0
  then show ?case
    by auto
next
  case (Suc k)
  show ?case
  proof (cases bs)
    case Nil
    then show ?thesis
      using Suc.prems by simp
  next
    case (Cons c cs)
    obtain st' where st': "getc st = Ret (Byte c, st')" "strm st' = (cs, f)" "ok st'"
      using getc_byte Suc.prems(1,2) Cons by blast
    show ?thesis
    proof (cases "c = 10")
      case True
      then show ?thesis
        using st' Suc.prems(3) Cons by auto
    next
      case False
      obtain l' where l': "fgets k cs = (l', r)" "l = c # l'"
        using Suc.prems(3) Cons False by (auto split: prod.splits)
      have "l' \<noteq> [] \<and> last l' = 10 \<or> length l' = k"
        using Suc.prems(4) l'(2) False by (auto split: if_splits)
      from Suc.IH [OF st'(3,2) l'(1) this, of "n + 1" "ptr @ [c]"]
      show ?thesis
        using st' False l'(2) by (auto split: if_splits)
    qed
  qed
qed

text \<open>Otherwise the stream ends first.\<close>

lemma loop_end:
  assumes "ok st" and "strm st = (bs, f)" and "fgets k bs = (l, r)"
    and "\<not> (l \<noteq> [] \<and> last l = 10)" and "length l < k"
  shows "case f of
      Fin_eof \<Rightarrow> \<exists>st'. readline_loop getc at_eof k n ptr st =
          (case at_eof (n + int (length l)) (ptr @ l) of (rc, p) \<Rightarrow> Ret (rc, p, st'))
        \<and> strm st' = ([], Fin_eof) \<and> ok st'
    | Fin_error e \<Rightarrow> \<exists>st'. readline_loop getc at_eof k n ptr st = Ret (-1, ptr @ l, st')
    | Fin_open \<Rightarrow> readline_loop getc at_eof k n ptr st = Blocks"
  using assms
proof (induction k arbitrary: n ptr st bs l)
  case (Suc k)
  show ?case
  proof (cases bs)
    case Nil
    then show ?thesis
      using Suc.prems getc_eof [of st] getc_error [of st] getc_open [of st]
      by (cases f) (fastforce split: prod.splits)+
  next
    case (Cons c cs)
    obtain st' where st': "getc st = Ret (Byte c, st')" "strm st' = (cs, f)" "ok st'"
      using getc_byte Suc.prems(1,2) Cons by blast
    have False: "c \<noteq> 10"
      using Suc.prems(3,4) Cons by auto
    obtain l' where l': "fgets k cs = (l', r)" "l = c # l'"
      using Suc.prems(3) Cons False by (auto split: prod.splits)
    have *: "\<not> (l' \<noteq> [] \<and> last l' = 10)" "length l' < k"
      using Suc.prems(4,5) l'(2) by auto
    from Suc.IH [OF st'(3,2) l'(1) *, of "n + 1" "ptr @ [c]"]
    show ?thesis
      using st' False l'(2) by (auto simp: algebra_simps split: fin.splits)
  qed
qed simp

end

text \<open>The buffered \<^verbatim>\<open>my_read\<close> and the unbuffered \<^verbatim>\<open>read\<close> of one byte are both such a source.\<close>

definition rline_ok :: "rline \<Rightarrow> bool" where
  "rline_ok r \<longleftrightarrow> (if read_cnt r \<le> 0 then read_ptr r = [] else read_cnt r = int (length (read_ptr r)))"

definition rline_stream :: "rline \<Rightarrow> u8 list \<times> fin" where
  "rline_stream r = (read_ptr r @ fst (stream (rl_fd r)), snd (stream (rl_fd r)))"

lemma refill_cases:
  "case stream s of
     (c # cs, f) \<Rightarrow> \<exists>r. refill s = Ret (None, r) \<and> rline_ok r \<and> rline_stream r = (c # cs, f) \<and> read_ptr r \<noteq> []
   | ([], Fin_eof) \<Rightarrow> \<exists>r. refill s = Ret (Some Getc_eof, r) \<and> rline_ok r \<and> rline_stream r = ([], Fin_eof)
   | ([], Fin_error e) \<Rightarrow> \<exists>r. refill s = Ret (Some Getc_error, r) \<and> rline_ok r
   | ([], Fin_open) \<Rightarrow> refill s = Blocks"
proof (induction s rule: refill.induct)
  case (4 b bs s)
  then show ?case
    by (simp add: rline_ok_def rline_stream_def stream_rest MAXLINE_def)
next
  case (2 e s)
  show ?case
  proof (cases "e = EINTR")
    case True
    show ?thesis
      unfolding refill.simps stream.simps if_P [OF True] by (rule 2 [OF True])
  qed (simp add: rline_ok_def)
qed (simp_all add: rline_ok_def rline_stream_def)

lemma my_read_next_byte:
  assumes "rline_ok r" and "read_ptr r \<noteq> []" and "rline_stream r = (c # cs, f)"
  shows "\<exists>r'. my_read_next r = Ret (Byte c, r') \<and> rline_stream r' = (cs, f) \<and> rline_ok r'"
  using assms by (cases "read_ptr r") (auto simp: my_read_next_def rline_ok_def rline_stream_def split: if_splits)

lemma my_read_buffered: "0 < read_cnt r \<Longrightarrow> rline_ok r \<Longrightarrow> my_read r = my_read_next r \<and> read_ptr r \<noteq> []"
  by (auto simp: my_read_def rline_ok_def)

lemma my_read_empty:
  "read_cnt r \<le> 0 \<Longrightarrow> rline_ok r \<Longrightarrow> rline_stream r = stream (rl_fd r)"
  by (simp add: rline_ok_def rline_stream_def)

interpretation buf: byte_source my_read rline_stream rline_ok
proof
  fix st c cs f
  assume ok: "rline_ok st" and st: "rline_stream st = (c # cs, f)"
  show "\<exists>st'. my_read st = Ret (Byte c, st') \<and> rline_stream st' = (cs, f) \<and> rline_ok st'"
  proof (cases "read_cnt st \<le> 0")
    case True
    then obtain r where "refill (rl_fd st) = Ret (None, r)" "rline_ok r" "rline_stream r = (c # cs, f)" "read_ptr r \<noteq> []"
      using refill_cases [of "rl_fd st"] my_read_empty [OF True ok] st by auto
    then show ?thesis
      using my_read_next_byte [of r] True by (simp add: my_read_def)
  next
    case False
    then show ?thesis
      using my_read_buffered [of st] my_read_next_byte [of st] ok st by simp
  qed
next
  fix st
  assume ok: "rline_ok st" and st: "rline_stream st = ([], Fin_eof)"
  then have "read_cnt st \<le> 0"
    using my_read_buffered [of st] by (force simp: rline_stream_def)
  then show "\<exists>st'. my_read st = Ret (Getc_eof, st') \<and> rline_stream st' = ([], Fin_eof) \<and> rline_ok st'"
    using refill_cases [of "rl_fd st"] my_read_empty [of st] ok st by (auto simp: my_read_def)
next
  fix st e
  assume ok: "rline_ok st" and st: "rline_stream st = ([], Fin_error e)"
  then have "read_cnt st \<le> 0"
    using my_read_buffered [of st] by (force simp: rline_stream_def)
  then show "\<exists>st'. my_read st = Ret (Getc_error, st') \<and> rline_ok st'"
    using refill_cases [of "rl_fd st"] my_read_empty [of st] ok st by (auto simp: my_read_def)
next
  fix st
  assume ok: "rline_ok st" and st: "rline_stream st = ([], Fin_open)"
  then have "read_cnt st \<le> 0"
    using my_read_buffered [of st] by (force simp: rline_stream_def)
  then show "my_read st = Blocks"
    using refill_cases [of "rl_fd st"] my_read_empty [of st] ok st by (auto simp: my_read_def)
qed

lemma read_one_cases:
  "read_one [] = Blocks" "read_one (Eof # s) = Ret (Getc_eof, Eof # s)" "read_one (Rerr e # s) = Ret (Getc_error, s)"
  "read_one (Chunk b bs # s) = Ret (Byte b, case bs of [] \<Rightarrow> s | c # cs \<Rightarrow> Chunk c cs # s)"
  by (simp_all add: read_one_def)

interpretation one: byte_source read_one raw_stream "\<lambda>_. True"
proof
  fix st c cs f
  assume "raw_stream st = (c # cs, f)"
  then show "\<exists>st'. read_one st = Ret (Byte c, st') \<and> raw_stream st' = (cs, f) \<and> True"
    by (cases st rule: raw_stream.cases) (auto simp: read_one_cases split: list.splits)
next
  fix st
  assume "raw_stream st = ([], Fin_eof)"
  then show "\<exists>st'. read_one st = Ret (Getc_eof, st') \<and> raw_stream st' = ([], Fin_eof) \<and> True"
    by (cases st rule: raw_stream.cases) (auto simp: read_one_cases)
next
  fix st e
  assume "raw_stream st = ([], Fin_error e)"
  then show "\<exists>st'. read_one st = Ret (Getc_error, st') \<and> True"
    by (cases st rule: raw_stream.cases) (auto simp: read_one_cases)
next
  fix st
  assume "raw_stream st = ([], Fin_open)"
  then show "read_one st = Blocks"
    by (cases st rule: raw_stream.cases) (auto simp: read_one_cases)
qed

section \<open>readline, Readline and the echo functions\<close>

lemma readline_line:
  assumes "rline_ok r" and "rline_stream r = (bs, f)" and "fgets (maxlen - 1) bs = (l, rest)"
    and "l \<noteq> [] \<and> last l = 10 \<or> length l = maxlen - 1"
  shows "\<exists>r'. readline maxlen r =
      Ret (int (length l) + (if l \<noteq> [] \<and> last l = 10 then 0 else 1), l @ [0], r')
    \<and> rline_stream r' = (rest, f) \<and> rline_ok r'"
  using buf.loop_line [OF assms, of "\<lambda>n ptr. (n - 1, ptr @ [0])" 1 "[]"]
  by (auto simp: readline_def split: if_splits)

lemma readline_end:
  assumes "rline_ok r" and "rline_stream r = (bs, f)" and "fgets (maxlen - 1) bs = (l, rest)"
    and "\<not> (l \<noteq> [] \<and> last l = 10)" and "length l < maxlen - 1"
  shows "case f of
      Fin_eof \<Rightarrow> \<exists>r'. readline maxlen r = Ret (int (length l), l @ [0], r') \<and> rline_stream r' = ([], Fin_eof) \<and> rline_ok r'
    | Fin_error e \<Rightarrow> \<exists>r'. readline maxlen r = Ret (-1, l, r')
    | Fin_open \<Rightarrow> readline maxlen r = Blocks"
  using buf.loop_end [OF assms, of "\<lambda>n ptr. (n - 1, ptr @ [0])" 1 "[]"]
  by (cases f) (auto simp: readline_def)

lemma length_fgets: "fgets k xs = (l, r) \<Longrightarrow> length l \<le> k"
  by (induction k xs arbitrary: l rule: fgets.induct) (auto split: prod.splits if_splits)

lemma fgets_more:
  "fgets k xs = (l, r) \<Longrightarrow> l \<noteq> [] \<and> last l = 10 \<or> length l = k \<Longrightarrow> fgets k (xs @ ys) = (l, r @ ys)"
  by (induction k xs arbitrary: l rule: fgets.induct) (auto split: prod.splits if_splits)

lemma fgets_incomplete: "fgets k xs = (l, r) \<Longrightarrow> \<not> (l \<noteq> [] \<and> last l = 10) \<Longrightarrow> length l < k \<Longrightarrow> l = xs \<and> r = []"
  by (induction k xs arbitrary: l rule: fgets.induct) (auto split: prod.splits if_splits)

lemma fgets_no_newline: "10 \<notin> set xs \<Longrightarrow> length xs \<le> k \<Longrightarrow> fgets k xs = (xs, [])"
  by (induction k xs rule: fgets.induct) auto

text \<open>A descriptor on which every write is interrupted or takes at least one byte.\<close>

definition writable :: "nat \<Rightarrow> wanswer list \<Rightarrow> bool" where
  "writable n w \<longleftrightarrow> (\<forall>a\<in>set w. a = Werr EINTR \<or> (\<exists>k > 0. a = Wrote k)) \<and> n \<le> length (filter (\<lambda>a. a \<noteq> Werr EINTR) w)"

lemma Writen_writable:
  assumes "writable (length bs + n) w"
  shows "\<exists>w'. Writen bs w = Ret (bs, w') \<and> writable n w'"
proof -
  obtain w' where w': "writen_loop (length bs) [] bs w = Ret (int (length bs), [] @ bs, w')" "suffix w' w"
      "length (filter (\<lambda>a. a \<noteq> Werr EINTR) w) \<le> length (filter (\<lambda>a. a \<noteq> Werr EINTR) w') + length bs"
    using writen_loop_all [of w bs "length bs" "[]"] assms by (auto simp: writable_def)
  then have "writable n w'"
    using assms set_mono_suffix [OF w'(2)] by (auto simp: writable_def)
  then show ?thesis
    using w'(1) by (simp add: Writen_def writen_def)
qed

lemma read_sys_None: "read_sys n s = None \<longleftrightarrow> s = []"
  by (cases "(n, s)" rule: read_sys.cases) auto

lemma read_sys_stream:
  assumes "read_sys n s = Some (q, s')" and "0 < n"
  shows "case q of
      Data bs \<Rightarrow> stream s = (bs @ fst (stream s'), snd (stream s'))
    | At_eof \<Rightarrow> stream s = ([], Fin_eof)
    | Failed e \<Rightarrow> if e = EINTR then stream s = stream s' else stream s = ([], Fin_error e)"
  using assms by (cases "(n, s)" rule: read_sys.cases) (auto simp: stream_rest)

lemma str_echo_loop_eof:
  assumes "stream s = (bs, Fin_eof)" and "writable (length bs) w"
  shows "str_echo_loop s w echoed = Ret (echoed @ bs)"
  using assms
proof (induction s w echoed arbitrary: bs rule: str_echo_loop.induct)
  case (1 s w echoed)
  obtain q s' where q: "read_sys MAXLINE s = Some (q, s')"
    using "1.prems"(1) by (cases "read_sys MAXLINE s") (auto simp: read_sys_None)
  have st: "case q of
      Data bs \<Rightarrow> stream s = (bs @ fst (stream s'), snd (stream s'))
    | At_eof \<Rightarrow> stream s = ([], Fin_eof)
    | Failed e \<Rightarrow> if e = EINTR then stream s = stream s' else stream s = ([], Fin_error e)"
    using read_sys_stream [OF q] by (simp add: MAXLINE_def)
  show ?case
  proof (cases q)
    case (Data d)
    then have bs: "bs = d @ fst (stream s')" "snd (stream s') = Fin_eof"
      using st "1.prems"(1) by auto
    then obtain w' where w': "Writen d w = Ret (d, w')" "writable (length (fst (stream s'))) w'"
      using Writen_writable [of d "length (fst (stream s'))" w] "1.prems"(2) by auto
    have "str_echo_loop s' w' (echoed @ d) = Ret ((echoed @ d) @ fst (stream s'))"
      using 1(1) [OF q refl Data w'(1)] w'(2) bs(2) by (simp add: prod_eq_iff)
    then show ?thesis
      using q Data w'(1) bs(1) by (subst str_echo_loop.simps) simp
  next
    case At_eof
    then show ?thesis
      using q st "1.prems"(1) by (subst str_echo_loop.simps) simp
  next
    case (Failed e)
    then have "e = EINTR" "stream s' = (bs, Fin_eof)"
      using st "1.prems"(1) by (auto split: if_splits)
    then show ?thesis
      using 1(2) [OF q refl Failed] "1.prems"(2) q Failed by (subst str_echo_loop.simps) simp
  qed
qed

lemma to_nul_append: "0 \<notin> set l \<Longrightarrow> to_nul (l @ [0]) = l"
  by (induction l) (auto simp: to_nul_def)

lemma to_nul_id: "0 \<notin> set l \<Longrightarrow> to_nul l = l"
  by (induction l) (auto simp: to_nul_def)

text \<open>\<^verbatim>\<open>str_cli\<close> over complete lines that come back, with whatever follows them.\<close>

lemma str_cli_loop_lines:
  assumes "0 \<notin> set input" and "input = [] \<or> last input = 10" and "writable (length input + n) w"
    and "rline_ok r" and "rline_stream r = (input @ extra, f)"
  shows "\<exists>w' r'. str_cli_loop (input @ tail) w r sent out = str_cli_loop tail w' r' (sent @ input) (out @ input)
    \<and> writable n w' \<and> rline_ok r' \<and> rline_stream r' = (extra, f)"
  using assms
proof (induction input arbitrary: w r sent out rule: measure_induct_rule [of length])
  case (less input)
  show ?case
  proof (cases "input = []")
    case True
    then show ?thesis
      using less.prems by auto
  next
    case False
    obtain l rest where fg: "fgets (MAXLINE - 1) input = (l, rest)"
      by force
    then have input: "input = l @ rest"
      using fgets_append [of "MAXLINE - 1" input] by simp
    have full: "l \<noteq> [] \<and> last l = 10 \<or> length l = MAXLINE - 1"
      using fgets_incomplete [OF fg] length_fgets [OF fg] less(3) False by (metis le_neq_implies_less)
    then have "l \<noteq> []"
      by (auto simp: MAXLINE_def)
    have nul: "0 \<notin> set l" "0 \<notin> set rest"
      using less(2) input by auto
    obtain w' where w': "Writen l w = Ret (l, w')" "writable (length rest + n) w'"
      using Writen_writable [of l "length rest + n" w] less(4) input by (auto simp: add.assoc)
    obtain r' where r': "readline MAXLINE r = Ret (int (length l) + (if l \<noteq> [] \<and> last l = 10 then 0 else 1), l @ [0], r')"
        "rline_stream r' = (rest @ extra, f)" "rline_ok r'"
      using readline_line [OF less(5,6) fgets_more [OF fg full, of extra] full] by blast
    then obtain rc where "readline MAXLINE r = Ret (rc, l @ [0], r')" "0 < rc"
      using \<open>l \<noteq> []\<close> by (cases "last l = 10") simp_all
    then have rc: "Readline MAXLINE r = Ret (rc, l @ [0], r')" "rc \<noteq> 0"
      by (simp_all add: Readline_def)
    have "str_cli_loop (input @ tail) w r sent out = str_cli_loop (rest @ tail) w' r' (sent @ l) (out @ l)"
      using False fgets_more [OF fg full, of tail] w'(1) rc nul
      by (subst str_cli_loop.simps) (simp add: to_nul_append to_nul_id)
    moreover have "rest = [] \<or> last rest = 10"
      using less(3) input by (cases "rest = []") auto
    then have "\<exists>w'' r''. str_cli_loop (rest @ tail) w' r' (sent @ l) (out @ l) = str_cli_loop tail w'' r'' ((sent @ l) @ rest) ((out @ l) @ rest)
        \<and> writable n w'' \<and> rline_ok r'' \<and> rline_stream r'' = (extra, f)"
      using input \<open>l \<noteq> []\<close> by (intro less(1) nul(2) w'(2) r'(2,3)) simp_all
    ultimately show ?thesis
      using input by simp
  qed
qed

text \<open>A line of which \<^verbatim>\<open>str_cli\<close> sends no newline: the echo of it is no line, and \<^verbatim>\<open>Readline\<close> waits.\<close>

lemma fgets_nul:
  "10 \<notin> set part \<Longrightarrow> length part < k \<Longrightarrow> \<exists>l. fst (fgets k (part @ 0 # ys)) = part @ 0 # l"
proof (induction part arbitrary: k)
  case Nil
  then show ?case
    by (cases k) (auto split: prod.splits)
next
  case (Cons c part)
  then obtain k' where "k = Suc k'"
    by (cases k) auto
  then show ?case
    using Cons by (auto simp: case_prod_beta)
qed

lemma str_cli_loop_waits:
  assumes "10 \<notin> set part" and "0 \<notin> set part" and "length part < MAXLINE - 1" and "tail \<noteq> []" and "tail = part \<or> tail = part @ 0 # ys"
    and "writable (length part) w" and "rline_ok r" and "rline_stream r = (part, Fin_open)"
  shows "str_cli_loop tail w r sent out = Blocks"
proof -
  have "to_nul (part @ 0 # l) = part" for l
    using assms(2) by (induction part) (auto simp: to_nul_def)
  then have "to_nul (fst (fgets (MAXLINE - 1) tail)) = part"
    using assms(5) fgets_no_newline [OF assms(1), of "MAXLINE - 1"] fgets_nul [OF assms(1,3), of ys] assms(2,3) to_nul_id [of part]
    by auto
  moreover obtain w' where "Writen part w = Ret (part, w')"
    using Writen_writable [of part 0 w] assms(6) by auto
  moreover have "\<not> (part \<noteq> [] \<and> last part = 10)"
    using assms(1) last_in_set by metis
  then have "readline MAXLINE r = Blocks"
    using readline_end [OF assms(7,8) fgets_no_newline [OF assms(1) less_imp_le [OF assms(3)]] _ assms(3)] by simp
  ultimately show ?thesis
    using assms(4) by (subst str_cli_loop.simps) (simp add: Readline_def)
qed

section \<open>Properties\<close>

text \<open>
  (C32) \<^verbatim>\<open>readn\<close> depends only on the byte stream, not on how the kernel cuts it into chunks or on
  interruptions by signals: if \<open>n\<close> bytes come, it returns \<open>n\<close> and stores exactly them, and the
  rest of the stream stays; if the stream ends earlier it returns and stores what there was; after
  an error it returns -1; and it blocks only if the stream stays open without enough bytes.
\<close>

theorem readn_correct:
  "(case stream s of (bs, f) \<Rightarrow>
     if n \<le> length bs then \<exists>s'. readn n s = Ret (int n, take n bs, s') \<and> stream s' = (drop n bs, f)
     else (case f of
             Fin_eof \<Rightarrow> \<exists>s'. readn n s = Ret (int (length bs), bs, s') \<and> stream s' = ([], Fin_eof)
           | Fin_error e \<Rightarrow> \<exists>s'. readn n s = Ret (-1, bs, s')
           | Fin_open \<Rightarrow> readn n s = Blocks))"
proof (cases "n \<le> length (fst (stream s))")
  case True
  then show ?thesis
    using readn_loop_enough [of n s n "[]"] by (simp add: readn_def case_prod_unfold)
next
  case False
  then show ?thesis
    using readn_loop_short [of s n n "[]"] by (cases "snd (stream s)") (simp_all add: readn_def case_prod_unfold)
qed

text \<open>
  \<^verbatim>\<open>writen\<close> never loses, repeats or reorders bytes: it returns \<open>n\<close> only after the kernel took
  exactly the \<open>n\<close> bytes in order, and -1 only after it took a proper prefix of them; and if every
  write takes at least one byte or is interrupted, it returns \<open>n\<close> after at most \<open>n\<close> successful writes.
\<close>

theorem writen_correct:
  "(\<forall>rc sent w'. writen bs w = Ret (rc, sent, w') \<longrightarrow>
      rc = int (length bs) \<and> sent = bs \<or> rc = -1 \<and> (\<exists>k < length bs. sent = take k bs))
   \<and> ((\<forall>a\<in>set w. a = Werr EINTR \<or> (\<exists>k > 0. a = Wrote k)) \<and> length bs \<le> length (filter (\<lambda>a. a \<noteq> Werr EINTR) w) \<longrightarrow>
      (\<exists>w'. writen bs w = Ret (int (length bs), bs, w')))"
  using writen_loop_sent [of "length bs" "[]" bs w] writen_loop_all [of w bs "length bs" "[]"]
  by (auto simp: writen_def)

theorem writen_correct_witness:
  "writen [1, 2, 3] [Wrote 2, Werr EINTR, Wrote 7, Wrote 9] = Ret (3, [1, 2, 3], [Wrote 9])
   \<and> (\<exists>w'. writen [1, 2, 3] [Wrote 2, Werr EINTR, Wrote 7, Wrote 9] = Ret (3, [1, 2, 3], w'))"
  using writen_correct [of "[1, 2, 3]" "[Wrote 2, Werr EINTR, Wrote 7, Wrote 9]"]
  by (simp add: writen_def Let_def)

text \<open>
  (C6) \<^verbatim>\<open>readline\<close> with its static buffer returns the lines of the stream, as \<^verbatim>\<open>fgets\<close> would,
  for every chunking: it stores the line and a NUL and keeps the rest for the next call. The value
  returned is the number of bytes of a line that ends in a newline or at the end of the file; but
  when the line fills the room it returns \<^verbatim>\<open>maxlen\<close>, one more than the bytes it stored.
\<close>

theorem readline_correct:
  assumes "rline_ok r" and "rline_stream r = (bs, f)" and "fgets (maxlen - 1) bs = (l, rest)" and "1 < maxlen"
  shows "if l \<noteq> [] \<and> last l = 10 then
      \<exists>r'. readline maxlen r = Ret (int (length l), l @ [0], r') \<and> rline_stream r' = (rest, f) \<and> rline_ok r'
    else if length l = maxlen - 1 then
      \<exists>r'. readline maxlen r = Ret (int (length l) + 1, l @ [0], r') \<and> rline_stream r' = (rest, f) \<and> rline_ok r'
    else (case f of
            Fin_eof \<Rightarrow> \<exists>r'. readline maxlen r = Ret (int (length l), l @ [0], r') \<and> rline_stream r' = ([], Fin_eof) \<and> rline_ok r'
          | Fin_error e \<Rightarrow> \<exists>r'. readline maxlen r = Ret (-1, l, r')
          | Fin_open \<Rightarrow> readline maxlen r = Blocks)"
  using readline_line [OF assms(1-3)] readline_end [OF assms(1-3)] length_fgets [OF assms(3)] assms(4)
  by (cases f) auto

definition rline_start :: "ranswer list \<Rightarrow> rline" where
  "rline_start s = \<lparr>read_cnt = 0, read_ptr = [], rl_fd = s\<rparr>"

theorem readline_correct_witness:
  "\<exists>r'. readline 3 (rline_start [Chunk 97 [98], Rerr EINTR, Chunk 99 [10]]) = Ret (int (length [97, 98 :: u8]) + 1, [97, 98] @ [0], r')
     \<and> rline_stream r' = ([99, 10], Fin_open) \<and> rline_ok r'"
proof -
  let ?r = "rline_start [Chunk 97 [98], Rerr EINTR, Chunk 99 [10]]"
  have "rline_ok ?r" "rline_stream ?r = ([97, 98, 99, 10], Fin_open)"
    by (simp_all add: rline_start_def rline_ok_def rline_stream_def)
  moreover have "fgets (3 - 1) [97, 98, 99, 10] = ([97, 98 :: u8], [99, 10])"
    by code_simp
  ultimately show ?thesis
    using readline_correct [of ?r "[97, 98, 99, 10]" Fin_open 3 "[97, 98]" "[99, 10]"] by simp
qed

text \<open>
  The \<^verbatim>\<open>readline\<close> of \<^verbatim>\<open>server/\<close> and its reentrant variant return one too many also when the
  stream ends in an incomplete line: the value is the number of bytes stored with the NUL, whereas
  it is the number without the NUL for a line that ends in a newline.
\<close>

theorem server_readline_eof:
  assumes "raw_stream s = (bs, Fin_eof)" and "10 \<notin> set bs" and "bs \<noteq> []" and "length bs + 1 < maxlen"
  shows "\<exists>s'. server_readline maxlen s = Ret (int (length bs) + 1, bs @ [0], s')"
proof -
  have "fgets (maxlen - 1) bs = (bs, [])"
    using assms(2,4) by (intro fgets_no_newline) auto
  moreover have "\<not> (bs \<noteq> [] \<and> last bs = 10)" "length bs < maxlen - 1"
    using assms(2-4) by (metis last_in_set, simp)
  ultimately show ?thesis
    using one.loop_end [OF TrueI assms(1), of "maxlen - 1" bs "[]" server_eof 1 "[]"] assms(3)
    by (auto simp: server_readline_def server_eof_def add.commute)
qed

theorem server_readline_eof_witness:
  "\<exists>s'. server_readline 10 [Chunk 97 [98], Eof] = Ret (int (length [97, 98 :: u8]) + 1, [97, 98] @ [0], s')"
  by (rule server_readline_eof) simp_all

text \<open>
  \<^verbatim>\<open>str_echo\<close> echoes exactly what it receives: when the peer closes after sending some bytes,
  in any chunks and with any interruptions, and writing works, the function returns after having
  written the same bytes.
\<close>

theorem str_echo_correct:
  assumes "stream s = (bs, Fin_eof)" and "writable (length bs) w"
  shows "str_echo s w = Ret bs"
  using str_echo_loop_eof [OF assms, of "[]"] by (simp add: str_echo_def)

theorem str_echo_correct_witness:
  "str_echo [Chunk 1 [2], Rerr EINTR, Chunk 3 [], Eof] [Wrote 1, Wrote 5, Werr EINTR, Wrote 9] = Ret [1, 2, 3]"
  by (rule str_echo_correct) (simp_all add: writable_def)



end
