(* ===== verification/Framing.thy ===== *)
theory Framing
  imports Stream_Props Bytes Inet6_Props
begin

text \<open>
  Length-prefixed messages over TCP, \<^verbatim>\<open>socket.c\<close> of the message-boundary example: its own \<^verbatim>\<open>writen\<close>
  and \<^verbatim>\<open>readn\<close> (here \<open>msg_writen\<close>, \<open>msg_readn\<close>), \<^verbatim>\<open>sendMsg\<close>, \<^verbatim>\<open>recvMsg\<close>, and the functions that open the
  connection.
\<close>

section \<open>The code\<close>

fun msg_writen_loop :: "nat \<Rightarrow> u8 list \<Rightarrow> u8 list \<Rightarrow> wanswer list \<Rightarrow> (int \<times> u8 list \<times> wanswer list) outcome" where
  "msg_writen_loop n sent [] w = Ret (int n, sent, w)"
| "msg_writen_loop n sent (b # bs) [] = Blocks"
| "msg_writen_loop n sent (b # bs) (Werr e # w) = Ret (-1, sent, w)"
| "msg_writen_loop n sent (b # bs) (Wrote k # w) =
     msg_writen_loop n (sent @ take k (b # bs)) (drop k (b # bs)) w"

definition msg_writen :: "u8 list \<Rightarrow> wanswer list \<Rightarrow> (int \<times> u8 list \<times> wanswer list) outcome" where
  "msg_writen bs w = msg_writen_loop (length bs) [] bs w"

text \<open>
  \<^verbatim>\<open>sendMsg\<close>: the message is the memory it points to (\<^term>\<open>None\<close> for a null pointer), \<open>alloc\<close> says
  whether \<^verbatim>\<open>malloc\<close> succeeds. The outer \<^term>\<open>None\<close> is an access outside an object. The result is
  the return value, the bytes sent, whether \<^verbatim>\<open>fd\<close> was closed, and the rest of the script.
\<close>

definition sendMsg ::
  "bool \<Rightarrow> int \<Rightarrow> u8 list option \<Rightarrow> int \<Rightarrow> wanswer list \<Rightarrow> (int \<times> u8 list \<times> bool \<times> wanswer list) outcome option" where
  "sendMsg alloc fd msg len w =
     (case msg of
        None \<Rightarrow> Some (Ret (-1, [], False, w))
      | Some m \<Rightarrow>
          (if fd < 0 \<or> len \<le> 0 then Some (Ret (-1, [], False, w))
           else if \<not> alloc \<or> length m < nat len then None
           else
             (case msg_writen (net_bytes 4 (nat len) @ take (nat len) m) w of
                Ret (ret, sent, w) \<Rightarrow> Some (Ret (ret, sent, ret = -1, w))
              | Exits e \<Rightarrow> Some (Exits e)
              | Blocks \<Rightarrow> Some Blocks)))"

function msg_readn_loop :: "nat \<Rightarrow> nat \<Rightarrow> u8 list \<Rightarrow> ranswer list \<Rightarrow> (int \<times> u8 list \<times> ranswer list) outcome" where
  "msg_readn_loop sz count pt s =
     (if count > 0 then
        (case read_sys count s of
           None \<Rightarrow> Blocks
         | Some (Failed e, s) \<Rightarrow> Ret (-1, pt, s)
         | Some (At_eof, s) \<Rightarrow> Ret (int (sz - count), pt, s)
         | Some (Data bs, s) \<Rightarrow> msg_readn_loop sz (count - length bs) (pt @ bs) s)
      else Ret (int (sz - count), pt, s))"
  by pat_completeness auto
termination
  by (relation "measure (\<lambda>(sz, count, pt, s). script_size s)") (auto dest: read_sys_smaller)

declare msg_readn_loop.simps [simp del]

definition msg_readn :: "nat \<Rightarrow> ranswer list \<Rightarrow> (int \<times> u8 list \<times> ranswer list) outcome" where
  "msg_readn sz s = msg_readn_loop sz sz [] s"

text \<open>
  \<^verbatim>\<open>recvMsg\<close>: \<^verbatim>\<open>len\<close> starts as 0 and the header is read over it; \<open>alloc n\<close> says whether \<^verbatim>\<open>malloc(n)\<close>
  succeeds and \<open>junk\<close> is what the new memory holds. For a negative \<^verbatim>\<open>len\<close> the loop of \<^verbatim>\<open>readn\<close> does
  nothing and \<^verbatim>\<open>data[len]\<close> is in front of the memory: \<^term>\<open>None\<close>.
\<close>

definition header_len :: "u8 list \<Rightarrow> int" where
  "header_len h = sint (of_nat (net_val (h @ drop (length h) [0, 0, 0, 0])) :: u32)"

definition recvMsg ::
  "(nat \<Rightarrow> bool) \<Rightarrow> u8 list \<Rightarrow> ranswer list \<Rightarrow> (int \<times> u8 list \<times> bool \<times> ranswer list) outcome option" where
  "recvMsg alloc junk s =
     (case msg_readn 4 s of
        Exits e \<Rightarrow> Some (Exits e)
      | Blocks \<Rightarrow> Some Blocks
      | Ret (_, h, s) \<Rightarrow>
          (let len = header_len h in
           if len < 0 \<or> \<not> alloc (nat len + 1) then None
           else
             (case msg_readn (nat len) s of
                Exits e \<Rightarrow> Some (Exits e)
              | Blocks \<Rightarrow> Some Blocks
              | Ret (Len, bs, s) \<Rightarrow>
                  Some (Ret (Len, bs @ take (nat len - length bs) junk @ [0], Len = 0, s)))))"

text \<open>
  Opening a connection. \<^verbatim>\<open>accept\<close> gives a descriptor and the address of the peer; \<^verbatim>\<open>acceptConn\<close> passes
  the address of its own parameter, so that what the caller pointed to stays as it was. \<^verbatim>\<open>inet_pton\<close>
  may fail and then leaves the (uninitialised) address, which \<^verbatim>\<open>connect\<close> gets all the same.
\<close>

definition acceptConn :: "u8 list option \<Rightarrow> int \<times> u8 list \<Rightarrow> int \<times> u8 list option" where
  "acceptConn addr accepted = (fst accepted, addr)"

definition connectToHost ::
  "u8 list \<Rightarrow> string \<Rightarrow> nat \<Rightarrow> u8 list \<Rightarrow> (u8 list \<Rightarrow> u8 list \<Rightarrow> int) \<Rightarrow> int option" where
  "connectToHost junk ip port uninit connect =
     (case inet_pton junk AF_INET ip uninit of
        None \<Rightarrow> None
      | Some (_, s_addr) \<Rightarrow> Some (connect (net_bytes 2 port) s_addr))"

definition createsocket :: "int \<Rightarrow> int" where
  "createsocket lfd = (if lfd = -1 then -1 else lfd)"

definition setListen :: "int \<Rightarrow> int" where
  "setListen bind_ret = (if bind_ret = -1 then -1 else 1)"

section \<open>Lemmas\<close>

lemma msg_readn_loop_simps:
  "msg_readn_loop n nleft stored [] = (if 0 < nleft then Blocks else Ret (int n, stored, []))"
  "msg_readn_loop n nleft stored (Eof # s) = Ret (int (n - nleft), stored, Eof # s)"
  "msg_readn_loop n nleft stored (Rerr e # s) =
    (if nleft = 0 then Ret (int n, stored, Rerr e # s) else Ret (-1, stored, s))"
  by (subst msg_readn_loop.simps, simp)+

lemma msg_readn_loop_Chunk:
  "msg_readn_loop n nleft stored (Chunk b bs # s) =
    (if nleft < length (b # bs)
     then Ret (int n, stored @ take nleft (b # bs), case drop nleft (b # bs) of [] \<Rightarrow> s | c # cs \<Rightarrow> Chunk c cs # s)
     else msg_readn_loop n (nleft - length (b # bs)) (stored @ b # bs) s)"
proof (cases "nleft < length (b # bs)")
  case True
  have "msg_readn_loop n 0 st s'' = Ret (int n, st, s'')" for st s''
    by (subst msg_readn_loop.simps) simp
  then show ?thesis
    using True by (subst msg_readn_loop.simps) (auto simp: min_absorb2)
next
  case False
  then show ?thesis
    by (subst msg_readn_loop.simps) (auto simp: drop_all)
qed

lemma msg_readn_loop_enough:
  assumes "nleft \<le> length (fst (raw_stream s))"
  shows "\<exists>s'. msg_readn_loop n nleft stored s = Ret (int n, stored @ take nleft (fst (raw_stream s)), s')
    \<and> raw_stream s' = (drop nleft (fst (raw_stream s)), snd (raw_stream s))"
  using assms
proof (induction s arbitrary: nleft stored)
  case (Cons a s)
  show ?case
  proof (cases a)
    case (Chunk b bs)
    define xs where "xs = b # bs"
    have st: "raw_stream (a # s) = (xs @ fst (raw_stream s), snd (raw_stream s))"
      by (simp add: Chunk xs_def)
    have step: "msg_readn_loop n nleft stored (a # s) =
        (if nleft < length xs then Ret (int n, stored @ take nleft xs, case drop nleft xs of [] \<Rightarrow> s | c # cs \<Rightarrow> Chunk c cs # s)
         else msg_readn_loop n (nleft - length xs) (stored @ xs) s)"
      unfolding Chunk xs_def by (rule msg_readn_loop_Chunk)
    show ?thesis
    proof (cases "nleft < length xs")
      case True
      then show ?thesis
        unfolding st step by (simp add: raw_stream_rest)
    next
      case False
      then show ?thesis
        using Cons.IH [of "nleft - length xs" "stored @ xs"] Cons.prems unfolding st step by simp
    qed
  qed (use Cons.prems in \<open>simp_all add: msg_readn_loop_simps\<close>)
qed (simp add: msg_readn_loop_simps)

lemma msg_readn_eof:
  "raw_stream s = ([], Fin_eof) \<Longrightarrow> \<exists>s'. msg_readn n s = Ret (0, [], s') \<and> raw_stream s' = ([], Fin_eof)"
  by (cases s rule: raw_stream.cases) (auto simp: msg_readn_def msg_readn_loop_simps)

text \<open>One message on the wire.\<close>

definition frame :: "u8 list \<Rightarrow> u8 list" where
  "frame m = net_bytes 4 (length m) @ m"

definition sendable :: "u8 list \<Rightarrow> bool" where
  "sendable m \<longleftrightarrow> 0 < length m \<and> length m < 2 ^ 31 - 4"

lemma header_len_frame:
  assumes "n < 2 ^ 31"
  shows "header_len (net_bytes 4 n) = int n"
proof -
  have "net_val (net_bytes 4 n @ drop 4 [0, 0, 0, 0]) = n"
    using assms by (simp add: host_val_bytes)
  moreover have "sint (of_nat n :: u32) = int n"
    using assms by (simp add: sint_uint signed_take_bit_int_eq_self take_bit_nat_eq_self unsigned_of_nat)
  ultimately show ?thesis
    by (simp add: header_len_def)
qed

lemma recvMsg_frame:
  assumes "raw_stream s = (frame m @ rest, f)" and "sendable m" and "alloc (length m + 1)"
  shows "\<exists>s'. recvMsg alloc junk s = Some (Ret (int (length m), m @ [0], False, s')) \<and> raw_stream s' = (rest, f)"
proof -
  obtain s1 where s1: "msg_readn 4 s = Ret (4, net_bytes 4 (length m), s1)" "raw_stream s1 = (m @ rest, f)"
    using msg_readn_loop_enough [of 4 s 4 "[]"] assms(1) by (auto simp: msg_readn_def frame_def)
  obtain s2 where "msg_readn (length m) s1 = Ret (int (length m), m, s2)" "raw_stream s2 = (rest, f)"
    using msg_readn_loop_enough [of "length m" s1 "length m" "[]"] s1(2) by (auto simp: msg_readn_def)
  moreover have "header_len (net_bytes 4 (length m)) = int (length m)"
    using assms(2) by (intro header_len_frame) (simp add: sendable_def)
  ultimately show ?thesis
    using s1 assms(2,3) by (auto simp: recvMsg_def sendable_def)
qed

lemma recvMsg_eof:
  assumes "raw_stream s = ([], Fin_eof)" and "alloc 1"
  shows "\<exists>s'. recvMsg alloc junk s = Some (Ret (0, [0], True, s'))"
proof -
  obtain s1 where s1: "msg_readn 4 s = Ret (0, [], s1)" "raw_stream s1 = ([], Fin_eof)"
    using msg_readn_eof [OF assms(1)] by blast
  moreover have "header_len [] = 0"
    by (simp add: header_len_def host_val_def)
  moreover obtain s2 where "msg_readn 0 s1 = Ret (0, [], s2)"
    using msg_readn_eof [OF s1(2), of 0] by blast
  ultimately show ?thesis
    using assms(2) by (simp add: recvMsg_def)
qed

lemma msg_writen_loop_all:
  "length bs \<le> sum_list ks \<Longrightarrow> \<exists>w'. msg_writen_loop n sent bs (map Wrote ks) = Ret (int n, sent @ bs, w')"
proof (induction ks arbitrary: sent bs)
  case Nil
  then show ?case
    by simp
next
  case (Cons k ks)
  show ?case
  proof (cases bs)
    case (Cons b cs)
    have "msg_writen_loop n sent bs (map Wrote (k # ks)) =
        msg_writen_loop n (sent @ take k bs) (drop k bs) (map Wrote ks)"
      by (simp add: Cons)
    moreover have "\<exists>w'. msg_writen_loop n (sent @ take k bs) (drop k bs) (map Wrote ks) =
        Ret (int n, (sent @ take k bs) @ drop k bs, w')"
      using Cons.prems by (intro Cons.IH) auto
    ultimately show ?thesis
      by (simp only: append.assoc append_take_drop_id)
  qed simp
qed

lemma sendMsg_frame:
  assumes "0 \<le> fd" and "sendable m" and "length m + 4 \<le> sum_list ks"
  shows "\<exists>w'. sendMsg True fd (Some m) (int (length m)) (map Wrote ks) = Some (Ret (int (length m + 4), frame m, False, w'))"
proof -
  have m: "m \<noteq> []"
    using assms(2) by (auto simp: sendable_def)
  obtain w' where "msg_writen_loop (length (frame m)) [] (frame m) (map Wrote ks) = Ret (int (length (frame m)), [] @ frame m, w')"
    using msg_writen_loop_all [of "frame m" ks "length (frame m)" "[]"] assms(3) by (auto simp: frame_def)
  then have "msg_writen (frame m) (map Wrote ks) = Ret (int (length m + 4), frame m, w')"
    by (simp add: msg_writen_def frame_def)
  then show ?thesis
    using assms(1) m by (simp add: sendMsg_def frame_def)
qed

text \<open>A receiver that calls \<^verbatim>\<open>recvMsg\<close> \<open>k\<close> times: return values, messages, and whether \<^verbatim>\<open>fd\<close> was closed.\<close>

fun recv_msgs :: "(nat \<Rightarrow> bool) \<Rightarrow> u8 list \<Rightarrow> nat \<Rightarrow> ranswer list \<Rightarrow> (int \<times> u8 list \<times> bool) list option" where
  "recv_msgs alloc junk 0 s = Some []"
| "recv_msgs alloc junk (Suc k) s =
     (case recvMsg alloc junk s of
        Some (Ret (Len, m, closed, s)) \<Rightarrow> map_option (\<lambda>ms. (Len, m, closed) # ms) (recv_msgs alloc junk k s)
      | _ \<Rightarrow> None)"

lemma recv_msgs_frames:
  assumes "\<forall>m\<in>set ms. sendable m" and "raw_stream s = (concat (map frame ms), Fin_eof)" and "\<forall>n. alloc n"
  shows "recv_msgs alloc junk (length ms + 1) s =
    Some (map (\<lambda>m. (int (length m), m @ [0], False)) ms @ [(0, [0], True)])"
  using assms
proof (induction ms arbitrary: s)
  case Nil
  have st: "raw_stream s = ([], Fin_eof)" and "alloc 1"
    using Nil.prems by simp_all
  then obtain s' where "recvMsg alloc junk s = Some (Ret (0, [0], True, s'))"
    using recvMsg_eof [OF st, of alloc junk] by blast
  then show ?case
    by simp
next
  case (Cons m ms)
  have st: "raw_stream s = (frame m @ concat (map frame ms), Fin_eof)" and ok: "sendable m" "alloc (length m + 1)"
    using Cons.prems by simp_all
  obtain s' where s': "recvMsg alloc junk s = Some (Ret (int (length m), m @ [0], False, s'))"
      "raw_stream s' = (concat (map frame ms), Fin_eof)"
    using recvMsg_frame [OF st, of alloc junk] ok by blast
  have "recv_msgs alloc junk (length ms + 1) s' =
      Some (map (\<lambda>m. (int (length m), m @ [0], False)) ms @ [(0, [0], True)])"
    using Cons.prems(1) by (intro Cons.IH s'(2) Cons.prems(3)) simp
  with s'(1) show ?case
    by simp
qed

lemma net_bytes_4:
  "net_bytes 4 n = [of_nat (n div 256 div 256 div 256 mod 256), of_nat (n div 256 div 256 mod 256),
     of_nat (n div 256 mod 256), of_nat (n mod 256)]"
proof -
  have "(4 :: nat) = Suc (Suc (Suc (Suc 0)))"
    by simp
  then show ?thesis
    by (simp only: host_bytes_def bytes_le.simps if_False rev.simps append.simps)
qed

lemma sint_high_bit:
  assumes "2 ^ 31 \<le> n" and "n < 2 ^ 32"
  shows "sint (of_nat n :: u32) = int n - 2 ^ 32"
proof -
  have "n div 2 ^ 31 = 1"
    using assms by (intro div_nat_eqI) simp_all
  then have "int n div 2 ^ 31 = 1"
    by (metis of_nat_1 of_nat_numeral of_nat_power zdiv_int)
  then have "bit (int n) 31"
    by (simp add: bit_iff_odd)
  moreover have "take_bit 32 (int n) = int n"
    using assms by (simp add: take_bit_int_eq_self)
  ultimately have "signed_take_bit 31 (int n) = int n - 2 ^ 32"
    by (simp add: signed_take_bit_eq_take_bit_minus)
  moreover have "take_bit 32 n = n"
    using assms by (simp add: take_bit_nat_eq_self)
  ultimately show ?thesis
    by (simp add: sint_uint unsigned_of_nat)
qed

section \<open>Properties\<close>

text \<open>
  (C10) Message boundaries survive TCP. \<^verbatim>\<open>sendMsg\<close> puts a message on the wire as its length in
  network order and its bytes, however the kernel splits the writes; and a receiver that calls
  \<^verbatim>\<open>recvMsg\<close> on a stream of such messages, cut into any chunks, gets exactly these messages in
  order, each terminated by a NUL, and then 0 with the descriptor closed.
\<close>

theorem framing_round_trip:
  assumes "\<forall>m\<in>set ms. sendable m" and "raw_stream s = (concat (map frame ms), Fin_eof)" and "\<forall>n. alloc n"
    and "0 \<le> fd"
  shows "(\<forall>m\<in>set ms. \<forall>ks. length m + 4 \<le> sum_list ks \<longrightarrow>
      (\<exists>w'. sendMsg True fd (Some m) (int (length m)) (map Wrote ks) =
        Some (Ret (int (length m + 4), frame m, False, w'))))
    \<and> recv_msgs alloc junk (length ms + 1) s =
      Some (map (\<lambda>m. (int (length m), m @ [0], False)) ms @ [(0, [0], True)])"
proof (intro conjI ballI allI impI)
  fix m ks
  assume "m \<in> set ms" and "length m + 4 \<le> sum_list ks"
  then show "\<exists>w'. sendMsg True fd (Some m) (int (length m)) (map Wrote ks) =
      Some (Ret (int (length m + 4), frame m, False, w'))"
    using sendMsg_frame [OF assms(4), of m ks] assms(1) by blast
qed (rule recv_msgs_frames [OF assms(1-3)])

theorem framing_round_trip_witness:
  "recv_msgs (\<lambda>n. True) [] (length [[104 :: u8, 105], [106]] + 1)
      [Chunk 0 [0], Chunk 0 [2, 104], Chunk 105 [0, 0, 0, 1], Chunk 106 [], Eof] =
    Some (map (\<lambda>m. (int (length m), m @ [0], False)) [[104, 105], [106]] @ [(0, [0], True)])"
proof (rule framing_round_trip [where fd = 3, THEN conjunct2])
  show "raw_stream [Chunk 0 [0], Chunk 0 [2, 104], Chunk 105 [0, 0, 0, 1], Chunk 106 [], Eof] =
      (concat (map frame [[104, 105], [106]]), Fin_eof)"
    by (simp add: frame_def net_bytes_4)
qed (simp_all add: sendable_def)

text \<open>
  \<^verbatim>\<open>recvMsg\<close> trusts the length it receives: a header with the top bit set makes \<^verbatim>\<open>len\<close>
  negative, and the terminating NUL is then written in front of the allocated memory, whatever the
  peer sends next.
\<close>

theorem recvMsg_negative_length:
  assumes "raw_stream s = (h @ rest, f)" and "length h = 4" and "128 \<le> unat (h ! 0)"
  shows "recvMsg alloc junk s = None"
proof -
  obtain a b c d where h: "h = [a, b, c, d]"
    using assms(2) by (rule length4_cases)
  obtain s1 where s1: "msg_readn 4 s = Ret (4, h, s1)"
    using msg_readn_loop_enough [of 4 s 4 "[]"] assms(1,2) by (auto simp: msg_readn_def)
  let ?n = "net_val h"
  have n: "2 ^ 31 \<le> ?n" "?n < 2 ^ 32"
    using assms(3) host_val_less [of False h] assms(2) by (simp_all add: h host_val_def)
  have "sint (of_nat ?n :: u32) = int ?n - 2 ^ 32"
    by (rule sint_high_bit [OF n])
  then have "header_len h < 0"
    using n(2) assms(2) by (simp add: header_len_def)
  then show ?thesis
    using s1 by (simp add: recvMsg_def)
qed

theorem recvMsg_negative_length_witness:
  "recvMsg (\<lambda>n. True) [] [Chunk 255 [255, 255, 255]] = None"
  by (rule recvMsg_negative_length [of _ "[255, 255, 255, 255]" "[]" Fin_open]) simp_all

end
