(* ===== verification/Rtt.thy ===== *)
theory Rtt
  imports Prelude Complex_Main "HOL-Library.Log_Nat"
begin

text \<open>
  Retransmission timeouts: the RTT estimators of \<^verbatim>\<open>lib/rtt.c\<close> and the reliable request of
  \<^verbatim>\<open>rtt/dg_send_recv.c\<close> over them. The values are binary floating-point numbers: exact rationals
  rounded to 24 (\<^verbatim>\<open>float\<close>) or 53 (\<^verbatim>\<open>double\<close>) bits, half to even, after every operation; the magnitudes
  that occur are far from overflow and underflow.
\<close>

section \<open>Rounding\<close>

text \<open>The integer part of the binary logarithm of a positive number.\<close>

definition ilog2 :: "rat \<Rightarrow> int" where
  "ilog2 x =
     (case quotient_of x of (n, d) \<Rightarrow>
        let k = int (floorlog 2 (nat n)) - int (floorlog 2 (nat d))
        in if 2 powi k \<le> x then k else k - 1)"

definition round_even :: "rat \<Rightarrow> int" where
  "round_even x =
     (let k = \<lfloor>x\<rfloor>; r = x - of_int k
      in if r < 1/2 then k else if r > 1/2 then k + 1 else if even k then k else k + 1)"

definition fl :: "nat \<Rightarrow> rat \<Rightarrow> rat" where
  "fl p x =
     (if x = 0 then 0
      else let e = ilog2 \<bar>x\<bar> - (int p - 1)
           in of_int (round_even (x * 2 powi (- e))) * 2 powi e)"

abbreviation flt :: "rat \<Rightarrow> rat" where
  "flt \<equiv> fl 24"

abbreviation dbl :: "rat \<Rightarrow> rat" where
  "dbl \<equiv> fl 53"

section \<open>The estimators\<close>

record rtt_info =
  rtt_rtt :: rat
  rtt_srtt :: rat
  rtt_rttvar :: rat
  rtt_rto :: rat
  rtt_nrexmt :: int
  rtt_base :: u32

definition RTT_RXTMIN :: rat where
  "RTT_RXTMIN = 2"

definition RTT_RXTMAX :: rat where
  "RTT_RXTMAX = 60"

definition RTT_MAXNREXMT :: int where
  "RTT_MAXNREXMT = 3"

definition RTT_RTOCALC :: "rtt_info \<Rightarrow> rat" where
  "RTT_RTOCALC p = dbl (rtt_srtt p + dbl (4 * rtt_rttvar p))"

definition rtt_minmax :: "rat \<Rightarrow> rat" where
  "rtt_minmax rto = (if rto < RTT_RXTMIN then RTT_RXTMIN else if rto > RTT_RXTMAX then RTT_RXTMAX else rto)"

text \<open>The time of day is a pair of seconds and microseconds.\<close>

definition rtt_init :: "int \<times> int \<Rightarrow> rtt_info \<Rightarrow> rtt_info" where
  "rtt_init now p =
     (let p = p\<lparr>rtt_base := of_int (fst now), rtt_rtt := 0, rtt_srtt := 0, rtt_rttvar := 3/4\<rparr>
      in p\<lparr>rtt_rto := rtt_minmax (flt (RTT_RTOCALC p))\<rparr>)"

definition rtt_ts :: "int \<times> int \<Rightarrow> rtt_info \<Rightarrow> u32" where
  "rtt_ts now p = of_int ((fst now - int (unat (rtt_base p))) * 1000 + snd now div 1000)"

definition rtt_newpack :: "rtt_info \<Rightarrow> rtt_info" where
  "rtt_newpack p = p\<lparr>rtt_nrexmt := 0\<rparr>"

definition rtt_start :: "rtt_info \<Rightarrow> int" where
  "rtt_start p = \<lfloor>dbl (rtt_rto p + 1/2)\<rfloor>"

definition rtt_stop :: "u32 \<Rightarrow> rtt_info \<Rightarrow> rtt_info" where
  "rtt_stop ms p =
     (let p = p\<lparr>rtt_rtt := flt (dbl (of_nat (unat ms) / 1000))\<rparr>;
          delta = flt (rtt_rtt p - rtt_srtt p);
          p = p\<lparr>rtt_srtt := flt (dbl (rtt_srtt p + dbl (delta / 8)))\<rparr>;
          delta = (if delta < 0 then - delta else delta);
          p = p\<lparr>rtt_rttvar := flt (dbl (rtt_rttvar p + dbl (dbl (delta - rtt_rttvar p) / 4)))\<rparr>
      in p\<lparr>rtt_rto := rtt_minmax (flt (RTT_RTOCALC p))\<rparr>)"

definition rtt_timeout :: "rtt_info \<Rightarrow> int \<times> rtt_info" where
  "rtt_timeout p =
     (let p = p\<lparr>rtt_rto := flt (rtt_rto p * 2)\<rparr>;
          p = p\<lparr>rtt_nrexmt := rtt_nrexmt p + 1\<rparr>
      in (if rtt_nrexmt p > RTT_MAXNREXMT then -1 else 0, p))"

section \<open>The request\<close>

text \<open>
  What happens while \<^verbatim>\<open>dg_send_recv\<close> waits: a datagram arrives (its size, the header in it, and the
  time), or the alarm goes off (and the time of the transmission that follows). A datagram sent is
  the sequence number, the timestamp and the user's bytes.
\<close>

datatype event = Arrive nat u32 u32 "int \<times> int" | Alarm "int \<times> int"

record dg_state =
  rttinfo :: rtt_info
  rttinit :: bool
  sendseq :: u32

type_synonym sent_dg = "u32 \<times> u32 \<times> u8 list"

text \<open>From the \<^verbatim>\<open>do\<close> loop on, with the jump back to \<^verbatim>\<open>sendagain\<close> after an alarm.\<close>

fun dg_wait :: "u8 list \<Rightarrow> dg_state \<Rightarrow> sent_dg list \<Rightarrow> event list \<Rightarrow> (int \<times> sent_dg list \<times> dg_state) outcome" where
  "dg_wait outbuff st sent [] = Blocks"
| "dg_wait outbuff st sent (Alarm now # evs) =
     (case rtt_timeout (rttinfo st) of (rc, p) \<Rightarrow>
        if rc < 0 then Ret (-1, sent, st\<lparr>rttinfo := p, rttinit := False\<rparr>)
        else dg_wait outbuff (st\<lparr>rttinfo := p\<rparr>) (sent @ [(sendseq st, rtt_ts now p, outbuff)]) evs)"
| "dg_wait outbuff st sent (Arrive n sq ts now # evs) =
     (if n < 8 \<or> sq \<noteq> sendseq st then dg_wait outbuff st sent evs
      else Ret (int n - 8, sent, st\<lparr>rttinfo := rtt_stop (rtt_ts now (rttinfo st) - ts) (rttinfo st)\<rparr>))"

definition dg_send_recv ::
  "u8 list \<Rightarrow> dg_state \<Rightarrow> int \<times> int \<Rightarrow> event list \<Rightarrow> (int \<times> sent_dg list \<times> dg_state) outcome" where
  "dg_send_recv outbuff st now evs =
     (let st = (if rttinit st then st else st\<lparr>rttinfo := rtt_init now (rttinfo st), rttinit := True\<rparr>);
          st = st\<lparr>sendseq := sendseq st + 1\<rparr>;
          st = st\<lparr>rttinfo := rtt_newpack (rttinfo st)\<rparr>
      in dg_wait outbuff st [(sendseq st, rtt_ts now (rttinfo st), outbuff)] evs)"

definition Dg_send_recv ::
  "u8 list \<Rightarrow> dg_state \<Rightarrow> int \<times> int \<Rightarrow> event list \<Rightarrow> (int \<times> sent_dg list \<times> dg_state) outcome" where
  "Dg_send_recv outbuff st now evs =
     (case dg_send_recv outbuff st now evs of
        Ret (n, sent, st) \<Rightarrow> if n < 0 then Exits ''dg_send_recv error'' else Ret (n, sent, st)
      | r \<Rightarrow> r)"

section \<open>Lemmas on rounding\<close>

lemma powi_add: "(2 :: rat) powi (a + b) = 2 powi a * 2 powi b"
  by (simp add: power_int_add)

lemma powi_pos: "0 < (2 :: rat) powi a"
  by simp

lemma powi_le: "(2 :: rat) powi a \<le> 2 powi b \<longleftrightarrow> a \<le> b"
  using power_int_increasing [of a b "2 :: rat"] power_int_strict_increasing [of b a "2 :: rat"]
  by (cases "a \<le> b") (auto simp: not_le)

lemma powi_less: "(2 :: rat) powi a < 2 powi b \<longleftrightarrow> a < b"
  using powi_le [of b a] by (simp only: linorder_not_le [symmetric])

lemma nat_powi:
  assumes "0 < n"
  shows "2 ^ k \<le> nat n \<longleftrightarrow> (2 :: rat) powi int k \<le> of_int n" "nat n < 2 ^ k \<longleftrightarrow> of_int n < (2 :: rat) powi int k"
proof -
  have "(2 ^ k \<le> nat n) = (2 ^ k \<le> n)"
    using assms by (simp add: le_nat_iff)
  also have "\<dots> \<longleftrightarrow> (2 :: rat) powi int k \<le> of_int n"
    by (metis of_int_le_iff of_int_numeral of_int_power power_int_of_nat)
  finally show le: "2 ^ k \<le> nat n \<longleftrightarrow> (2 :: rat) powi int k \<le> of_int n" .
  then show "nat n < 2 ^ k \<longleftrightarrow> of_int n < (2 :: rat) powi int k"
    by (simp only: linorder_not_le [symmetric])
qed

lemma ilog2_bounds:
  assumes "0 < x"
  shows "2 powi (ilog2 x) \<le> x" "x < 2 powi (ilog2 x + 1)"
proof -
  obtain n d where q: "quotient_of x = (n, d)"
    by force
  have d: "0 < d" and x: "x = of_int n / of_int d"
    using quotient_of_denom_pos [OF q] quotient_of_div [OF q] by auto
  then have n: "0 < n"
    using assms by (simp add: zero_less_divide_iff)
  define a b where "a = floorlog 2 (nat n)" and "b = floorlog 2 (nat d)"
  have a: "2 ^ (a - 1) \<le> nat n" "nat n < 2 ^ a" and b: "2 ^ (b - 1) \<le> nat d" "nat d < 2 ^ b"
    using floorlog_bounds [of "nat n" 2] floorlog_bounds [of "nat d" 2] n d by (auto simp: a_def b_def)
  have ab: "1 \<le> a" "1 \<le> b"
    using n d floorlog_eq_zero_iff [of 2 "nat n"] floorlog_eq_zero_iff [of 2 "nat d"] by (auto simp: a_def b_def)
  have e: "int (a - 1) = int a - 1" "int (b - 1) = int b - 1"
    using ab by simp_all
  have r: "(2 :: rat) powi (int a - 1) \<le> of_int n" "of_int n < (2 :: rat) powi (int a)"
    "(2 :: rat) powi (int b - 1) \<le> of_int d" "of_int d < (2 :: rat) powi (int b)"
    unfolding e [symmetric] using a b nat_powi [OF n] nat_powi [OF d] by blast+
  have "int a - int b - 1 = (int a - 1) - int b" "int a - int b + 1 = int a - (int b - 1)"
    by linarith+
  then have split: "(2 :: rat) powi (int a - int b - 1) = 2 powi (int a - 1) / 2 powi int b"
    "(2 :: rat) powi (int a - int b + 1) = 2 powi int a / 2 powi (int b - 1)"
    using power_int_diff [of "2 :: rat"] by (metis zero_neq_numeral)+
  have lo: "2 powi (int a - int b - 1) \<le> x"
    unfolding split x using r d n by (intro frac_le) simp_all
  have hi: "x < 2 powi (int a - int b + 1)"
    unfolding split x using r n by (intro frac_less) simp_all
  show "2 powi (ilog2 x) \<le> x" "x < 2 powi (ilog2 x + 1)"
    using lo hi by (auto simp: ilog2_def q Let_def a_def [symmetric] b_def [symmetric])
qed

lemma ilog2_unique: "2 powi k \<le> x \<Longrightarrow> x < 2 powi (k + 1) \<Longrightarrow> ilog2 x = k"
proof -
  assume k: "2 powi k \<le> x" "x < 2 powi (k + 1)"
  then have "0 < x"
    using powi_pos [of k] by linarith
  note l = ilog2_bounds [OF this]
  have "(2 :: rat) powi k < 2 powi (ilog2 x + 1)" "(2 :: rat) powi ilog2 x < 2 powi (k + 1)"
    using k l by linarith+
  then show "ilog2 x = k"
    unfolding powi_less by linarith
qed

lemma round_even_near: "\<bar>of_int (round_even x) - x\<bar> \<le> 1/2"
proof -
  define k r where "k = \<lfloor>x\<rfloor>" and "r = x - of_int k"
  have r: "0 \<le> r" "r < 1" and x: "x = of_int k + r"
    unfolding r_def k_def by linarith+
  have "round_even x = (if r < 1/2 then k else if r > 1/2 then k + 1 else if even k then k else k + 1)"
    by (simp only: round_even_def Let_def k_def r_def)
  then show ?thesis
    using r unfolding x by (auto simp: abs_if)
qed

lemma round_even_int [simp]: "round_even (of_int k) = k"
  by (simp add: round_even_def)

text \<open>The relative error of rounding to \<open>p\<close> bits.\<close>

lemma fl_error: "\<bar>fl p x - x\<bar> \<le> \<bar>x\<bar> * 2 powi (- int p)"
proof (cases "x = 0")
  case False
  define e where "e = ilog2 \<bar>x\<bar> - (int p - 1)"
  let ?y = "x * 2 powi (- e)"
  have unit: "(2 :: rat) powi (- e) * 2 powi e = 1"
    by (simp add: powi_add [symmetric])
  have "fl p x - x = (of_int (round_even ?y) - ?y) * 2 powi e"
    using False unit by (simp add: fl_def e_def [symmetric] Let_def left_diff_distrib mult.assoc)
  then have "\<bar>fl p x - x\<bar> \<le> 1/2 * 2 powi e"
    using round_even_near [of ?y] by (simp add: abs_mult mult_right_mono)
  also have "\<dots> = 2 powi (ilog2 \<bar>x\<bar>) * 2 powi (- int p)"
    by (simp add: e_def power_int_add power_int_diff power_int_minus field_simps)
  also have "\<dots> \<le> \<bar>x\<bar> * 2 powi (- int p)"
    using ilog2_bounds(1) [of "\<bar>x\<bar>"] False by (intro mult_right_mono) simp_all
  finally show ?thesis .
qed (simp add: fl_def)


text \<open>Numbers with a significand of \<open>p\<close> bits are not changed, and rounding gives such numbers.\<close>

definition representable :: "nat \<Rightarrow> rat \<Rightarrow> bool" where
  "representable p x \<longleftrightarrow> (\<exists>m e. x = of_int m * 2 powi e \<and> \<bar>m\<bar> \<le> 2 ^ p)"

lemma powi_nat: "0 \<le> k \<Longrightarrow> (2 :: rat) powi k = of_int (2 ^ nat k)"
  by (simp add: power_int_def)

lemma representable_0: "representable p 0"
  unfolding representable_def by (intro exI [of _ 0]) simp

lemma fl_representable: "representable p (fl p x)"
proof (cases "x = 0")
  case False
  define e where "e = ilog2 \<bar>x\<bar> - (int p - 1)"
  let ?y = "x * 2 powi (- e)"
  have "\<bar>?y\<bar> = \<bar>x\<bar> * 2 powi (- e)"
    by (simp add: abs_mult)
  also have "\<dots> < 2 powi (ilog2 \<bar>x\<bar> + 1) * 2 powi (- e)"
    using ilog2_bounds(2) [of "\<bar>x\<bar>"] False by (intro mult_strict_right_mono) simp_all
  also have "\<dots> = 2 powi int p"
    unfolding powi_add [symmetric] by (simp add: e_def)
  also have "\<dots> = of_int (2 ^ p)"
    by (simp add: power_int_def)
  finally have y: "\<bar>?y\<bar> < of_int (2 ^ p)" .
  have "of_int \<bar>round_even ?y\<bar> \<le> \<bar>?y\<bar> + 1/2"
    using round_even_near [of ?y] by (simp add: abs_if split: if_splits)
  then have "(of_int \<bar>round_even ?y\<bar> :: rat) < of_int (2 ^ p + 1)"
    using y by simp
  then have "\<bar>round_even ?y\<bar> < 2 ^ p + 1"
    by (simp only: of_int_less_iff)
  then show ?thesis
    using False unfolding representable_def
    by (intro exI [of _ "round_even ?y"] exI [of _ e]) (simp add: fl_def e_def [symmetric] Let_def)
qed (simp add: fl_def representable_0)

lemma fl_integral:
  assumes "x \<noteq> 0" and "x * 2 powi (- (ilog2 \<bar>x\<bar> - (int p - 1))) = of_int z"
  shows "fl p x = x"
proof -
  define e where "e = ilog2 \<bar>x\<bar> - (int p - 1)"
  have "fl p x = of_int z * 2 powi e"
    using assms by (simp add: fl_def Let_def e_def)
  also have "\<dots> = x * (2 powi (- e) * 2 powi e)"
    using assms(2) by (simp add: e_def mult.assoc [symmetric])
  finally show ?thesis
    by (simp add: powi_add [symmetric])
qed

lemma fl_exact:
  assumes "representable p x" and "0 < p"
  shows "fl p x = x"
proof (cases "x = 0")
  case False
  obtain m e0 where x: "x = of_int m * 2 powi e0" and m: "\<bar>m\<bar> \<le> 2 ^ p"
    using assms(1) by (auto simp: representable_def)
  define e where "e = ilog2 \<bar>x\<bar> - (int p - 1)"
  have "\<exists>z. x * 2 powi (- e) = of_int z"
  proof (cases "e \<le> e0")
    case True
    have "x * 2 powi (- e) = of_int m * 2 powi (e0 - e)"
      unfolding x mult.assoc powi_add [symmetric] by simp
    also have "\<dots> = of_int (m * 2 ^ nat (e0 - e))"
      using True by (simp add: powi_nat)
    finally show ?thesis ..
  next
    case up: False
    have "(2 :: rat) powi (int p + e0) \<le> 2 powi (ilog2 \<bar>x\<bar>)"
      using up by (simp add: powi_le e_def)
    also have "\<dots> \<le> \<bar>x\<bar>"
      using False by (intro ilog2_bounds) simp
    finally have "2 powi int p * 2 powi e0 \<le> of_int \<bar>m\<bar> * (2 :: rat) powi e0"
      by (simp add: x abs_mult powi_add)
    then have "(2 :: rat) powi int p \<le> of_int \<bar>m\<bar>"
      by simp
    then have "(of_int (2 ^ p) :: rat) \<le> of_int \<bar>m\<bar>"
      by (simp add: power_int_def)
    then have "2 ^ p \<le> \<bar>m\<bar>"
      by (simp only: of_int_le_iff)
    then have m2: "\<bar>m\<bar> = 2 ^ p"
      using m by simp
    have "\<bar>x\<bar> = 2 powi (int p + e0)"
      unfolding x abs_mult powi_add of_int_abs [symmetric] m2 by (simp add: power_int_def)
    then have "ilog2 \<bar>x\<bar> = int p + e0"
      by (intro ilog2_unique) (simp_all add: powi_le powi_less)
    then have e: "e = e0 + 1"
      by (simp add: e_def)
    have "even \<bar>m\<bar>"
      unfolding m2 using assms(2) by simp
    then have "even m"
      by simp
    then obtain z where "m = 2 * z"
      by (elim evenE)
    then have "x * 2 powi (- e) = of_int z * (2 powi 1 * 2 powi e0 * 2 powi (- e))"
      by (simp add: x mult.assoc)
    also have "\<dots> = of_int z"
      unfolding powi_add [symmetric] e by simp
    finally show ?thesis ..
  qed
  then show ?thesis
    using fl_integral [OF False] unfolding e_def by blast
qed (simp add: fl_def)

lemma representable_double: "representable p x \<Longrightarrow> representable p (x * 2)"
  unfolding representable_def
proof (elim exE conjE)
  fix m e
  assume "x = of_int m * 2 powi e" "\<bar>m\<bar> \<le> 2 ^ p"
  then show "\<exists>m e. x * 2 = of_int m * 2 powi e \<and> \<bar>m\<bar> \<le> 2 ^ p"
    by (intro exI [of _ m] exI [of _ "e + 1"]) (simp add: powi_add mult.assoc)
qed

lemma representable_int: "\<bar>m\<bar> \<le> 2 ^ p \<Longrightarrow> representable p (of_int m)"
  unfolding representable_def by (intro exI [of _ m] exI [of _ 0]) simp

section \<open>The invariant of the estimators\<close>

lemma fl_bound: "\<bar>fl p x\<bar> \<le> 2 * \<bar>x\<bar>"
proof -
  have "(2 :: rat) powi (- int p) \<le> 2 powi 0"
    unfolding powi_le by simp
  then have "\<bar>x\<bar> * 2 powi (- int p) \<le> \<bar>x\<bar> * 1"
    by (intro mult_left_mono) simp_all
  then show ?thesis
    using fl_error [of p x] by linarith
qed

lemma fl_nonneg:
  assumes "0 \<le> x"
  shows "0 \<le> fl p x"
proof -
  have "(2 :: rat) powi (- int p) \<le> 2 powi 0"
    unfolding powi_le by simp
  then have "\<bar>x\<bar> * 2 powi (- int p) \<le> \<bar>x\<bar> * 1"
    by (intro mult_left_mono) simp_all
  then show ?thesis
    using fl_error [of p x] assms by linarith
qed

definition rtt_ok :: "rtt_info \<Rightarrow> bool" where
  "rtt_ok p \<longleftrightarrow> 0 \<le> rtt_srtt p \<and> 0 \<le> rtt_rttvar p \<and> RTT_RXTMIN \<le> rtt_rto p \<and> representable 24 (rtt_rto p)"

lemma rtt_minmax_range: "RTT_RXTMIN \<le> rtt_minmax x" "rtt_minmax x \<le> RTT_RXTMAX"
  by (simp_all add: rtt_minmax_def RTT_RXTMIN_def RTT_RXTMAX_def)

lemma rtt_minmax_representable: "representable 24 (rtt_minmax (flt x))"
  using representable_int [of 2 24] representable_int [of 60 24] fl_representable [of 24 x]
  by (simp add: rtt_minmax_def RTT_RXTMIN_def RTT_RXTMAX_def)

text \<open>A step of at most \<open>1/4\<close> or \<open>1/8\<close> towards a new value keeps an estimator non-negative.\<close>

lemma fl_step_nonneg:
  assumes "0 \<le> v" and "- v \<le> 2 * d"
  shows "0 \<le> flt (dbl (v + dbl d))"
proof -
  have "- v \<le> dbl d"
  proof (cases "0 \<le> d")
    case True
    then show ?thesis
      using fl_nonneg [of d 53] assms(1) by linarith
  next
    case False
    then show ?thesis
      using fl_bound [of 53 d] assms(2) by linarith
  qed
  then show ?thesis
    by (intro fl_nonneg) linarith
qed

lemma rtt_stop_srtt:
  assumes "0 \<le> srtt" and "0 \<le> rtt"
  shows "0 \<le> flt (dbl (srtt + dbl (flt (rtt - srtt) / 8)))"
proof (rule fl_step_nonneg)
  show "- srtt \<le> 2 * (flt (rtt - srtt) / 8)"
  proof (cases "srtt \<le> rtt")
    case True
    then show ?thesis
      using fl_nonneg [of "rtt - srtt" 24] assms(1) by simp
  next
    case False
    then show ?thesis
      using fl_bound [of 24 "rtt - srtt"] assms by simp
  qed
qed (rule assms(1))

lemma rtt_stop_rttvar:
  assumes "0 \<le> var" and "0 \<le> delta"
  shows "0 \<le> flt (dbl (var + dbl (dbl (delta - var) / 4)))"
proof (rule fl_step_nonneg)
  show "- var \<le> 2 * (dbl (delta - var) / 4)"
  proof (cases "var \<le> delta")
    case True
    then show ?thesis
      using fl_nonneg [of "delta - var" 53] assms(1) by simp
  next
    case False
    then show ?thesis
      using fl_bound [of 53 "delta - var"] assms by simp
  qed
qed (rule assms(1))

lemma rtt_stop_ok:
  assumes "rtt_ok p"
  shows "rtt_ok (rtt_stop ms p)" "rtt_rto (rtt_stop ms p) \<le> RTT_RXTMAX"
proof -
  have "0 \<le> flt (dbl (of_nat (unat ms) / 1000))"
    by (intro fl_nonneg divide_nonneg_nonneg of_nat_0_le_iff) simp
  then show "rtt_ok (rtt_stop ms p)" "rtt_rto (rtt_stop ms p) \<le> RTT_RXTMAX"
    using assms rtt_stop_srtt [of "rtt_srtt p"] rtt_stop_rttvar [of "rtt_rttvar p"]
    by (simp_all add: rtt_ok_def rtt_stop_def Let_def rtt_minmax_range rtt_minmax_representable)
qed

lemma rtt_init_rto: "rtt_rto (rtt_init now p) = 3"
proof -
  have "dbl 3 = 3" "flt 3 = 3"
    using fl_exact [of 53 3] fl_exact [of 24 3] representable_int [of 3 53] representable_int [of 3 24] by simp_all
  then show ?thesis
    by (simp add: rtt_init_def RTT_RTOCALC_def rtt_minmax_def RTT_RXTMIN_def RTT_RXTMAX_def)
qed

lemma rtt_init_ok: "rtt_ok (rtt_init now p)"
  using rtt_init_rto [of now p] representable_int [of 3 24]
  by (simp add: rtt_ok_def RTT_RXTMIN_def) (simp add: rtt_init_def Let_def)

lemma rtt_timeout_rto:
  assumes "rtt_ok p"
  shows "rtt_rto (snd (rtt_timeout p)) = 2 * rtt_rto p"
  using fl_exact [OF representable_double, of 24 "rtt_rto p"] assms by (simp add: rtt_timeout_def Let_def rtt_ok_def)

lemma rtt_timeout_ok: "rtt_ok p \<Longrightarrow> rtt_ok (snd (rtt_timeout p))"
  using rtt_timeout_rto [of p] representable_double [of 24 "rtt_rto p"]
  by (simp add: rtt_ok_def RTT_RXTMIN_def mult.commute) (simp add: rtt_timeout_def Let_def)

section \<open>The request\<close>

lemma rtt_timeout_nrexmt:
  "rtt_nrexmt (snd (rtt_timeout p)) = rtt_nrexmt p + 1"
  "fst (rtt_timeout p) < 0 \<longleftrightarrow> RTT_MAXNREXMT \<le> rtt_nrexmt p"
  by (auto simp: rtt_timeout_def Let_def)

definition alarms :: "event list \<Rightarrow> nat" where
  "alarms evs = length (filter (\<lambda>e. \<exists>now. e = Alarm now) evs)"

text \<open>An answer: a datagram long enough for the header and with the sequence number of the request.\<close>

definition answers :: "u32 \<Rightarrow> event \<Rightarrow> nat \<Rightarrow> bool" where
  "answers sq e n \<longleftrightarrow> (\<exists>ts now. e = Arrive n sq ts now \<and> 8 \<le> n)"

lemma dg_wait_result:
  assumes "dg_wait out st sent evs = Ret (n, sent', st')" and "rtt_nrexmt (rttinfo st) = int k" and "k \<le> 3"
  shows "\<exists>new. sent' = sent @ new \<and> length new \<le> 3 - k \<and> (\<forall>(sq, ts, b) \<in> set new. sq = sendseq st \<and> b = out)
    \<and> sendseq st' = sendseq st
    \<and> (n = -1 \<and> length new = 3 - k \<and> \<not> rttinit st' \<or> (\<exists>e\<in>set evs. \<exists>m. answers (sendseq st) e m \<and> n = int m - 8))"
  using assms
proof (induction out st sent evs arbitrary: k rule: dg_wait.induct)
  case (2 out st sent now evs)
  show ?case
  proof (cases "k = 3")
    case True
    then show ?thesis
      using 2 rtt_timeout_nrexmt(2) [of "rttinfo st"]
      by (auto simp: RTT_MAXNREXMT_def split: prod.splits if_splits)
  next
    case False
    obtain rc p where t: "rtt_timeout (rttinfo st) = (rc, p)"
      by force
    have rc: "\<not> rc < 0"
      using rtt_timeout_nrexmt(2) [of "rttinfo st"] t 2(3,4) False by (simp add: RTT_MAXNREXMT_def)
    have p: "rtt_nrexmt p = int (Suc k)"
      using rtt_timeout_nrexmt(1) [of "rttinfo st"] t 2(3) by simp
    obtain new where "sent' = (sent @ [(sendseq st, rtt_ts now p, out)]) @ new" "length new \<le> 3 - Suc k"
        "\<forall>(sq, ts, b) \<in> set new. sq = sendseq st \<and> b = out" "sendseq st' = sendseq st"
        "n = -1 \<and> length new = 3 - Suc k \<and> \<not> rttinit st' \<or> (\<exists>e\<in>set evs. \<exists>m. answers (sendseq st) e m \<and> n = int m - 8)"
      using 2(1) [OF t [symmetric] rc, of "Suc k"] 2(2,4) t rc p False by auto
    then show ?thesis
      using False 2(4) by (intro exI [of _ "(sendseq st, rtt_ts now p, out) # new"]) auto
  qed
next
  case (3 out st sent m sq ts now evs)
  show ?case
  proof (cases "m < 8 \<or> sq \<noteq> sendseq st")
    case True
    then show ?thesis
      using 3 by fastforce
  next
    case False
    then have "answers (sendseq st) (Arrive m sq ts now) m"
      by (auto simp: answers_def)
    then show ?thesis
      using 3(2) False by (intro exI [of _ "[]"]) auto
  qed
qed simp

lemma dg_wait_returns:
  assumes "rtt_nrexmt (rttinfo st) = int k" and "k \<le> 3" and "4 \<le> k + alarms evs"
  shows "\<exists>r. dg_wait out st sent evs = Ret r"
  using assms
proof (induction out st sent evs arbitrary: k rule: dg_wait.induct)
  case (2 out st sent now evs)
  obtain rc p where t: "rtt_timeout (rttinfo st) = (rc, p)"
    by force
  show ?case
  proof (cases "rc < 0")
    case False
    then have "k \<noteq> 3"
      using rtt_timeout_nrexmt(2) [of "rttinfo st"] t 2(2) by (auto simp: RTT_MAXNREXMT_def)
    moreover have "rtt_nrexmt p = int (Suc k)"
      using rtt_timeout_nrexmt(1) [of "rttinfo st"] t 2(2) by simp
    ultimately show ?thesis
      using 2(1) [OF t [symmetric] False, of "Suc k"] 2(3,4) t False by (simp add: alarms_def)
  qed (simp add: t)
qed (auto simp: alarms_def)

section \<open>Properties\<close>

text \<open>
  (C11) The estimators stay meaningful under floating-point rounding: smoothed RTT and deviation
  never become negative, the first timeout is exactly 3 seconds, the timeout after a measurement
  lies between \<^verbatim>\<open>RTT_RXTMIN\<close> and \<^verbatim>\<open>RTT_RXTMAX\<close>, and each timeout exactly doubles the next one.
\<close>

theorem rtt_invariant:
  assumes "rtt_ok p"
  shows "rtt_ok (rtt_init now q) \<and> rtt_rto (rtt_init now q) = 3
    \<and> rtt_ok (rtt_newpack p)
    \<and> rtt_ok (rtt_stop ms p) \<and> rtt_rto (rtt_stop ms p) \<in> {RTT_RXTMIN..RTT_RXTMAX}
    \<and> rtt_ok (snd (rtt_timeout p)) \<and> rtt_rto (snd (rtt_timeout p)) = 2 * rtt_rto p"
proof -
  have "RTT_RXTMIN \<le> rtt_rto (rtt_stop ms p)"
    using rtt_stop_ok(1) [OF assms] by (simp add: rtt_ok_def)
  moreover have "rtt_ok (rtt_newpack p)"
    using assms by (simp add: rtt_ok_def rtt_newpack_def)
  ultimately show ?thesis
    using rtt_init_ok rtt_init_rto rtt_stop_ok [OF assms] rtt_timeout_ok [OF assms] rtt_timeout_rto [OF assms]
    by simp
qed

definition rtt_example :: rtt_info where
  "rtt_example = \<lparr>rtt_rtt = 0, rtt_srtt = 0, rtt_rttvar = 0, rtt_rto = 60, rtt_nrexmt = 0, rtt_base = 0\<rparr>"

lemma rtt_example_ok: "rtt_ok rtt_example"
  using representable_int [of 60 24] by (simp add: rtt_ok_def rtt_example_def RTT_RXTMIN_def)

theorem rtt_invariant_witness:
  "rtt_ok (rtt_init (5, 0) rtt_example) \<and> rtt_rto (rtt_init (5, 0) rtt_example) = 3
    \<and> rtt_ok (rtt_newpack rtt_example)
    \<and> rtt_ok (rtt_stop 1500 rtt_example) \<and> rtt_rto (rtt_stop 1500 rtt_example) \<in> {RTT_RXTMIN..RTT_RXTMAX}
    \<and> rtt_ok (snd (rtt_timeout rtt_example)) \<and> rtt_rto (snd (rtt_timeout rtt_example)) = 2 * rtt_rto rtt_example"
  using rtt_example_ok by (rule rtt_invariant)

text \<open>The doubled timeout is not limited: it can exceed \<^verbatim>\<open>RTT_RXTMAX\<close>.\<close>

theorem rtt_timeout_unlimited: "RTT_RXTMAX < rtt_rto (snd (rtt_timeout rtt_example))"
  using rtt_timeout_rto [OF rtt_example_ok] by (simp add: rtt_example_def RTT_RXTMAX_def)

text \<open>
  (C12) A request over UDP ends: with four alarms it returns at the latest, whatever else arrives.
  When it returns it has sent the request at most four times, always with the same new sequence
  number and the same data; the value is -1 only after four transmissions (and then the next call
  starts with fresh estimators), and otherwise the size of a datagram that carried that number.
\<close>

theorem dg_send_recv_correct:
  "(4 \<le> alarms evs \<longrightarrow> (\<exists>r. dg_send_recv out st now evs = Ret r))
   \<and> (\<forall>n sent st'. dg_send_recv out st now evs = Ret (n, sent, st') \<longrightarrow>
        sent \<noteq> [] \<and> length sent \<le> 4
        \<and> (\<forall>(sq, ts, b) \<in> set sent. sq = sendseq st + 1 \<and> b = out)
        \<and> (n = -1 \<and> length sent = 4 \<and> \<not> rttinit st'
           \<or> (\<exists>e\<in>set evs. \<exists>m. answers (sendseq st + 1) e m \<and> n = int m - 8)))"
proof -
  define st0 where "st0 = (if rttinit st then st else st\<lparr>rttinfo := rtt_init now (rttinfo st), rttinit := True\<rparr>)"
  define st1 where "st1 = st0\<lparr>sendseq := sendseq st0 + 1, rttinfo := rtt_newpack (rttinfo st0)\<rparr>"
  define dg where "dg = (sendseq st1, rtt_ts now (rttinfo st1), out)"
  have run: "dg_send_recv out st now evs = dg_wait out st1 [dg] evs"
    by (simp add: dg_send_recv_def Let_def st1_def st0_def dg_def)
  have nrexmt: "rtt_nrexmt (rttinfo st1) = int 0"
    by (simp add: st1_def rtt_newpack_def)
  have sq: "sendseq st1 = sendseq st + 1"
    by (simp add: st1_def st0_def)
  have "\<exists>r. dg_send_recv out st now evs = Ret r" if "4 \<le> alarms evs"
    unfolding run using dg_wait_returns [OF nrexmt, of evs out "[dg]"] that by simp
  moreover have "sent \<noteq> [] \<and> length sent \<le> 4 \<and> (\<forall>(sq, ts, b) \<in> set sent. sq = sendseq st + 1 \<and> b = out)
      \<and> (n = -1 \<and> length sent = 4 \<and> \<not> rttinit st'
         \<or> (\<exists>e\<in>set evs. \<exists>m. answers (sendseq st + 1) e m \<and> n = int m - 8))"
    if "dg_send_recv out st now evs = Ret (n, sent, st')" for n sent st'
    using dg_wait_result [OF that [unfolded run] nrexmt] sq by (auto simp: dg_def)
  ultimately show ?thesis
    by blast
qed

definition dg_example :: dg_state where
  "dg_example = \<lparr>rttinfo = rtt_example, rttinit = False, sendseq = 41\<rparr>"

theorem dg_send_recv_correct_witness:
  "\<exists>r. dg_send_recv [1] dg_example (5, 0) [Alarm (8, 0), Arrive 20 41 0 (9, 0), Alarm (14, 0), Alarm (26, 0), Alarm (50, 0)] = Ret r"
  by (rule dg_send_recv_correct [THEN conjunct1, THEN mp]) (simp add: alarms_def)

end
