(* ===== verification/Sockaddr.thy ===== *)
theory Sockaddr
  imports Inet6_Props Bytes "HOL-Library.Monad_Syntax"
begin

text \<open>
  Socket addresses: the \<^verbatim>\<open>sockaddr\<close> structures and the protocol-independent operations on them of
  \<^verbatim>\<open>lib/sock_*.c\<close>, \<^verbatim>\<open>lib/family_to_level.c\<close> and \<^verbatim>\<open>lib/sockfd_to_family.c\<close>. A port is kept as the
  16-bit value of its field, that is with its bytes in network order; \<open>ntohs\<close> gives its number. The
  text functions write into their 128-byte static buffer with the \<^verbatim>\<open>inet_ntop\<close> of \<^verbatim>\<open>libfree\<close>.
\<close>

section \<open>The structures\<close>

record sockaddr_in =
  sin_port :: u16
  sin_addr :: "u8 list"

record sockaddr_in6 =
  sin6_port :: u16
  sin6_flowinfo :: u32
  sin6_addr :: "u8 list"
  sin6_scope_id :: u32

record sockaddr_un =
  sun_path :: string

record sockaddr_dl =
  sdl_index :: nat
  sdl_nlen :: nat
  sdl_data :: string

text \<open>A generic socket address: which structure it is follows from \<^verbatim>\<open>sa_family\<close>.\<close>

datatype sockaddr =
    SA_in sockaddr_in
  | SA_in6 sockaddr_in6
  | SA_un sockaddr_un
  | SA_dl sockaddr_dl
  | SA_other nat

definition AF_UNIX :: nat where
  "AF_UNIX = 1"

definition AF_LINK :: nat where
  "AF_LINK = 18"

fun sa_family :: "sockaddr \<Rightarrow> nat" where
  "sa_family (SA_in _) = AF_INET"
| "sa_family (SA_in6 _) = AF_INET6"
| "sa_family (SA_un _) = AF_UNIX"
| "sa_family (SA_dl _) = AF_LINK"
| "sa_family (SA_other f) = f"

lemmas family_defs = AF_INET_def AF_INET6_def AF_UNIX_def AF_LINK_def

text \<open>The sizes of the address fields, and a NUL in every path.\<close>

fun sa_ok :: "sockaddr \<Rightarrow> bool" where
  "sa_ok (SA_in a) \<longleftrightarrow> length (sin_addr a) = 4"
| "sa_ok (SA_in6 a) \<longleftrightarrow> length (sin6_addr a) = 16"
| "sa_ok (SA_un a) \<longleftrightarrow> CHR 0x00 \<in> set (sun_path a)"
| "sa_ok (SA_dl a) \<longleftrightarrow> CHR 0x00 \<in> set (sdl_data a)"
| "sa_ok (SA_other f) \<longleftrightarrow> f \<notin> {AF_INET, AF_INET6, AF_UNIX, AF_LINK}"

definition ntohs :: "bool \<Rightarrow> u16 \<Rightarrow> nat" where
  "ntohs le p = net_val (host_bytes le 2 (unat p))"

definition htons :: "bool \<Rightarrow> nat \<Rightarrow> u16" where
  "htons le n = of_nat (host_val le (net_bytes 2 n))"

section \<open>\<^verbatim>\<open>family_to_level.c\<close> and \<^verbatim>\<open>sockfd_to_family.c\<close>\<close>

definition IPPROTO_IP :: int where
  "IPPROTO_IP = 0"

definition IPPROTO_IPV6 :: int where
  "IPPROTO_IPV6 = 41"

definition family_to_level :: "nat \<Rightarrow> int" where
  "family_to_level family =
     (if family = AF_INET then IPPROTO_IP
      else if family = AF_INET6 then IPPROTO_IPV6
      else -1)"

definition Family_to_level :: "nat \<Rightarrow> int outcome" where
  "Family_to_level family =
     (let rc = family_to_level family in
      if rc < 0 then Exits ''family_to_level error'' else Ret rc)"

text \<open>The argument is what \<^verbatim>\<open>getsockname\<close> answers for the descriptor.\<close>

definition sockfd_to_family :: "errno + sockaddr \<Rightarrow> int" where
  "sockfd_to_family getsockname = (case getsockname of Inl e \<Rightarrow> -1 | Inr ss \<Rightarrow> int (sa_family ss))"

definition Sockfd_to_family :: "errno + sockaddr \<Rightarrow> int outcome" where
  "Sockfd_to_family getsockname =
     (let rc = sockfd_to_family getsockname in
      if rc < 0 then Exits ''sockfd_to_family error'' else Ret rc)"

section \<open>Ports\<close>

definition sock_get_port :: "sockaddr \<Rightarrow> int" where
  "sock_get_port sa =
     (case sa of
        SA_in a \<Rightarrow> int (unat (sin_port a))
      | SA_in6 a \<Rightarrow> int (unat (sin6_port a))
      | _ \<Rightarrow> -1)"

definition sock_set_port :: "sockaddr \<Rightarrow> int \<Rightarrow> sockaddr" where
  "sock_set_port sa port =
     (case sa of
        SA_in a \<Rightarrow> SA_in (a\<lparr>sin_port := of_int port\<rparr>)
      | SA_in6 a \<Rightarrow> SA_in6 (a\<lparr>sin6_port := of_int port\<rparr>)
      | _ \<Rightarrow> sa)"

definition sock_cmp_port :: "sockaddr \<Rightarrow> sockaddr \<Rightarrow> int" where
  "sock_cmp_port sa1 sa2 =
     (if sa_family sa1 \<noteq> sa_family sa2 then -1
      else
        (case (sa1, sa2) of
           (SA_in a, SA_in b) \<Rightarrow> of_bool (sin_port a = sin_port b)
         | (SA_in6 a, SA_in6 b) \<Rightarrow> of_bool (sin6_port a = sin6_port b)
         | _ \<Rightarrow> -1))"

section \<open>Addresses\<close>

text \<open>
  \<^verbatim>\<open>memcmp\<close> and \<^verbatim>\<open>strcmp\<close> compare by the first difference; of their result only the sign is
  specified, and \<^verbatim>\<open>strcmp\<close> needs a NUL in both arrays.
\<close>

fun memcmp :: "nat list \<Rightarrow> nat list \<Rightarrow> int" where
  "memcmp (a # as) (b # bs) = (if a < b then -1 else if b < a then 1 else memcmp as bs)"
| "memcmp [] [] = 0"
| "memcmp [] (b # bs) = -1"
| "memcmp (a # as) [] = 1"

definition cstring :: "string \<Rightarrow> string option" where
  "cstring buf = (if CHR 0x00 \<in> set buf then Some (cstr buf) else None)"

definition strcmp :: "string \<Rightarrow> string \<Rightarrow> int option" where
  "strcmp b1 b2 = do {
     s1 \<leftarrow> cstring b1;
     s2 \<leftarrow> cstring b2;
     Some (memcmp (map of_char s1) (map of_char s2))
   }"

definition sock_cmp_addr :: "sockaddr \<Rightarrow> sockaddr \<Rightarrow> int option" where
  "sock_cmp_addr sa1 sa2 =
     (if sa_family sa1 \<noteq> sa_family sa2 then Some (-1)
      else
        (case (sa1, sa2) of
           (SA_in a, SA_in b) \<Rightarrow> Some (memcmp (map unat (sin_addr a)) (map unat (sin_addr b)))
         | (SA_in6 a, SA_in6 b) \<Rightarrow> Some (memcmp (map unat (sin6_addr a)) (map unat (sin6_addr b)))
         | (SA_un a, SA_un b) \<Rightarrow> strcmp (sun_path a) (sun_path b)
         | (SA_dl a, SA_dl b) \<Rightarrow> Some (-1)
         | _ \<Rightarrow> Some (-1)))"

text \<open>\<^verbatim>\<open>sock_set_addr\<close> copies 4 or 16 bytes from \<open>addr\<close>, which must have them.\<close>

definition sock_set_addr :: "sockaddr \<Rightarrow> u8 list \<Rightarrow> sockaddr option" where
  "sock_set_addr sa addr =
     (case sa of
        SA_in a \<Rightarrow> do { b \<leftarrow> bytes_at addr 0 4; Some (SA_in (a\<lparr>sin_addr := b\<rparr>)) }
      | SA_in6 a \<Rightarrow> do { b \<leftarrow> bytes_at addr 0 16; Some (SA_in6 (a\<lparr>sin6_addr := b\<rparr>)) }
      | _ \<Rightarrow> Some sa)"

definition in4addr_any :: "u8 list" where
  "in4addr_any = [0, 0, 0, 0]"

definition in6addr_any :: "u8 list" where
  "in6addr_any = replicate 16 0"

definition sock_set_wild :: "sockaddr \<Rightarrow> sockaddr option" where
  "sock_set_wild sa =
     (case sa of
        SA_in a \<Rightarrow> sock_set_addr sa in4addr_any
      | SA_in6 a \<Rightarrow> sock_set_addr sa in6addr_any
      | _ \<Rightarrow> Some sa)"

section \<open>Binding the wildcard address\<close>

text \<open>
  The kernel is two answers: \<open>bnd sa\<close>, an error or success, and \<open>getsockname sa\<close>, the address it
  reports after \<open>sa\<close> was bound. The result is the raw port field, so in network byte order.
\<close>

definition wild :: "nat \<Rightarrow> sockaddr option" where
  "wild family =
     (if family = AF_INET then Some (SA_in \<lparr>sin_port = 0, sin_addr = in4addr_any\<rparr>)
      else if family = AF_INET6
      then Some (SA_in6 \<lparr>sin6_port = 0, sin6_flowinfo = 0, sin6_addr = in6addr_any, sin6_scope_id = 0\<rparr>)
      else None)"

definition sock_bind_wild ::
  "(sockaddr \<Rightarrow> errno option) \<Rightarrow> (sockaddr \<Rightarrow> errno + sockaddr) \<Rightarrow> nat \<Rightarrow> int" where
  "sock_bind_wild bnd getsockname family =
     (case wild family of
        None \<Rightarrow> -1
      | Some sa \<Rightarrow>
          (case bnd sa of
             Some e \<Rightarrow> -1
           | None \<Rightarrow>
               (case getsockname sa of
                  Inl e \<Rightarrow> -1
                | Inr name \<Rightarrow> sock_get_port name)))"

definition Sock_bind_wild ::
  "(sockaddr \<Rightarrow> errno option) \<Rightarrow> (sockaddr \<Rightarrow> errno + sockaddr) \<Rightarrow> nat \<Rightarrow> int outcome" where
  "Sock_bind_wild bnd getsockname family =
     (let port = sock_bind_wild bnd getsockname family in
      if port < 0 then Exits ''sock_bind_wild error'' else Ret port)"

section \<open>Addresses as text\<close>

text \<open>
  \<^verbatim>\<open>snprintf(buf, n, "%s", s)\<close> stores at most \<open>n - 1\<close> characters and the NUL; \<^verbatim>\<open>strcat\<close> appends
  at the NUL of the destination and must stay inside it.
\<close>

definition snprintf :: "string \<Rightarrow> nat \<Rightarrow> string \<Rightarrow> string option" where
  "snprintf buf n s = strcpy buf (take (n - 1) s)"

definition strcat :: "string \<Rightarrow> string \<Rightarrow> string option" where
  "strcat dst s = do {
     d \<leftarrow> cstring dst;
     r \<leftarrow> strcpy (drop (length d) dst) s;
     Some (take (length d) dst @ r)
   }"

definition show_int :: "int \<Rightarrow> string" where
  "show_int i = (if i < 0 then CHR ''-'' # show_dec (nat (- i)) else show_dec (nat i))"

text \<open>\<^verbatim>\<open>portstr\<close> has 8 bytes; what does not fit is cut.\<close>

definition portstr :: "string \<Rightarrow> nat \<Rightarrow> string" where
  "portstr pre port = take 7 (pre @ show_dec port)"

definition pad_left :: "nat \<Rightarrow> string \<Rightarrow> string" where
  "pad_left n s = replicate (n - length s) CHR '' '' @ s"

text \<open>The cases both text functions share; \<open>who\<close> is the name in the message.\<close>

definition unix_text :: "string \<Rightarrow> sockaddr_un \<Rightarrow> string option" where
  "unix_text str a =
     (case sun_path a of
        [] \<Rightarrow> None
      | c # _ \<Rightarrow>
          if c = CHR 0x00 then strcpy str ''(no pathname bound)''
          else do { p \<leftarrow> cstring (sun_path a); snprintf str 128 p })"

definition unknown_text :: "string \<Rightarrow> string \<Rightarrow> nat \<Rightarrow> nat \<Rightarrow> string option" where
  "unknown_text who str fam salen =
     snprintf str 128 (who @ '': unknown AF_xxx: '' @ show_dec fam @ '', len '' @ show_dec salen)"

text \<open>
  \<open>sock_ntop le str sa salen\<close>: \<open>str\<close> is the static buffer before the call. The result is \<^term>\<open>Inl e\<close>
  for a null pointer, or the buffer and the offset in it of the pointer returned.
\<close>

definition sock_ntop :: "bool \<Rightarrow> string \<Rightarrow> sockaddr \<Rightarrow> nat \<Rightarrow> (errno + nat \<times> string) option" where
  "sock_ntop le str sa salen =
     (case sa of
        SA_in a \<Rightarrow> do {
          r \<leftarrow> inet_ntop AF_INET (sin_addr a) str 128;
          case r of
            Inl e \<Rightarrow> Some (Inl e)
          | Inr str \<Rightarrow>
              if ntohs le (sin_port a) \<noteq> 0 then do {
                str \<leftarrow> strcat str (portstr '':'' (ntohs le (sin_port a)));
                Some (Inr (0, str))
              }
              else Some (Inr (0, str))
        }
      | SA_in6 a \<Rightarrow> do {
          r \<leftarrow> inet_ntop AF_INET6 (sin6_addr a) (drop 1 str) 127;
          case r of
            Inl e \<Rightarrow> Some (Inl e)
          | Inr rest \<Rightarrow>
              (let str = CHR ''['' # rest in
               if ntohs le (sin6_port a) \<noteq> 0 then do {
                 str \<leftarrow> strcat str (portstr '']:'' (ntohs le (sin6_port a)));
                 Some (Inr (0, str))
               }
               else Some (Inr (1, str)))
        }
      | SA_un a \<Rightarrow> do { str \<leftarrow> unix_text str a; Some (Inr (0, str)) }
      | SA_dl a \<Rightarrow>
          if sdl_nlen a > 0 then do {
            n \<leftarrow> cstring (sdl_data a);
            str \<leftarrow> snprintf str 128 (pad_left (sdl_nlen a) n @ '' (index '' @ show_dec (sdl_index a) @ '')'');
            Some (Inr (0, str))
          }
          else do {
            str \<leftarrow> snprintf str 128 (''AF_LINK, index='' @ show_dec (sdl_index a));
            Some (Inr (0, str))
          }
      | SA_other f \<Rightarrow> do { str \<leftarrow> unknown_text ''sock_ntop'' str f salen; Some (Inr (0, str)) })"

definition Sock_ntop :: "bool \<Rightarrow> string \<Rightarrow> sockaddr \<Rightarrow> nat \<Rightarrow> (nat \<times> string) outcome option" where
  "Sock_ntop le str sa salen = do {
     r \<leftarrow> sock_ntop le str sa salen;
     Some (case r of Inl e \<Rightarrow> Exits ''sock_ntop error'' | Inr p \<Rightarrow> Ret p)
   }"

definition sock_ntop_host :: "string \<Rightarrow> sockaddr \<Rightarrow> nat \<Rightarrow> (errno + nat \<times> string) option" where
  "sock_ntop_host str sa salen =
     (case sa of
        SA_in a \<Rightarrow> do {
          r \<leftarrow> inet_ntop AF_INET (sin_addr a) str 128;
          Some (map_sum id (Pair 0) r)
        }
      | SA_in6 a \<Rightarrow> do {
          r \<leftarrow> inet_ntop AF_INET6 (sin6_addr a) str 128;
          Some (map_sum id (Pair 0) r)
        }
      | SA_un a \<Rightarrow> do { str \<leftarrow> unix_text str a; Some (Inr (0, str)) }
      | SA_dl a \<Rightarrow>
          if sdl_nlen a > 0 then do {
            n \<leftarrow> cstring (sdl_data a);
            str \<leftarrow> snprintf str 128 (pad_left (sdl_nlen a) n);
            Some (Inr (0, str))
          }
          else do {
            str \<leftarrow> snprintf str 128 (''AF_LINK, index='' @ show_dec (sdl_index a));
            Some (Inr (0, str))
          }
      | SA_other f \<Rightarrow> do { str \<leftarrow> unknown_text ''sock_ntop_host'' str f salen; Some (Inr (0, str)) })"

definition Sock_ntop_host :: "string \<Rightarrow> sockaddr \<Rightarrow> nat \<Rightarrow> (nat \<times> string) outcome option" where
  "Sock_ntop_host str sa salen = do {
     r \<leftarrow> sock_ntop_host str sa salen;
     Some (case r of Inl e \<Rightarrow> Exits ''sock_ntop_host error'' | Inr p \<Rightarrow> Ret p)
   }"

section \<open>Lemmas\<close>

lemma strcpy_Some: "length s < length dst \<Longrightarrow> strcpy dst s = Some (s @ CHR 0x00 # drop (length s + 1) dst)"
  by (simp add: strcpy_def)

lemma cstr_NUL [simp]: "CHR 0x00 \<notin> set s \<Longrightarrow> cstr (s @ CHR 0x00 # r) = s"
  unfolding cstr_def by (subst takeWhile_append2) auto

lemma cstr_no_NUL: "CHR 0x00 \<notin> set (cstr buf)"
  using set_takeWhileD by (fastforce simp: cstr_def)

lemma strcat_NUL:
  assumes "CHR 0x00 \<notin> set d" and "length d + length s + 1 \<le> length d + 1 + length r"
  shows "\<exists>r'. strcat (d @ CHR 0x00 # r) s = Some (d @ s @ CHR 0x00 # r') \<and> length s + length r' = length r"
  using assms by (auto simp: strcat_def cstring_def strcpy_def)

lemma NUL_show_dec [simp]: "CHR 0x00 \<notin> set (show_dec n)"
  by (rule NUL_show_base(2))

lemma NUL_take: "CHR 0x00 \<notin> set s \<Longrightarrow> CHR 0x00 \<notin> set (take n s)"
  using in_set_takeD by metis

lemma NUL_pad_left: "CHR 0x00 \<notin> set (pad_left n s) \<longleftrightarrow> CHR 0x00 \<notin> set s"
  by (auto simp: pad_left_def)

lemma snprintf_text:
  assumes "length str = 128" and "CHR 0x00 \<notin> set s"
  shows "\<exists>str'. snprintf str 128 s = Some str' \<and> length str' = 128 \<and> cstr str' = take 127 s"
  using assms NUL_take [of s 127] by (simp add: snprintf_def strcpy_def)

text \<open>Ports have at most five digits, so \<^verbatim>\<open>portstr\<close> is never cut.\<close>

lemma ntohs_less: "ntohs le p < 65536"
  using host_val_less [of False "host_bytes le 2 (unat p)"] by (simp add: ntohs_def)

lemma length_show_port: "length (show_dec (ntohs le p)) \<le> 5"
  using show_base_length [of 10 "ntohs le p" 5] ntohs_less [of le p] by (simp add: show_dec_def)

lemma portstr_whole: "length pre \<le> 2 \<Longrightarrow> portstr pre (ntohs le p) = pre @ show_dec (ntohs le p)"
  using length_show_port [of le p] by (simp add: portstr_def)

lemma ntohs_htons: "n < 65536 \<Longrightarrow> ntohs le (htons le n) = n"
proof -
  assume n: "n < 65536"
  have "unat (htons le n) = host_val le (net_bytes 2 n)"
    using host_val_less [of le "net_bytes 2 n"] by (simp add: htons_def unat_of_nat take_bit_nat_eq_self)
  then show ?thesis
    using n host_bytes_val [of le "net_bytes 2 n"] by (simp add: ntohs_def host_val_bytes)
qed

lemma memcmp_eq_0: "memcmp xs ys = 0 \<longleftrightarrow> xs = ys"
  by (induction xs ys rule: memcmp.induct) auto

lemma memcmp_sym: "memcmp ys xs = - memcmp xs ys"
  by (induction xs ys rule: memcmp.induct) auto

lemma map_unat_eq: "map unat xs = map unat ys \<longleftrightarrow> xs = (ys :: u8 list)"
  by (rule inj_map_eq_map) (simp add: inj_def word_unat_eq_iff)

lemma map_of_char_eq: "map (of_char :: char \<Rightarrow> nat) xs = map of_char ys \<longleftrightarrow> xs = ys"
  by (rule inj_map_eq_map) (metis char_of_char injI)

section \<open>Properties\<close>

text \<open>The text the documentation of \<^verbatim>\<open>sock_ntop\<close> promises.\<close>

definition host_text :: "sockaddr \<Rightarrow> string" where
  "host_text sa =
     (case sa of
        SA_in a \<Rightarrow> dotted (sin_addr a)
      | SA_in6 a \<Rightarrow> text6 (sin6_addr a)
      | SA_un a \<Rightarrow> if cstr (sun_path a) = [] then ''(no pathname bound)'' else take 127 (cstr (sun_path a))
      | _ \<Rightarrow> [])"

definition sock_text :: "bool \<Rightarrow> sockaddr \<Rightarrow> string" where
  "sock_text le sa =
     (case sa of
        SA_in a \<Rightarrow> host_text sa @ (if ntohs le (sin_port a) = 0 then [] else '':'' @ show_dec (ntohs le (sin_port a)))
      | SA_in6 a \<Rightarrow>
          if ntohs le (sin6_port a) = 0 then host_text sa
          else ''['' @ host_text sa @ '']:'' @ show_dec (ntohs le (sin6_port a))
      | _ \<Rightarrow> host_text sa)"

lemma unix_text_ok:
  assumes "length str = 128" and "CHR 0x00 \<in> set (sun_path a)"
  shows "\<exists>str'. unix_text str a = Some str' \<and> length str' = 128 \<and> cstr str' = host_text (SA_un a)"
proof (cases "sun_path a")
  case (Cons c cs)
  show ?thesis
  proof (cases "c = CHR 0x00")
    case True
    then show ?thesis
      using assms Cons strcpy_Some [of "''(no pathname bound)''" str]
        cstr_NUL [of "''(no pathname bound)''" "drop 20 str"]
      by (simp add: unix_text_def host_text_def cstr_def)
  next
    case False
    then have "cstr (sun_path a) \<noteq> []"
      using Cons by (simp add: cstr_def)
    then show ?thesis
      using assms Cons False snprintf_text [OF assms(1) cstr_no_NUL, of "sun_path a"]
      by (auto simp: unix_text_def host_text_def cstring_def)
  qed
qed (use assms in simp)

lemma inet_ntop_in:
  assumes "length a = 4" and "length str = 128"
  shows "inet_ntop AF_INET a str 128 = Some (Inr (dotted a @ CHR 0x00 # drop (length (dotted a) + 1) str))"
  using assms length_dotted4 [of a] by (simp add: inet_ntop_def inet_ntop4_def Let_def strcpy_Some)

lemma inet_ntop_in6:
  assumes "length a = 16" and "127 \<le> length str" and "length str = sz"
  shows "inet_ntop AF_INET6 a str sz = Some (Inr (text6 a @ CHR 0x00 # drop (length (text6 a) + 1) str))"
  using assms length_text6 [of a] by (simp add: inet_ntop_def inet_ntop6_eq strcpy_Some family_defs)

lemma strcat_text:
  assumes "CHR 0x00 \<notin> set d" and "CHR 0x00 \<notin> set s" and "length d + length s \<le> length d + length r"
    and "length d + length r = 127"
  shows "\<exists>str'. strcat (d @ CHR 0x00 # r) s = Some str' \<and> length str' = 128 \<and> cstr str' = d @ s"
proof -
  obtain r' where "strcat (d @ CHR 0x00 # r) s = Some (d @ s @ CHR 0x00 # r')" "length s + length r' = length r"
    using strcat_NUL [OF assms(1), of s r] assms(3) by auto
  moreover have "cstr ((d @ s) @ CHR 0x00 # r') = d @ s"
    using assms(1,2) by (intro cstr_NUL) simp
  ultimately show ?thesis
    using assms(4) by simp
qed

lemma sock_ntop_in:
  assumes "length str = 128" and "length (sin_addr a) = 4"
  shows "\<exists>str'. sock_ntop le str (SA_in a) salen = Some (Inr (0, str')) \<and> length str' = 128
    \<and> cstr str' = sock_text le (SA_in a)"
proof -
  let ?d = "dotted (sin_addr a)" and ?p = "ntohs le (sin_port a)"
  let ?r = "drop (length ?d + 1) str"
  have d: "length ?d \<le> 15" "CHR 0x00 \<notin> set ?d"
    using length_dotted4 nul_notin_dotted4 assms(2) by blast+
  show ?thesis
  proof (cases "?p = 0")
    case True
    then show ?thesis
      using assms d by (simp add: sock_ntop_def inet_ntop_in sock_text_def host_text_def)
  next
    case False
    have "\<exists>str'. strcat (?d @ CHR 0x00 # ?r) (CHR '':'' # show_dec ?p) = Some str' \<and> length str' = 128
        \<and> cstr str' = ?d @ CHR '':'' # show_dec ?p"
      using d assms(1) length_show_port [of le "sin_port a"] by (intro strcat_text) simp_all
    then obtain str' where str: "strcat (?d @ CHR 0x00 # ?r) (CHR '':'' # show_dec ?p) = Some str'" "length str' = 128"
        "cstr str' = ?d @ CHR '':'' # show_dec ?p"
      by blast
    have "portstr '':'' ?p = CHR '':'' # show_dec ?p"
      by (simp add: portstr_whole)
    then have "sock_ntop le str (SA_in a) salen = Some (Inr (0, str'))"
      using False str(1) assms by (simp only: sock_ntop_def inet_ntop_in sockaddr.case bind.bind_lunit sum.case if_True not_False_eq_True)
    then show ?thesis
      using False str(2,3) by (simp add: sock_text_def host_text_def)
  qed
qed

lemma sock_ntop_in6:
  assumes "length str = 128" and "length (sin6_addr a) = 16"
  shows "\<exists>off str'. sock_ntop le str (SA_in6 a) salen = Some (Inr (off, str')) \<and> length str' = 128
    \<and> cstr (drop off str') = sock_text le (SA_in6 a)"
proof -
  let ?d = "text6 (sin6_addr a)" and ?p = "ntohs le (sin6_port a)"
  let ?r = "drop (length ?d + 2) str"
  have d: "length ?d \<le> 39" "CHR 0x00 \<notin> set ?d"
    using length_text6 NUL_text6 assms(2) by blast+
  have ntop: "inet_ntop AF_INET6 (sin6_addr a) (drop 1 str) 127 = Some (Inr (?d @ CHR 0x00 # ?r))"
  proof -
    have "length (drop 1 str) = 127" "length ?d + 1 + 1 = length ?d + 2"
      using assms(1) by simp_all
    then show ?thesis
      using inet_ntop_in6 [OF assms(2), of "drop 1 str" 127] by (simp only: drop_drop order_refl)
  qed
  show ?thesis
  proof (cases "?p = 0")
    case True
    then have "sock_ntop le str (SA_in6 a) salen = Some (Inr (1, CHR ''['' # ?d @ CHR 0x00 # ?r))"
      by (simp only: sock_ntop_def ntop sockaddr.case bind.bind_lunit sum.case Let_def simp_thms if_False)
    then show ?thesis
      using True assms(1) d by (simp add: sock_text_def host_text_def)
  next
    case False
    have "\<exists>str'. strcat ((CHR ''['' # ?d) @ CHR 0x00 # ?r) ('']:'' @ show_dec ?p) = Some str' \<and> length str' = 128
        \<and> cstr str' = (CHR ''['' # ?d) @ '']:'' @ show_dec ?p"
      using d assms(1) length_show_port [of le "sin6_port a"] by (intro strcat_text) simp_all
    then obtain str' where str: "strcat (CHR ''['' # ?d @ CHR 0x00 # ?r) ('']:'' @ show_dec ?p) = Some str'" "length str' = 128"
        "cstr str' = (CHR ''['' # ?d) @ '']:'' @ show_dec ?p"
      unfolding append_Cons by blast
    have "portstr '']:'' ?p = '']:'' @ show_dec ?p"
      by (simp add: portstr_whole)
    then have "sock_ntop le str (SA_in6 a) salen = Some (Inr (0, str'))"
      using False str(1) by (simp only: sock_ntop_def ntop sockaddr.case bind.bind_lunit sum.case Let_def simp_thms if_True)
    then show ?thesis
      using False str(2,3) by (simp add: sock_text_def host_text_def)
  qed
qed

text \<open>
  (C34) For an IPv4, IPv6 or Unix domain address \<^verbatim>\<open>sock_ntop\<close> returns its documented text inside
  the static buffer and never writes outside \<^verbatim>\<open>str\<close> or cuts \<^verbatim>\<open>portstr\<close>; \<^verbatim>\<open>sock_ntop_host\<close> returns the
  address part alone, and for the Internet families \<^verbatim>\<open>inet_pton\<close> reads the address back from it.
\<close>

theorem sock_ntop_correct:
  assumes "length str = 128" and "sa_ok sa" and "sa_family sa \<in> {AF_INET, AF_INET6, AF_UNIX}" and "length junk = 4"
  shows "(\<exists>off str'. sock_ntop le str sa salen = Some (Inr (off, str')) \<and> length str' = 128
      \<and> cstr (drop off str') = sock_text le sa)
    \<and> (\<exists>str'. sock_ntop_host str sa salen = Some (Inr (0, str')) \<and> length str' = 128 \<and> cstr str' = host_text sa)
    \<and> (case sa of
         SA_in a \<Rightarrow> inet_pton junk AF_INET (host_text sa) (replicate 4 0) = Some (1, sin_addr a)
       | SA_in6 a \<Rightarrow> inet_pton junk AF_INET6 (host_text sa) (replicate 16 0) = Some (1, sin6_addr a)
       | _ \<Rightarrow> True)"
proof (cases sa)
  case (SA_in a)
  have "inet_pton4 (take 4 (junk @ replicate 4 0)) (dotted (sin_addr a)) (replicate 4 0) = Some (1, sin_addr a)"
    using v4.pton_ntop [of "sin_addr a" str 128 "dotted (sin_addr a) @ CHR 0x00 # drop (length (dotted (sin_addr a)) + 1) str" "replicate 4 0" junk]
      inet_ntop_in [of "sin_addr a" str] assms SA_in
    by (simp add: inet_ntop_def nul_notin_dotted4)
  then have "inet_pton junk AF_INET (host_text sa) (replicate 4 0) = Some (1, sin_addr a)"
    using SA_in assms(4) by (simp add: host_text_def inet_pton_def)
  moreover have "\<exists>str'. sock_ntop_host str sa salen = Some (Inr (0, str')) \<and> length str' = 128 \<and> cstr str' = host_text sa"
    using SA_in assms length_dotted4 [of "sin_addr a"]
    by (simp add: sock_ntop_host_def inet_ntop_in host_text_def nul_notin_dotted4)
  moreover have "\<exists>off str'. sock_ntop le str sa salen = Some (Inr (off, str')) \<and> length str' = 128
      \<and> cstr (drop off str') = sock_text le sa"
    using sock_ntop_in [OF assms(1), of a le salen] SA_in assms(2) drop_0 by (metis sa_ok.simps(1))
  ultimately show ?thesis
    using SA_in by simp
next
  case (SA_in6 a)
  have "\<exists>str'. sock_ntop_host str sa salen = Some (Inr (0, str')) \<and> length str' = 128 \<and> cstr str' = host_text sa"
    using SA_in6 assms inet_ntop_in6 [of "sin6_addr a" str 128] length_text6 [of "sin6_addr a"]
    by (simp add: sock_ntop_host_def host_text_def NUL_text6)
  moreover have "inet_pton junk AF_INET6 (host_text sa) (replicate 16 0) = Some (1, sin6_addr a)"
    using SA_in6 assms inet_pton6_text6 [of "sin6_addr a" junk "replicate 16 0"]
    by (simp add: host_text_def inet_pton_def family_defs)
  ultimately show ?thesis
    using SA_in6 sock_ntop_in6 [OF assms(1), of a le salen] assms(2) by simp
next
  case (SA_un a)
  then show ?thesis
    using unix_text_ok [OF assms(1), of a] assms(2)
    by (auto simp: sock_ntop_def sock_ntop_host_def sock_text_def)
qed (use assms in \<open>auto simp: family_defs\<close>)

theorem sock_ntop_correct_witness:
  "\<exists>off str'. sock_ntop True (replicate 128 CHR ''x'') (SA_in \<lparr>sin_port = htons True 80, sin_addr = [10, 0, 0, 1]\<rparr>) 16
      = Some (Inr (off, str'))
    \<and> length str' = 128 \<and> cstr (drop off str') = ''10.0.0.1:80''"
proof -
  let ?sa = "SA_in \<lparr>sin_port = htons True 80, sin_addr = [10, 0, 0, 1]\<rparr>"
  have shown: "sock_text True ?sa = ''10.0.0.1:80''"
    by (simp add: sock_text_def host_text_def ntohs_htons show_dec_def show_base_small show_base_step lower_digits_def)
  have "length (replicate 128 CHR ''x'') = 128" "sa_ok ?sa" "sa_family ?sa \<in> {AF_INET, AF_INET6, AF_UNIX}"
      "length [0, 0, 0, 0 :: u8] = 4"
    by simp_all
  from sock_ntop_correct [OF this, of True 16, THEN conjunct1] show ?thesis
    unfolding shown .
qed

definition inet_addr :: "sockaddr \<Rightarrow> u8 list option" where
  "inet_addr sa = (case sa of SA_in a \<Rightarrow> Some (sin_addr a) | SA_in6 a \<Rightarrow> Some (sin6_addr a) | _ \<Rightarrow> None)"

text \<open>
  The accessors agree: a port or address set is the one read, compared equal and nothing else
  of the structure changes; \<^verbatim>\<open>sock_cmp_addr\<close> is 0 exactly for equal addresses, while \<^verbatim>\<open>sock_cmp_port\<close>
  is 1 for equal and 0 for different ports.
\<close>

theorem sock_accessors:
  assumes "inet_addr sa = Some a" and "inet_addr sb = Some b" and "sa_family sb = sa_family sa"
    and "0 \<le> port" and "port < 65536" and "length addr = length a" and "sa_ok sa"
  shows "sock_get_port (sock_set_port sa port) = port \<and> inet_addr (sock_set_port sa port) = Some a
    \<and> sock_set_port sa (sock_get_port sa) = sa
    \<and> (\<exists>sc. sock_set_addr sa addr = Some sc \<and> sa_ok sc \<and> inet_addr sc = Some addr \<and> sock_get_port sc = sock_get_port sa)
    \<and> (\<exists>sc. sock_set_wild sa = Some sc \<and> inet_addr sc = Some (replicate (length a) 0))
    \<and> (sock_cmp_addr sa sb = Some 0 \<longleftrightarrow> a = b)
    \<and> sock_cmp_port sa sb = (if sock_get_port sa = sock_get_port sb then 1 else 0)"
proof -
  have port: "unat (of_int port :: u16) = nat port"
  proof -
    have "(of_int port :: u16) = of_nat (nat port)"
      using assms(4) by simp
    moreover have "nat port < 2 ^ LENGTH(16)"
      using assms(5) by (simp add: nat_less_iff)
    ultimately show ?thesis
      by (simp add: unat_of_nat take_bit_nat_eq_self)
  qed
  have zeros: "[0, 0, 0, 0] = replicate 4 (0 :: u8)"
    by code_simp
  show ?thesis
  proof (cases sa)
    case (SA_in x)
    then obtain y where "sb = SA_in y"
      using assms(2,3) by (cases sb) (auto simp: inet_addr_def family_defs)
    then show ?thesis
      using SA_in assms port zeros
      by (auto simp: inet_addr_def sock_get_port_def sock_set_port_def sock_set_addr_def sock_set_wild_def
          sock_cmp_addr_def sock_cmp_port_def bytes_at_def memcmp_eq_0 map_unat_eq in4addr_any_def word_uint_eq_iff)
  next
    case (SA_in6 x)
    then obtain y where "sb = SA_in6 y"
      using assms(2,3) by (cases sb) (auto simp: inet_addr_def family_defs)
    then show ?thesis
      using SA_in6 assms port
      by (auto simp: inet_addr_def sock_get_port_def sock_set_port_def sock_set_addr_def sock_set_wild_def
          sock_cmp_addr_def sock_cmp_port_def bytes_at_def memcmp_eq_0 map_unat_eq in6addr_any_def word_uint_eq_iff)
  qed (use assms in \<open>auto simp: inet_addr_def\<close>)
qed

theorem sock_accessors_witness:
  "sock_get_port (sock_set_port (SA_in \<lparr>sin_port = 0, sin_addr = [10, 0, 0, 1]\<rparr>) 80) = 80
   \<and> sock_cmp_port (SA_in \<lparr>sin_port = 0, sin_addr = [10, 0, 0, 1]\<rparr>) (SA_in \<lparr>sin_port = 0, sin_addr = [10, 0, 0, 2]\<rparr>) = 1"
  using sock_accessors [of "SA_in \<lparr>sin_port = 0, sin_addr = [10, 0, 0, 1]\<rparr>" "[10, 0, 0, 1]"
      "SA_in \<lparr>sin_port = 0, sin_addr = [10, 0, 0, 2]\<rparr>" "[10, 0, 0, 2]" 80 "[10, 0, 0, 3]"]
  by (simp add: inet_addr_def sock_get_port_def)

end
