(* ===== verification/Mcast.thy ===== *)
theory Mcast
  imports Sockaddr
begin

text \<open>
  The multicast functions of \<^verbatim>\<open>lib/mcast_*.c\<close>. The kernel is a parameter: \<open>'so\<close> is the state of
  a socket, and a \<open>kernel\<close> record holds what the calls answer. A failing call is its \<^verbatim>\<open>errno\<close> on
  the left. Which multicast calls the system headers have is the record \<open>mcast_api\<close>; both branches
  of the \<^verbatim>\<open>#ifdef\<close>s are modelled. A cast of a socket address to a structure of another family is
  \<^term>\<open>None\<close>.
\<close>

section \<open>The kernel interface\<close>

datatype optname =
    MCAST_JOIN_GROUP | MCAST_LEAVE_GROUP | MCAST_JOIN_SOURCE_GROUP | MCAST_LEAVE_SOURCE_GROUP
  | MCAST_BLOCK_SOURCE | MCAST_UNBLOCK_SOURCE
  | IP_ADD_MEMBERSHIP | IP_DROP_MEMBERSHIP | IP_ADD_SOURCE_MEMBERSHIP | IP_DROP_SOURCE_MEMBERSHIP
  | IP_BLOCK_SOURCE | IP_UNBLOCK_SOURCE | IPV6_JOIN_GROUP | IPV6_LEAVE_GROUP
  | IP_MULTICAST_IF | IP_MULTICAST_LOOP | IP_MULTICAST_TTL
  | IPV6_MULTICAST_IF | IPV6_MULTICAST_LOOP | IPV6_MULTICAST_HOPS

text \<open>
  Option values: \<^verbatim>\<open>u_char\<close>, \<^verbatim>\<open>int\<close> or \<^verbatim>\<open>u_int\<close>, \<^verbatim>\<open>struct in_addr\<close>, \<^verbatim>\<open>ip_mreq\<close> (group, interface),
  \<^verbatim>\<open>ip_mreq_source\<close> (group, source, interface), \<^verbatim>\<open>ipv6_mreq\<close> (group, interface), \<^verbatim>\<open>group_req\<close>
  (interface, group, bytes of it copied) and \<^verbatim>\<open>group_source_req\<close>.
\<close>

datatype optval =
    Uchar u8
  | Uint u32
  | In_addr "u8 list"
  | Ip_mreq "u8 list" "u8 list"
  | Ip_mreq_source "u8 list" "u8 list" "u8 list"
  | Ipv6_mreq "u8 list" u32
  | Group_req u32 sockaddr nat
  | Group_source_req u32 sockaddr nat sockaddr nat

record 'so kernel =
  k_getsockname :: "'so \<Rightarrow> errno + sockaddr"
  k_setsockopt :: "'so \<Rightarrow> int \<Rightarrow> optname \<Rightarrow> optval \<Rightarrow> errno + 'so"
  k_getsockopt :: "'so \<Rightarrow> int \<Rightarrow> optname \<Rightarrow> errno + optval"
  k_ifaddr :: "'so \<Rightarrow> string \<Rightarrow> errno + sockaddr"
  k_nametoindex :: "string \<Rightarrow> u32"
  k_indextoname :: "u32 \<Rightarrow> string option"

record mcast_api =
  has_group_req :: bool
  has_source_mreq :: bool

definition sizeof_storage :: nat where
  "sizeof_storage = 128"

definition IFNAMSIZ :: nat where
  "IFNAMSIZ = 16"

text \<open>\<^verbatim>\<open>strncpy(ifr_name, ifname, IFNAMSIZ)\<close>: the kernel sees at most 16 characters of the name.\<close>

definition ifr_name :: "string \<Rightarrow> string" where
  "ifr_name ifname = take IFNAMSIZ ifname"

fun cast_in :: "sockaddr \<Rightarrow> u8 list option" where
  "cast_in (SA_in a) = Some (sin_addr a)"
| "cast_in _ = None"

fun cast_in6 :: "sockaddr \<Rightarrow> u8 list option" where
  "cast_in6 (SA_in6 a) = Some (sin6_addr a)"
| "cast_in6 _ = None"

definition or_exit :: "string \<Rightarrow> errno + 'a \<Rightarrow> 'a outcome" where
  "or_exit msg r = (case r of Inl e \<Rightarrow> Exits msg | Inr x \<Rightarrow> Ret x)"

section \<open>Choosing the interface\<close>

text \<open>The index: the argument if positive, that of the name if there is one, otherwise 0.\<close>

definition choose_index :: "'so kernel \<Rightarrow> string option \<Rightarrow> u32 \<Rightarrow> errno + u32" where
  "choose_index k ifname ifindex =
     (if ifindex > 0 then Inr ifindex
      else
        (case ifname of
           Some n \<Rightarrow> if k_nametoindex k n = 0 then Inl ENXIO else Inr (k_nametoindex k n)
         | None \<Rightarrow> Inr 0))"

text \<open>The IPv4 address: that of the interface, by \<^verbatim>\<open>SIOCGIFADDR\<close>, or \<^verbatim>\<open>INADDR_ANY\<close>.\<close>

definition doioctl :: "'so kernel \<Rightarrow> 'so \<Rightarrow> string \<Rightarrow> (errno + u8 list) option" where
  "doioctl k so name =
     (case k_ifaddr k so name of
        Inl e \<Rightarrow> Some (Inl e)
      | Inr sa \<Rightarrow> map_option Inr (cast_in sa))"

definition choose_addr :: "'so kernel \<Rightarrow> 'so \<Rightarrow> string option \<Rightarrow> u32 \<Rightarrow> (errno + u8 list) option" where
  "choose_addr k so ifname ifindex =
     (if ifindex > 0 then
        (case k_indextoname k ifindex of
           None \<Rightarrow> Some (Inl ENXIO)
         | Some name \<Rightarrow> doioctl k so name)
      else
        (case ifname of
           Some n \<Rightarrow> doioctl k so (ifr_name n)
         | None \<Rightarrow> Some (Inr in4addr_any)))"

section \<open>\<^verbatim>\<open>mcast_join.c\<close>\<close>

definition mcast_join ::
  "mcast_api \<Rightarrow> 'so kernel \<Rightarrow> 'so \<Rightarrow> sockaddr \<Rightarrow> nat \<Rightarrow> string option \<Rightarrow> u32 \<Rightarrow> (errno + 'so) option" where
  "mcast_join api k so grp grplen ifname ifindex =
     (if has_group_req api then
        (case choose_index k ifname ifindex of
           Inl e \<Rightarrow> Some (Inl e)
         | Inr i \<Rightarrow>
             if grplen > sizeof_storage then Some (Inl EINVAL)
             else Some (k_setsockopt k so (family_to_level (sa_family grp)) MCAST_JOIN_GROUP (Group_req i grp grplen)))
      else if sa_family grp = AF_INET then do {
        g \<leftarrow> cast_in grp;
        r \<leftarrow> choose_addr k so ifname ifindex;
        Some (case r of
                Inl e \<Rightarrow> Inl e
              | Inr a \<Rightarrow> k_setsockopt k so IPPROTO_IP IP_ADD_MEMBERSHIP (Ip_mreq g a))
      }
      else if sa_family grp = AF_INET6 then do {
        g \<leftarrow> cast_in6 grp;
        Some (case choose_index k ifname ifindex of
                Inl e \<Rightarrow> Inl e
              | Inr i \<Rightarrow> k_setsockopt k so IPPROTO_IPV6 IPV6_JOIN_GROUP (Ipv6_mreq g i))
      }
      else Some (Inl EAFNOSUPPORT))"

definition Mcast_join ::
  "mcast_api \<Rightarrow> 'so kernel \<Rightarrow> 'so \<Rightarrow> sockaddr \<Rightarrow> nat \<Rightarrow> string option \<Rightarrow> u32 \<Rightarrow> 'so outcome option" where
  "Mcast_join api k so grp grplen ifname ifindex =
     map_option (or_exit ''mcast_join error'') (mcast_join api k so grp grplen ifname ifindex)"

definition mcast_join_source_group ::
  "mcast_api \<Rightarrow> 'so kernel \<Rightarrow> 'so \<Rightarrow> sockaddr \<Rightarrow> nat \<Rightarrow> sockaddr \<Rightarrow> nat \<Rightarrow> string option \<Rightarrow> u32 \<Rightarrow> (errno + 'so) option" where
  "mcast_join_source_group api k so src srclen grp grplen ifname ifindex =
     (if has_group_req api then
        (case choose_index k ifname ifindex of
           Inl e \<Rightarrow> Some (Inl e)
         | Inr i \<Rightarrow>
             if grplen > sizeof_storage \<or> srclen > sizeof_storage then Some (Inl EINVAL)
             else Some (k_setsockopt k so (family_to_level (sa_family grp)) MCAST_JOIN_SOURCE_GROUP
                          (Group_source_req i grp grplen src srclen)))
      else if sa_family grp = AF_INET \<and> has_source_mreq api then do {
        g \<leftarrow> cast_in grp;
        s \<leftarrow> cast_in src;
        r \<leftarrow> choose_addr k so ifname ifindex;
        Some (case r of
                Inl e \<Rightarrow> Inl e
              | Inr a \<Rightarrow> k_setsockopt k so IPPROTO_IP IP_ADD_SOURCE_MEMBERSHIP (Ip_mreq_source g s a))
      }
      else Some (Inl EAFNOSUPPORT))"

definition Mcast_join_source_group ::
  "mcast_api \<Rightarrow> 'so kernel \<Rightarrow> 'so \<Rightarrow> sockaddr \<Rightarrow> nat \<Rightarrow> sockaddr \<Rightarrow> nat \<Rightarrow> string option \<Rightarrow> u32 \<Rightarrow> 'so outcome option" where
  "Mcast_join_source_group api k so src srclen grp grplen ifname ifindex =
     map_option (or_exit ''mcast_join_source_group error'')
       (mcast_join_source_group api k so src srclen grp grplen ifname ifindex)"

text \<open>
  Blocking, unblocking and leaving a source have one shape: an interface of 0 or \<^verbatim>\<open>INADDR_ANY\<close>,
  and only the option name differs.
\<close>

definition source_request ::
  "optname \<Rightarrow> optname \<Rightarrow> mcast_api \<Rightarrow> 'so kernel \<Rightarrow> 'so \<Rightarrow> sockaddr \<Rightarrow> nat \<Rightarrow> sockaddr \<Rightarrow> nat \<Rightarrow> (errno + 'so) option" where
  "source_request mcast_opt ip_opt api k so src srclen grp grplen =
     (if has_group_req api then
        if grplen > sizeof_storage \<or> srclen > sizeof_storage then Some (Inl EINVAL)
        else Some (k_setsockopt k so (family_to_level (sa_family grp)) mcast_opt
                     (Group_source_req 0 grp grplen src srclen))
      else if sa_family grp = AF_INET \<and> has_source_mreq api then do {
        g \<leftarrow> cast_in grp;
        s \<leftarrow> cast_in src;
        Some (k_setsockopt k so IPPROTO_IP ip_opt (Ip_mreq_source g s in4addr_any))
      }
      else Some (Inl EAFNOSUPPORT))"

definition mcast_block_source ::
  "mcast_api \<Rightarrow> 'so kernel \<Rightarrow> 'so \<Rightarrow> sockaddr \<Rightarrow> nat \<Rightarrow> sockaddr \<Rightarrow> nat \<Rightarrow> (errno + 'so) option" where
  "mcast_block_source = source_request MCAST_BLOCK_SOURCE IP_BLOCK_SOURCE"

definition Mcast_block_source ::
  "mcast_api \<Rightarrow> 'so kernel \<Rightarrow> 'so \<Rightarrow> sockaddr \<Rightarrow> nat \<Rightarrow> sockaddr \<Rightarrow> nat \<Rightarrow> 'so outcome option" where
  "Mcast_block_source api k so src srclen grp grplen =
     map_option (or_exit ''mcast_block_source error'') (mcast_block_source api k so src srclen grp grplen)"

definition mcast_unblock_source ::
  "mcast_api \<Rightarrow> 'so kernel \<Rightarrow> 'so \<Rightarrow> sockaddr \<Rightarrow> nat \<Rightarrow> sockaddr \<Rightarrow> nat \<Rightarrow> (errno + 'so) option" where
  "mcast_unblock_source = source_request MCAST_UNBLOCK_SOURCE IP_UNBLOCK_SOURCE"

definition Mcast_unblock_source ::
  "mcast_api \<Rightarrow> 'so kernel \<Rightarrow> 'so \<Rightarrow> sockaddr \<Rightarrow> nat \<Rightarrow> sockaddr \<Rightarrow> nat \<Rightarrow> 'so outcome option" where
  "Mcast_unblock_source api k so src srclen grp grplen =
     map_option (or_exit ''mcast_unblock_source error'') (mcast_unblock_source api k so src srclen grp grplen)"

section \<open>\<^verbatim>\<open>mcast_leave.c\<close>\<close>

definition mcast_leave ::
  "mcast_api \<Rightarrow> 'so kernel \<Rightarrow> 'so \<Rightarrow> sockaddr \<Rightarrow> nat \<Rightarrow> (errno + 'so) option" where
  "mcast_leave api k so grp grplen =
     (if has_group_req api then
        if grplen > sizeof_storage then Some (Inl EINVAL)
        else Some (k_setsockopt k so (family_to_level (sa_family grp)) MCAST_LEAVE_GROUP (Group_req 0 grp grplen))
      else if sa_family grp = AF_INET then do {
        g \<leftarrow> cast_in grp;
        Some (k_setsockopt k so IPPROTO_IP IP_DROP_MEMBERSHIP (Ip_mreq g in4addr_any))
      }
      else if sa_family grp = AF_INET6 then do {
        g \<leftarrow> cast_in6 grp;
        Some (k_setsockopt k so IPPROTO_IPV6 IPV6_LEAVE_GROUP (Ipv6_mreq g 0))
      }
      else Some (Inl EAFNOSUPPORT))"

definition Mcast_leave :: "mcast_api \<Rightarrow> 'so kernel \<Rightarrow> 'so \<Rightarrow> sockaddr \<Rightarrow> nat \<Rightarrow> 'so outcome option" where
  "Mcast_leave api k so grp grplen = map_option (or_exit ''mcast_leave error'') (mcast_leave api k so grp grplen)"

definition mcast_leave_source_group ::
  "mcast_api \<Rightarrow> 'so kernel \<Rightarrow> 'so \<Rightarrow> sockaddr \<Rightarrow> nat \<Rightarrow> sockaddr \<Rightarrow> nat \<Rightarrow> (errno + 'so) option" where
  "mcast_leave_source_group = source_request MCAST_LEAVE_SOURCE_GROUP IP_DROP_SOURCE_MEMBERSHIP"

definition Mcast_leave_source_group ::
  "mcast_api \<Rightarrow> 'so kernel \<Rightarrow> 'so \<Rightarrow> sockaddr \<Rightarrow> nat \<Rightarrow> sockaddr \<Rightarrow> nat \<Rightarrow> 'so outcome option" where
  "Mcast_leave_source_group api k so src srclen grp grplen =
     map_option (or_exit ''mcast_leave_source_group error'') (mcast_leave_source_group api k so src srclen grp grplen)"

section \<open>The options of the sending side\<close>

definition fam :: "'so kernel \<Rightarrow> 'so \<Rightarrow> int" where
  "fam k so = sockfd_to_family (k_getsockname k so)"

definition mcast_set_if :: "'so kernel \<Rightarrow> 'so \<Rightarrow> string option \<Rightarrow> u32 \<Rightarrow> (errno + 'so) option" where
  "mcast_set_if k so ifname ifindex =
     (if fam k so = int AF_INET then do {
        r \<leftarrow> choose_addr k so ifname ifindex;
        Some (case r of Inl e \<Rightarrow> Inl e | Inr a \<Rightarrow> k_setsockopt k so IPPROTO_IP IP_MULTICAST_IF (In_addr a))
      }
      else if fam k so = int AF_INET6 then
        if ifindex = 0 then
          (case ifname of
             None \<Rightarrow> Some (Inl EINVAL)
           | Some n \<Rightarrow>
               if k_nametoindex k n = 0 then Some (Inl ENXIO)
               else Some (k_setsockopt k so IPPROTO_IPV6 IPV6_MULTICAST_IF (Uint (k_nametoindex k n))))
        else Some (k_setsockopt k so IPPROTO_IPV6 IPV6_MULTICAST_IF (Uint ifindex))
      else Some (Inl EAFNOSUPPORT))"

definition Mcast_set_if :: "'so kernel \<Rightarrow> 'so \<Rightarrow> string option \<Rightarrow> u32 \<Rightarrow> 'so outcome option" where
  "Mcast_set_if k so ifname ifindex = map_option (or_exit ''mcast_set_if error'') (mcast_set_if k so ifname ifindex)"

text \<open>IPv4 wants an \<^verbatim>\<open>u_char\<close>, IPv6 a \<^verbatim>\<open>u_int\<close> or an \<^verbatim>\<open>int\<close>: the argument is converted.\<close>

definition mcast_set_loop :: "'so kernel \<Rightarrow> 'so \<Rightarrow> int \<Rightarrow> errno + 'so" where
  "mcast_set_loop k so onoff =
     (if fam k so = int AF_INET then k_setsockopt k so IPPROTO_IP IP_MULTICAST_LOOP (Uchar (of_int onoff))
      else if fam k so = int AF_INET6 then k_setsockopt k so IPPROTO_IPV6 IPV6_MULTICAST_LOOP (Uint (of_int onoff))
      else Inl EAFNOSUPPORT)"

definition Mcast_set_loop :: "'so kernel \<Rightarrow> 'so \<Rightarrow> int \<Rightarrow> 'so outcome" where
  "Mcast_set_loop k so onoff = or_exit ''mcast_set_loop error'' (mcast_set_loop k so onoff)"

definition mcast_set_ttl :: "'so kernel \<Rightarrow> 'so \<Rightarrow> int \<Rightarrow> errno + 'so" where
  "mcast_set_ttl k so val =
     (if fam k so = int AF_INET then k_setsockopt k so IPPROTO_IP IP_MULTICAST_TTL (Uchar (of_int val))
      else if fam k so = int AF_INET6 then k_setsockopt k so IPPROTO_IPV6 IPV6_MULTICAST_HOPS (Uint (of_int val))
      else Inl EAFNOSUPPORT)"

definition Mcast_set_ttl :: "'so kernel \<Rightarrow> 'so \<Rightarrow> int \<Rightarrow> 'so outcome" where
  "Mcast_set_ttl k so val = or_exit ''mcast_set_ttl error'' (mcast_set_ttl k so val)"

text \<open>What \<^verbatim>\<open>getsockopt\<close> stores, seen as the variable it is given: \<^verbatim>\<open>u_char\<close> or 32 bits read as signed.\<close>

fun as_uchar :: "optval \<Rightarrow> int option" where
  "as_uchar (Uchar b) = Some (uint b)"
| "as_uchar _ = None"

fun as_int :: "optval \<Rightarrow> int option" where
  "as_int (Uint w) = Some (sint w)"
| "as_int _ = None"

definition get_option :: "'so kernel \<Rightarrow> 'so \<Rightarrow> int \<Rightarrow> optname \<Rightarrow> (optval \<Rightarrow> int option) \<Rightarrow> int option" where
  "get_option k so level opt as =
     (case k_getsockopt k so level opt of Inl e \<Rightarrow> Some (-1) | Inr v \<Rightarrow> as v)"

definition mcast_get_if :: "'so kernel \<Rightarrow> 'so \<Rightarrow> int option" where
  "mcast_get_if k so =
     (if fam k so = int AF_INET then Some (-1)
      else if fam k so = int AF_INET6 then get_option k so IPPROTO_IPV6 IPV6_MULTICAST_IF as_int
      else Some (-1))"

definition mcast_get_loop :: "'so kernel \<Rightarrow> 'so \<Rightarrow> int option" where
  "mcast_get_loop k so =
     (if fam k so = int AF_INET then get_option k so IPPROTO_IP IP_MULTICAST_LOOP as_uchar
      else if fam k so = int AF_INET6 then get_option k so IPPROTO_IPV6 IPV6_MULTICAST_LOOP as_int
      else Some (-1))"

definition mcast_get_ttl :: "'so kernel \<Rightarrow> 'so \<Rightarrow> int option" where
  "mcast_get_ttl k so =
     (if fam k so = int AF_INET then get_option k so IPPROTO_IP IP_MULTICAST_TTL as_uchar
      else if fam k so = int AF_INET6 then get_option k so IPPROTO_IPV6 IPV6_MULTICAST_HOPS as_int
      else Some (-1))"

definition nonneg_or_exit :: "string \<Rightarrow> int \<Rightarrow> int outcome" where
  "nonneg_or_exit msg rc = (if rc < 0 then Exits msg else Ret rc)"

definition Mcast_get_if :: "'so kernel \<Rightarrow> 'so \<Rightarrow> int outcome option" where
  "Mcast_get_if k so = map_option (nonneg_or_exit ''mcast_get_if error'') (mcast_get_if k so)"

definition Mcast_get_loop :: "'so kernel \<Rightarrow> 'so \<Rightarrow> int outcome option" where
  "Mcast_get_loop k so = map_option (nonneg_or_exit ''mcast_get_loop error'') (mcast_get_loop k so)"

definition Mcast_get_ttl :: "'so kernel \<Rightarrow> 'so \<Rightarrow> int outcome option" where
  "Mcast_get_ttl k so = map_option (nonneg_or_exit ''mcast_get_ttl error'') (mcast_get_ttl k so)"

section \<open>Properties\<close>

text \<open>Documented behaviour of the kernel: an option reads back as set, and options do not change the name.\<close>

definition keeps_options :: "'so kernel \<Rightarrow> bool" where
  "keeps_options k \<longleftrightarrow> (\<forall>so level opt v so'. k_setsockopt k so level opt v = Inr so' \<longrightarrow>
     k_getsockopt k so' level opt = Inr v \<and> k_getsockname k so' = k_getsockname k so)"

lemma keeps_optionsD:
  assumes "keeps_options k" and "k_setsockopt k so level opt v = Inr so'"
  shows "k_getsockopt k so' level opt = Inr v" "fam k so' = fam k so"
  using assms by (auto simp: keeps_options_def fam_def)

text \<open>
  The hop limit and the loopback flag of multicast datagrams read back as they were set when
  they fit the type the kernel wants. On an IPv4 socket only the lowest eight bits are kept: a limit
  of 256 becomes 0 and -1 becomes 255, without an error.
\<close>

theorem mcast_set_get:
  assumes "keeps_options k" and "-2147483648 \<le> val" and "val < 2147483648"
  shows "(mcast_set_ttl k so val = Inr so' \<longrightarrow>
      mcast_get_ttl k so' = Some (if fam k so = int AF_INET then val mod 256 else val))
    \<and> (mcast_set_loop k so val = Inr so' \<longrightarrow>
      mcast_get_loop k so' = Some (if fam k so = int AF_INET then val mod 256 else val))"
proof -
  have u: "uint (of_int val :: u8) = val mod 256"
    by (simp add: uint_word_of_int)
  have s: "sint (of_int val :: u32) = val"
    using assms(2,3) by (simp add: sint_sbintrunc' signed_take_bit_int_eq_self)
  show ?thesis
    using keeps_optionsD [OF assms(1)] u s
    by (auto simp: mcast_set_ttl_def mcast_get_ttl_def mcast_set_loop_def mcast_get_loop_def get_option_def
        split: if_splits)
qed

definition store_kernel :: "sockaddr \<Rightarrow> (int \<times> optname \<Rightarrow> optval option) kernel" where
  "store_kernel name = \<lparr>
     k_getsockname = (\<lambda>so. Inr name),
     k_setsockopt = (\<lambda>so level opt v. Inr (so((level, opt) := Some v))),
     k_getsockopt = (\<lambda>so level opt. case so (level, opt) of None \<Rightarrow> Inl EINVAL | Some v \<Rightarrow> Inr v),
     k_ifaddr = (\<lambda>so n. Inl ENXIO),
     k_nametoindex = (\<lambda>n. 0),
     k_indextoname = (\<lambda>i. None)\<rparr>"

lemma store_kernel_keeps: "keeps_options (store_kernel name)"
  by (auto simp: keeps_options_def store_kernel_def)

theorem mcast_set_get_witness:
  "mcast_get_ttl (store_kernel (SA_in \<lparr>sin_port = 0, sin_addr = in4addr_any\<rparr>))
     (Map.empty((IPPROTO_IP, IP_MULTICAST_TTL) := Some (Uchar (of_int 256)))) = Some (256 mod 256)"
proof -
  let ?k = "store_kernel (SA_in \<lparr>sin_port = 0, sin_addr = in4addr_any\<rparr>)"
  have "fam ?k Map.empty = int AF_INET"
    by (simp add: fam_def store_kernel_def sockfd_to_family_def)
  moreover from this have "mcast_set_ttl ?k Map.empty 256
      = Inr (Map.empty((IPPROTO_IP, IP_MULTICAST_TTL) := Some (Uchar (of_int 256))))"
    by (simp add: mcast_set_ttl_def) (simp add: store_kernel_def)
  ultimately show ?thesis
    using mcast_set_get [OF store_kernel_keeps, of 256, THEN conjunct1, THEN mp] by simp
qed

text \<open>
  Documented behaviour of the two interfaces to group membership (RFC 3678): a request by interface
  index, with the whole socket address of the group in it, is the request of the older interface for the
  same group, and the index and the IPv4 address of an interface stand for one another. Nothing is said of
  a request with fewer bytes of the address. The sizes are those of \<^verbatim>\<open>struct sockaddr_in\<close> and
  \<^verbatim>\<open>sockaddr_in6\<close>.
\<close>

fun sockaddr_size :: "sockaddr \<Rightarrow> nat" where
  "sockaddr_size (SA_in a) = 16"
| "sockaddr_size (SA_in6 a) = 28"
| "sockaddr_size _ = 0"

definition iface_addr :: "'so kernel \<Rightarrow> 'so \<Rightarrow> u32 \<Rightarrow> u8 list \<Rightarrow> bool" where
  "iface_addr k so i ifa \<longleftrightarrow> i = 0 \<and> ifa = in4addr_any
     \<or> (\<exists>name sa. k_indextoname k i = Some name \<and> k_ifaddr k so name = Inr (SA_in sa) \<and> sin_addr sa = ifa)"

definition same_groups :: "'so kernel \<Rightarrow> bool" where
  "same_groups k \<longleftrightarrow>
     (\<forall>so i a n. 28 \<le> n \<longrightarrow> k_setsockopt k so IPPROTO_IPV6 MCAST_JOIN_GROUP (Group_req i (SA_in6 a) n)
        = k_setsockopt k so IPPROTO_IPV6 IPV6_JOIN_GROUP (Ipv6_mreq (sin6_addr a) i))
     \<and> (\<forall>so i a n ifa. 16 \<le> n \<and> iface_addr k so i ifa \<longrightarrow>
          k_setsockopt k so IPPROTO_IP MCAST_JOIN_GROUP (Group_req i (SA_in a) n)
          = k_setsockopt k so IPPROTO_IP IP_ADD_MEMBERSHIP (Ip_mreq (sin_addr a) ifa))"

definition named_interfaces :: "'so kernel \<Rightarrow> bool" where
  "named_interfaces k \<longleftrightarrow>
     (\<forall>n. k_nametoindex k n \<noteq> 0 \<longrightarrow> k_indextoname k (k_nametoindex k n) = Some n \<and> length n < IFNAMSIZ)"

text \<open>The interface asked for exists and, where the group is an IPv4 one, it has an IPv4 address.\<close>

definition has_v4 :: "'so kernel \<Rightarrow> 'so \<Rightarrow> string \<Rightarrow> bool" where
  "has_v4 k so name \<longleftrightarrow> (\<exists>sa. k_ifaddr k so name = Inr (SA_in sa))"

definition interface_exists :: "'so kernel \<Rightarrow> 'so \<Rightarrow> bool \<Rightarrow> string option \<Rightarrow> u32 \<Rightarrow> bool" where
  "interface_exists k so v4 ifname ifindex \<longleftrightarrow>
     (if ifindex > 0 then \<exists>name. k_indextoname k ifindex = Some name \<and> (v4 \<longrightarrow> has_v4 k so name)
      else (case ifname of Some n \<Rightarrow> k_nametoindex k n \<noteq> 0 \<and> (v4 \<longrightarrow> has_v4 k so n) | None \<Rightarrow> True))"

text \<open>Both ways to choose the interface choose the same one.\<close>

lemma doioctl_named:
  assumes "has_v4 k so name" and "k_indextoname k i = Some name"
  shows "\<exists>ifa. doioctl k so name = Some (Inr ifa) \<and> iface_addr k so i ifa"
  using assms by (auto simp: has_v4_def doioctl_def iface_addr_def)

lemma choose_index_exists: "interface_exists k so v4 ifname ifindex \<Longrightarrow> \<exists>i. choose_index k ifname ifindex = Inr i"
  by (auto simp: interface_exists_def choose_index_def split: option.splits if_splits)

lemma choose_same:
  assumes "named_interfaces k" and "interface_exists k so True ifname ifindex"
  shows "\<exists>i ifa. choose_index k ifname ifindex = Inr i \<and> choose_addr k so ifname ifindex = Some (Inr ifa)
    \<and> iface_addr k so i ifa"
proof (cases "ifindex > 0")
  case True
  then obtain name where "k_indextoname k ifindex = Some name" "has_v4 k so name"
    using assms(2) by (auto simp: interface_exists_def)
  then show ?thesis
    using True doioctl_named [of k so name ifindex] by (auto simp: choose_index_def choose_addr_def)
next
  case False
  show ?thesis
  proof (cases ifname)
    case None
    then show ?thesis
      using False by (simp add: choose_index_def choose_addr_def iface_addr_def)
  next
    case (Some n)
    have n: "k_nametoindex k n \<noteq> 0" "has_v4 k so n"
      using assms(2) False Some by (simp_all add: interface_exists_def)
    then have "k_indextoname k (k_nametoindex k n) = Some n" "ifr_name n = n"
      using assms(1) by (simp_all add: named_interfaces_def ifr_name_def less_imp_le)
    then show ?thesis
      using False Some n doioctl_named [of k so n "k_nametoindex k n"]
      by (auto simp: choose_index_def choose_addr_def)
  qed
qed

text \<open>
  (C35) A program that passes the whole socket address of a group joins the same group on the same
  interface whichever interface to group membership the system has: by index, by name, or on the default
  interface, for IPv4 and IPv6. The interface must exist, and for an IPv4 group it must have an IPv4
  address, by which the older interface names it.
\<close>

theorem mcast_join_same:
  assumes "same_groups k" and "named_interfaces k" and "grp = SA_in a \<or> grp = SA_in6 b"
    and "interface_exists k so (grp = SA_in a) ifname ifindex" and "sockaddr_size grp \<le> grplen" and "grplen \<le> sizeof_storage"
  shows "mcast_join \<lparr>has_group_req = True, has_source_mreq = x\<rparr> k so grp grplen ifname ifindex
    = mcast_join \<lparr>has_group_req = False, has_source_mreq = y\<rparr> k so grp grplen ifname ifindex"
  using assms(3)
proof
  assume grp: "grp = SA_in a"
  then have "interface_exists k so True ifname ifindex"
    using assms(4) by simp
  from choose_same [OF assms(2) this] obtain i ifa where "choose_index k ifname ifindex = Inr i"
      "choose_addr k so ifname ifindex = Some (Inr ifa)" "iface_addr k so i ifa"
    by blast
  then show ?thesis
    using assms(1,5,6) grp by (simp add: mcast_join_def family_to_level_def family_defs same_groups_def)
next
  assume grp: "grp = SA_in6 b"
  obtain i where "choose_index k ifname ifindex = Inr i"
    using choose_index_exists [OF assms(4)] by blast
  then show ?thesis
    using assms(1,5,6) grp by (simp add: mcast_join_def family_to_level_def family_defs same_groups_def)
qed

definition group_kernel :: "(u8 list \<times> u32) list kernel" where
  "group_kernel = \<lparr>
     k_getsockname = (\<lambda>so. Inr (SA_in \<lparr>sin_port = 0, sin_addr = in4addr_any\<rparr>)),
     k_setsockopt = (\<lambda>so level opt v.
       case v of
         Group_req i (SA_in a) n \<Rightarrow> if n < 16 then Inl EINVAL else Inr ((sin_addr a, i) # so)
       | Group_req i (SA_in6 a) n \<Rightarrow> if n < 28 then Inl EINVAL else Inr ((sin6_addr a, i) # so)
       | Ip_mreq g ifa \<Rightarrow> Inr ((g, if ifa = [10, 0, 0, 1] then 1 else 0) # so)
       | Ipv6_mreq g i \<Rightarrow> Inr ((g, i) # so)
       | _ \<Rightarrow> Inl EINVAL),
     k_getsockopt = (\<lambda>so level opt. Inl EINVAL),
     k_ifaddr = (\<lambda>so n. Inr (SA_in \<lparr>sin_port = 0, sin_addr = [10, 0, 0, 1]\<rparr>)),
     k_nametoindex = (\<lambda>n. if n = ''eth0'' then 1 else 0),
     k_indextoname = (\<lambda>i. if i = 1 then Some ''eth0'' else None)\<rparr>"

theorem mcast_join_same_witness:
  "mcast_join \<lparr>has_group_req = False, has_source_mreq = False\<rparr> group_kernel []
     (SA_in \<lparr>sin_port = 0, sin_addr = [224, 0, 0, 1]\<rparr>) 16 (Some ''eth0'') 0 = Some (Inr [([224, 0, 0, 1], 1)])"
proof -
  have "same_groups group_kernel"
    by (auto simp: same_groups_def iface_addr_def group_kernel_def in4addr_any_def)
  moreover have "named_interfaces group_kernel"
    by (auto simp: named_interfaces_def group_kernel_def IFNAMSIZ_def split: if_splits)
  moreover have "interface_exists group_kernel [] True (Some ''eth0'') 0"
    by (simp add: interface_exists_def has_v4_def group_kernel_def)
  ultimately have "mcast_join \<lparr>has_group_req = True, has_source_mreq = False\<rparr> group_kernel []
      (SA_in \<lparr>sin_port = 0, sin_addr = [224, 0, 0, 1]\<rparr>) 16 (Some ''eth0'') 0
    = mcast_join \<lparr>has_group_req = False, has_source_mreq = False\<rparr> group_kernel []
      (SA_in \<lparr>sin_port = 0, sin_addr = [224, 0, 0, 1]\<rparr>) 16 (Some ''eth0'') 0"
    by (intro mcast_join_same [where a = "\<lparr>sin_port = 0, sin_addr = [224, 0, 0, 1]\<rparr>"]) (simp_all add: sizeof_storage_def)
  moreover have "mcast_join \<lparr>has_group_req = True, has_source_mreq = False\<rparr> group_kernel []
      (SA_in \<lparr>sin_port = 0, sin_addr = [224, 0, 0, 1]\<rparr>) 16 (Some ''eth0'') 0 = Some (Inr [([224, 0, 0, 1], 1)])"
    by (simp add: mcast_join_def choose_index_def sizeof_storage_def) (simp add: group_kernel_def)
  ultimately show ?thesis
    by simp
qed

end
