(* ===== verification/Gai.thy ===== *)
theory Gai
  imports Sockaddr
begin

unbundle bit_operations_syntax

text \<open>
  The \<^verbatim>\<open>getaddrinfo\<close> and \<^verbatim>\<open>getnameinfo\<close> of \<^verbatim>\<open>libgai\<close>. The linked list of \<^verbatim>\<open>addrinfo\<close> structures is
  a list; \<open>world\<close> holds what else the code changes: the memory allocator (which calls succeed, and
  how many blocks are live), the resolver's option word, and the paths unlinked. The resolver, the
  services database and \<^verbatim>\<open>uname\<close> are parameters. \<^term>\<open>None\<close> is undefined behaviour.
\<close>

section \<open>Data\<close>

record addrinfo =
  ai_flags :: u32
  ai_family :: nat
  ai_socktype :: nat
  ai_protocol :: nat
  ai_addrlen :: nat
  ai_canonname :: "string option"
  ai_addr :: "sockaddr option"

definition AI_PASSIVE :: u32 where "AI_PASSIVE = 1"
definition AI_CANONNAME :: u32 where "AI_CANONNAME = 2"
definition AI_CLONE :: u32 where "AI_CLONE = 4"

definition NI_NOFQDN :: u32 where "NI_NOFQDN = 1"
definition NI_NUMERICHOST :: u32 where "NI_NUMERICHOST = 2"
definition NI_NAMEREQD :: u32 where "NI_NAMEREQD = 4"
definition NI_NUMERICSERV :: u32 where "NI_NUMERICSERV = 8"
definition NI_DGRAM :: u32 where "NI_DGRAM = 16"

definition EAI_ADDRFAMILY :: nat where "EAI_ADDRFAMILY = 1"
definition EAI_AGAIN :: nat where "EAI_AGAIN = 2"
definition EAI_BADFLAGS :: nat where "EAI_BADFLAGS = 3"
definition EAI_FAIL :: nat where "EAI_FAIL = 4"
definition EAI_FAMILY :: nat where "EAI_FAMILY = 5"
definition EAI_MEMORY :: nat where "EAI_MEMORY = 6"
definition EAI_NODATA :: nat where "EAI_NODATA = 7"
definition EAI_NONAME :: nat where "EAI_NONAME = 8"
definition EAI_SERVICE :: nat where "EAI_SERVICE = 9"
definition EAI_SOCKTYPE :: nat where "EAI_SOCKTYPE = 10"
definition EAI_SYSTEM :: nat where "EAI_SYSTEM = 11"

lemmas ai_flag_defs = AI_PASSIVE_def AI_CANONNAME_def AI_CLONE_def
lemmas eai_defs = EAI_ADDRFAMILY_def EAI_AGAIN_def EAI_BADFLAGS_def EAI_FAIL_def EAI_FAMILY_def
  EAI_MEMORY_def EAI_NODATA_def EAI_NONAME_def EAI_SERVICE_def EAI_SOCKTYPE_def EAI_SYSTEM_def

text \<open>The constants of the system headers.\<close>

definition AF_UNSPEC :: nat where "AF_UNSPEC = 0"
definition SOCK_STREAM :: nat where "SOCK_STREAM = 1"
definition SOCK_DGRAM :: nat where "SOCK_DGRAM = 2"
definition SOCK_RAW :: nat where "SOCK_RAW = 3"

lemmas sock_type_defs = SOCK_STREAM_def SOCK_DGRAM_def SOCK_RAW_def AF_UNSPEC_def

definition set_flags :: "u32 \<Rightarrow> u32 \<Rightarrow> bool" where
  "set_flags flags m \<longleftrightarrow> flags AND m \<noteq> 0"

record world =
  alloc_ok :: "nat \<Rightarrow> bool"
  allocs :: nat
  live :: nat
  res_inet6 :: bool
  unlinked :: "string list"

text \<open>\<^verbatim>\<open>calloc\<close>, \<^verbatim>\<open>malloc\<close>, \<^verbatim>\<open>strdup\<close>: the next answer of the allocator; \<^verbatim>\<open>free\<close> of \<open>n\<close> blocks.\<close>

definition alloc :: "world \<Rightarrow> bool \<times> world" where
  "alloc w =
     (let ok = alloc_ok w (allocs w)
      in (ok, w\<lparr>allocs := allocs w + 1, live := live w + of_bool ok\<rparr>))"

definition free_blocks :: "nat \<Rightarrow> world \<Rightarrow> world" where
  "free_blocks n w = w\<lparr>live := live w - n\<rparr>"

record hostent =
  h_name :: string
  h_addrtype :: nat
  h_addr_list :: "u8 list list"

datatype h_errno = HOST_NOT_FOUND | TRY_AGAIN | NO_RECOVERY | NO_DATA | NETDB_OTHER

record resolver =
  gethostbyname2 :: "string \<Rightarrow> nat \<Rightarrow> h_errno + hostent"
  gethostbyname :: "bool \<Rightarrow> string \<Rightarrow> h_errno + hostent"
  gethostbyaddr :: "u8 list \<Rightarrow> nat \<Rightarrow> string option"
  getservbyname :: "string \<Rightarrow> string \<Rightarrow> u16 option"
  getservbyport :: "u16 \<Rightarrow> string option \<Rightarrow> string option"
  uname :: "string option"
  byte_order :: bool
  stack :: "u8 list"

section \<open>\<^verbatim>\<open>freeaddrinfo.c\<close> and \<^verbatim>\<open>gai_strerror.c\<close>\<close>

definition blocks :: "addrinfo \<Rightarrow> nat" where
  "blocks ai = of_bool (ai_addr ai \<noteq> None) + of_bool (ai_canonname ai \<noteq> None) + 1"

fun freeaddrinfo :: "addrinfo list \<Rightarrow> world \<Rightarrow> world" where
  "freeaddrinfo [] w = w"
| "freeaddrinfo (ai # rest) w = freeaddrinfo rest (free_blocks (blocks ai) w)"

definition gai_strerror :: "nat \<Rightarrow> string" where
  "gai_strerror err =
     (if err = EAI_ADDRFAMILY then ''address family for host not supported''
      else if err = EAI_AGAIN then ''temporary failure in name resolution''
      else if err = EAI_BADFLAGS then ''invalid flags value''
      else if err = EAI_FAIL then ''non-recoverable failure in name resolution''
      else if err = EAI_FAMILY then ''address family not supported''
      else if err = EAI_MEMORY then ''memory allocation failure''
      else if err = EAI_NODATA then ''no address associated with host''
      else if err = EAI_NONAME then ''host nor service provided, or not known''
      else if err = EAI_SERVICE then ''service not supported for socket type''
      else if err = EAI_SOCKTYPE then ''socket type not supported''
      else if err = EAI_SYSTEM then ''system error''
      else ''unknown getaddrinfo() error'')"

section \<open>\<^verbatim>\<open>ga_aistruct.c\<close>\<close>

text \<open>The address a structure is made from: bytes, or the path of a Unix domain socket.\<close>

datatype ga_addr = Raw "u8 list" | Path string

definition sun_path_size :: nat where
  "sun_path_size = 108"

definition new_ai :: "addrinfo \<Rightarrow> nat \<Rightarrow> addrinfo" where
  "new_ai hints family =
     \<lparr>ai_flags = (if ai_socktype hints = 0 then AI_CLONE else 0), ai_family = family,
      ai_socktype = ai_socktype hints, ai_protocol = ai_protocol hints, ai_addrlen = 0,
      ai_canonname = None, ai_addr = None\<rparr>"

text \<open>The socket address structure of each family, without its port.\<close>

definition ga_sockaddr :: "ga_addr \<Rightarrow> nat \<Rightarrow> (sockaddr \<times> nat) option" where
  "ga_sockaddr addr family =
     (case addr of
        Raw b \<Rightarrow>
          if family = AF_INET
          then map_option (\<lambda>a. (SA_in \<lparr>sin_port = 0, sin_addr = a\<rparr>, 16)) (bytes_at b 0 4)
          else if family = AF_INET6
          then map_option (\<lambda>a. (SA_in6 \<lparr>sin6_port = 0, sin6_flowinfo = 0, sin6_addr = a, sin6_scope_id = 0\<rparr>, 28))
                 (bytes_at b 0 16)
          else None
      | Path p \<Rightarrow>
          if family = AF_UNIX
          then map_option (\<lambda>s. (SA_un \<lparr>sun_path = s\<rparr>, 110)) (strcpy (replicate sun_path_size CHR 0x00) p)
          else None)"

definition ga_aistruct ::
  "addrinfo list \<Rightarrow> addrinfo \<Rightarrow> ga_addr \<Rightarrow> nat \<Rightarrow> world \<Rightarrow> (nat \<times> addrinfo list \<times> world) option" where
  "ga_aistruct lst hints addr family w =
     (let (ok, w) = alloc w in
      if \<not> ok then Some (EAI_MEMORY, lst, w)
      else
        (let ai = new_ai hints family in
         if family \<notin> {AF_INET, AF_INET6, AF_UNIX} then Some (0, lst @ [ai], w)
         else if family = AF_UNIX \<and> (case addr of Path p \<Rightarrow> length p \<ge> sun_path_size | Raw b \<Rightarrow> False)
         then Some (EAI_SERVICE, lst @ [ai], w)
         else
           (let (ok, w) = alloc w in
            if \<not> ok then Some (EAI_MEMORY, lst @ [ai], w)
            else do {
              (sa, len) \<leftarrow> ga_sockaddr addr family;
              let w = (case addr of
                         Path p \<Rightarrow> if set_flags (ai_flags hints) AI_PASSIVE then w\<lparr>unlinked := unlinked w @ [p]\<rparr> else w
                       | Raw b \<Rightarrow> w);
              Some (0, lst @ [ai\<lparr>ai_addr := Some sa, ai_addrlen := len\<rparr>], w)
            })))"

section \<open>\<^verbatim>\<open>ga_clone.c\<close>\<close>

text \<open>
  The clone is linked behind the structure. The list in the result is what is inserted there: with a
  failed second allocation that is a structure without an address.
\<close>

definition ga_clone :: "addrinfo \<Rightarrow> world \<Rightarrow> (bool \<times> addrinfo list \<times> world) option" where
  "ga_clone ai w =
     (let (ok, w) = alloc w in
      if \<not> ok then Some (False, [], w)
      else
        (let new = ai\<lparr>ai_flags := 0, ai_canonname := None, ai_addr := None\<rparr>;
             (ok, w) = alloc w in
         if \<not> ok then Some (False, [new], w)
         else do {
           sa \<leftarrow> ai_addr ai;
           Some (True, [new\<lparr>ai_addr := Some sa\<rparr>], w)
         }))"

section \<open>\<^verbatim>\<open>ga_echeck.c\<close>\<close>

definition empty_name :: "string option \<Rightarrow> bool" where
  "empty_name s \<longleftrightarrow> s = None \<or> s = Some []"

definition ga_echeck :: "string option \<Rightarrow> string option \<Rightarrow> u32 \<Rightarrow> nat \<Rightarrow> nat \<Rightarrow> nat \<Rightarrow> nat" where
  "ga_echeck hostname servname flags family socktype protocol =
     (if set_flags flags (NOT (AI_PASSIVE OR AI_CANONNAME)) then EAI_BADFLAGS
      else if empty_name hostname \<and> empty_name servname then EAI_NONAME
      else if family = AF_UNSPEC then 0
      else if family = AF_INET \<or> family = AF_INET6 then
        if socktype \<noteq> 0 \<and> socktype \<notin> {SOCK_STREAM, SOCK_DGRAM, SOCK_RAW} then EAI_SOCKTYPE else 0
      else if family = AF_UNIX then
        if socktype \<noteq> 0 \<and> socktype \<notin> {SOCK_STREAM, SOCK_DGRAM} then EAI_SOCKTYPE else 0
      else EAI_FAMILY)"

section \<open>\<^verbatim>\<open>ga_nsearch.c\<close>\<close>

type_synonym search = "(string \<times> nat) list"

definition search_for :: "nat \<Rightarrow> string \<Rightarrow> string \<Rightarrow> search" where
  "search_for family host4 host6 =
     (if family = AF_INET then [(host4, AF_INET)]
      else if family = AF_INET6 then [(host6, AF_INET6)]
      else if family = AF_UNSPEC then [(host6, AF_INET6), (host4, AF_INET)]
      else [])"

definition ga_nsearch :: "string option \<Rightarrow> addrinfo \<Rightarrow> search outcome" where
  "ga_nsearch hostname hints =
     (let search =
        (if empty_name hostname then
           if set_flags (ai_flags hints) AI_PASSIVE then search_for (ai_family hints) ''0.0.0.0'' ''0::0''
           else search_for (ai_family hints) ''localhost'' ''0::1''
         else search_for (ai_family hints) (the hostname) (the hostname))
      in if length search < 1 \<or> length search > 2 then Exits ''nsearch'' else Ret search)"

section \<open>\<^verbatim>\<open>ga_port.c\<close>\<close>

text \<open>The part behind the test of the flags: socket type and port. \<^term>\<open>None\<close> when \<^verbatim>\<open>ai_addr\<close> is not of the family.\<close>

definition fill_port :: "u16 \<Rightarrow> nat \<Rightarrow> addrinfo \<Rightarrow> (nat \<times> addrinfo) option" where
  "fill_port port socktype ai =
     (let ai = ai\<lparr>ai_socktype := socktype\<rparr> in
      if ai_family ai = AF_INET then
        (case ai_addr ai of
           Some (SA_in a) \<Rightarrow> Some (1, ai\<lparr>ai_addr := Some (SA_in (a\<lparr>sin_port := port\<rparr>))\<rparr>)
         | _ \<Rightarrow> None)
      else if ai_family ai = AF_INET6 then
        (case ai_addr ai of
           Some (SA_in6 a) \<Rightarrow> Some (1, ai\<lparr>ai_addr := Some (SA_in6 (a\<lparr>sin6_port := port\<rparr>))\<rparr>)
         | _ \<Rightarrow> None)
      else Some (0, ai))"

fun ga_port :: "addrinfo list \<Rightarrow> u16 \<Rightarrow> nat \<Rightarrow> world \<Rightarrow> (nat option \<times> addrinfo list \<times> world) option" where
  "ga_port [] port socktype w = Some (Some 0, [], w)"
| "ga_port (ai # rest) port socktype w =
     (if set_flags (ai_flags ai) AI_CLONE then
        if ai_socktype ai \<noteq> 0 then do {
          (ok, new, w) \<leftarrow> ga_clone ai w;
          if \<not> ok then Some (None, ai # new @ rest, w)
          else do {
            (n, filled) \<leftarrow> fill_port port socktype (hd new);
            (nfound, rest, w) \<leftarrow> ga_port rest port socktype w;
            Some (map_option ((+) n) nfound, ai # filled # rest, w)
          }
        }
        else do {
          (n, filled) \<leftarrow> fill_port port socktype ai;
          (nfound, rest, w) \<leftarrow> ga_port rest port socktype w;
          Some (map_option ((+) n) nfound, filled # rest, w)
        }
      else if ai_socktype ai \<noteq> socktype then do {
        (nfound, rest, w) \<leftarrow> ga_port rest port socktype w;
        Some (nfound, ai # rest, w)
      }
      else do {
        (n, filled) \<leftarrow> fill_port port socktype ai;
        (nfound, rest, w) \<leftarrow> ga_port rest port socktype w;
        Some (map_option ((+) n) nfound, filled # rest, w)
      })"

section \<open>\<^verbatim>\<open>ga_serv.c\<close>\<close>

definition isdigit :: "char \<Rightarrow> bool" where
  "isdigit c \<longleftrightarrow> c \<in> set ''0123456789''"

definition isxdigit :: "char \<Rightarrow> bool" where
  "isxdigit c \<longleftrightarrow> c \<in> set ''0123456789abcdefABCDEF''"

definition first_is :: "(char \<Rightarrow> bool) \<Rightarrow> string \<Rightarrow> bool" where
  "first_is P s \<longleftrightarrow> (case s of [] \<Rightarrow> False | c # _ \<Rightarrow> P c)"

text \<open>\<^verbatim>\<open>atoi\<close> of a string that starts with a digit; a value outside \<^verbatim>\<open>int\<close> is undefined.\<close>

definition atoi :: "string \<Rightarrow> nat option" where
  "atoi s =
     (let v = digits_value 10 ''0123456789'' 0 (takeWhile isdigit s)
      in if v < 2147483648 then Some v else None)"

text \<open>One call of \<^verbatim>\<open>ga_port\<close> and the addition to \<^verbatim>\<open>nfound\<close>; \<^term>\<open>Inl\<close> is the early return of \<^verbatim>\<open>EAI_MEMORY\<close>.\<close>

definition serv_port ::
  "u16 \<Rightarrow> nat \<Rightarrow> nat \<times> addrinfo list \<times> world \<Rightarrow> ((addrinfo list \<times> world) + (nat \<times> addrinfo list \<times> world)) option" where
  "serv_port port socktype st =
     (case st of (nfound, lst, w) \<Rightarrow> do {
        (rc, lst, w) \<leftarrow> ga_port lst port socktype w;
        Some (case rc of None \<Rightarrow> Inl (lst, w) | Some n \<Rightarrow> Inr (nfound + n, lst, w))
      })"

text \<open>The calls in order; the first failure ends them.\<close>

fun serv_ports ::
  "(u16 \<times> nat) list \<Rightarrow> nat \<times> addrinfo list \<times> world \<Rightarrow> ((addrinfo list \<times> world) + (nat \<times> addrinfo list \<times> world)) option" where
  "serv_ports [] st = Some (Inr st)"
| "serv_ports ((port, socktype) # calls) st = do {
     r \<leftarrow> serv_port port socktype st;
     case r of Inl x \<Rightarrow> Some (Inl x) | Inr st \<Rightarrow> serv_ports calls st
   }"

text \<open>
  Which calls are made: for a number one or two with this port, for a name one for each protocol that
  is wanted and has the service.
\<close>

definition serv_calls :: "resolver \<Rightarrow> addrinfo \<Rightarrow> string \<Rightarrow> (u16 \<times> nat) list option" where
  "serv_calls r hints serv =
     (if first_is isdigit serv then do {
        n \<leftarrow> atoi serv;
        let port = htons (byte_order r) n;
        Some (if ai_socktype hints \<noteq> 0 then [(port, ai_socktype hints)]
              else [(port, SOCK_STREAM), (port, SOCK_DGRAM)])
      }
      else Some
        ((if ai_socktype hints = 0 \<or> ai_socktype hints = SOCK_STREAM then
            (case getservbyname r serv ''tcp'' of None \<Rightarrow> [] | Some p \<Rightarrow> [(p, SOCK_STREAM)])
          else []) @
         (if ai_socktype hints = 0 \<or> ai_socktype hints = SOCK_DGRAM then
            (case getservbyname r serv ''udp'' of None \<Rightarrow> [] | Some p \<Rightarrow> [(p, SOCK_DGRAM)])
          else [])))"

definition ga_serv ::
  "resolver \<Rightarrow> addrinfo list \<Rightarrow> addrinfo \<Rightarrow> string \<Rightarrow> world \<Rightarrow> (nat \<times> addrinfo list \<times> world) option" where
  "ga_serv r lst hints serv w = do {
     calls \<leftarrow> serv_calls r hints serv;
     res \<leftarrow> serv_ports calls (0, lst, w);
     Some (case res of
             Inl (lst, w) \<Rightarrow> (EAI_MEMORY, lst, w)
           | Inr (nfound, lst, w) \<Rightarrow>
               (if nfound = 0 then if ai_socktype hints = 0 then EAI_NONAME else EAI_SERVICE else 0, lst, w))
   }"

section \<open>\<^verbatim>\<open>ga_unix.c\<close>\<close>

text \<open>The result is the code, the list stored through \<^verbatim>\<open>result\<close> if any, and the world.\<close>

definition ga_unix ::
  "resolver \<Rightarrow> string \<Rightarrow> addrinfo \<Rightarrow> world \<Rightarrow> (nat \<times> addrinfo list option \<times> world) option" where
  "ga_unix r path hints w =
     (if ai_family hints \<noteq> AF_UNSPEC \<and> ai_family hints \<noteq> AF_UNIX then Some (EAI_ADDRFAMILY, None, w)
      else do {
        (rc, lst, hints, w) \<leftarrow>
          (if ai_socktype hints = 0 then do {
             (rc, lst, w) \<leftarrow> ga_aistruct [] (hints\<lparr>ai_socktype := SOCK_STREAM\<rparr>) (Path path) AF_UNIX w;
             Some (rc, lst, hints\<lparr>ai_socktype := SOCK_DGRAM\<rparr>, w)
           }
           else Some (0, [], hints, w));
        if rc \<noteq> 0 then Some (rc, None, w)
        else do {
          (rc, lst, w) \<leftarrow> ga_aistruct lst hints (Path path) AF_UNIX w;
          if rc \<noteq> 0 then Some (rc, None, w)
          else if set_flags (ai_flags hints) AI_CANONNAME then
            (case uname r of
               None \<Rightarrow> Some (EAI_SYSTEM, None, w)
             | Some node \<Rightarrow>
                 (let (ok, w) = alloc w in
                  if \<not> ok then Some (EAI_MEMORY, None, w)
                  else
                    (case lst of
                       [] \<Rightarrow> None
                     | ai # rest \<Rightarrow> Some (0, Some (ai\<lparr>ai_canonname := Some node\<rparr> # rest), w))))
          else Some (0, Some lst, w)
        }
      })"

section \<open>\<^verbatim>\<open>getaddrinfo.c\<close>\<close>

text \<open>An address string of one of the families, as the two tests of the loop see it.\<close>

definition numeric4 :: "resolver \<Rightarrow> string \<Rightarrow> u8 list option option" where
  "numeric4 r host =
     (if first_is isdigit host then do {
        (rc, a) \<leftarrow> inet_pton (take 4 (stack r)) AF_INET host (replicate 4 0);
        Some (if rc = 1 then Some a else None)
      }
      else Some None)"

definition numeric6 :: "resolver \<Rightarrow> string \<Rightarrow> u8 list option option" where
  "numeric6 r host =
     (if first_is (\<lambda>c. isxdigit c \<or> c = CHR '':'') host \<and> strchr host CHR '':'' \<noteq> None then do {
        (rc, a) \<leftarrow> inet_pton (take 4 (stack r)) AF_INET6 host (replicate 16 0);
        Some (if rc = 1 then Some a else None)
      }
      else Some None)"

text \<open>An address string: used for its own family, an error if another one is wanted, skipped otherwise.\<close>

definition take_numeric ::
  "addrinfo \<Rightarrow> nat \<Rightarrow> nat \<Rightarrow> u8 list \<Rightarrow> addrinfo list \<Rightarrow> world \<Rightarrow> (nat \<times> addrinfo list \<times> world) option" where
  "take_numeric hints family own a lst w =
     (if ai_family hints \<noteq> AF_UNSPEC \<and> ai_family hints \<noteq> own then Some (EAI_ADDRFAMILY, lst, w)
      else if family \<noteq> own then Some (0, lst, w)
      else ga_aistruct lst hints (Raw a) own w)"

fun add_addrs ::
  "addrinfo \<Rightarrow> nat \<Rightarrow> u8 list list \<Rightarrow> addrinfo list \<Rightarrow> world \<Rightarrow> (nat \<times> addrinfo list \<times> world) option" where
  "add_addrs hints family [] lst w = Some (0, lst, w)"
| "add_addrs hints family (a # addrs) lst w = do {
     (rc, lst, w) \<leftarrow> ga_aistruct lst hints (Raw a) family w;
     if rc \<noteq> 0 then Some (rc, lst, w) else add_addrs hints family addrs lst w
   }"

text \<open>The lookup in the resolver: its option word is set for \<^verbatim>\<open>gethostbyname\<close> and cleared for \<^verbatim>\<open>gethostbyname2\<close>.\<close>

definition lookup_host :: "resolver \<Rightarrow> nat \<Rightarrow> string \<Rightarrow> nat \<Rightarrow> world \<Rightarrow> (h_errno + hostent) \<times> world" where
  "lookup_host r nsearch host family w =
     (if nsearch = 2 then (gethostbyname2 r host family, w\<lparr>res_inet6 := False\<rparr>)
      else
        (let w = w\<lparr>res_inet6 := (family = AF_INET6)\<rparr>
         in (gethostbyname r (res_inet6 w) host, w)))"

fun h_error :: "h_errno \<Rightarrow> nat" where
  "h_error HOST_NOT_FOUND = EAI_NONAME"
| "h_error TRY_AGAIN = EAI_AGAIN"
| "h_error NO_RECOVERY = EAI_FAIL"
| "h_error NO_DATA = EAI_NODATA"
| "h_error NETDB_OTHER = EAI_NONAME"

text \<open>What a lookup found: the family check, the canonical name the first time, one structure per address.\<close>

definition use_hostent ::
  "addrinfo \<Rightarrow> string option \<Rightarrow> hostent \<Rightarrow> addrinfo list \<Rightarrow> string option \<Rightarrow> world \<Rightarrow>
   (nat \<times> addrinfo list \<times> string option \<times> world) option" where
  "use_hostent hints hostname h lst canon w =
     (if ai_family hints \<noteq> AF_UNSPEC \<and> ai_family hints \<noteq> h_addrtype h then Some (EAI_ADDRFAMILY, lst, canon, w)
      else
        (let dup = (\<not> empty_name hostname \<and> set_flags (ai_flags hints) AI_CANONNAME \<and> canon = None);
             (ok, w) = (if dup then alloc w else (True, w)) in
         if \<not> ok then Some (EAI_MEMORY, lst, canon, w)
         else do {
           let canon = (if dup then Some (h_name h) else canon);
           (rc, lst, w) \<leftarrow> add_addrs hints (h_addrtype h) (h_addr_list h) lst w;
           Some (rc, lst, canon, w)
         }))"

text \<open>The loop over the searches; \<open>nsearch\<close> is how many there were.\<close>

fun ga_search ::
  "resolver \<Rightarrow> addrinfo \<Rightarrow> string option \<Rightarrow> nat \<Rightarrow> search \<Rightarrow> addrinfo list \<Rightarrow> string option \<Rightarrow> world \<Rightarrow>
   (nat \<times> addrinfo list \<times> string option \<times> world) option" where
  "ga_search r hints hostname nsearch [] lst canon w = Some (0, lst, canon, w)"
| "ga_search r hints hostname nsearch ((host, family) # more_search) lst canon w = do {
     n4 \<leftarrow> numeric4 r host;
     case n4 of
       Some a \<Rightarrow> do {
         (rc, lst, w) \<leftarrow> take_numeric hints family AF_INET a lst w;
         if rc \<noteq> 0 then Some (rc, lst, canon, w)
         else ga_search r hints hostname nsearch more_search lst canon w
       }
     | None \<Rightarrow> do {
         n6 \<leftarrow> numeric6 r host;
         case n6 of
           Some a \<Rightarrow> do {
             (rc, lst, w) \<leftarrow> take_numeric hints family AF_INET6 a lst w;
             if rc \<noteq> 0 then Some (rc, lst, canon, w)
             else ga_search r hints hostname nsearch more_search lst canon w
           }
         | None \<Rightarrow>
             (case lookup_host r nsearch host family w of
                (Inl e, w) \<Rightarrow>
                  if nsearch = 2 then ga_search r hints hostname nsearch more_search lst canon w
                  else Some (h_error e, lst, canon, w)
              | (Inr h, w) \<Rightarrow> do {
                  (rc, lst, canon, w) \<leftarrow> use_hostent hints hostname h lst canon w;
                  if rc \<noteq> 0 then Some (rc, lst, canon, w)
                  else ga_search r hints hostname nsearch more_search lst canon w
                })
       }
   }"

text \<open>From the end of the loop on: the canonical name, then the service.\<close>

definition ga_canon ::
  "addrinfo \<Rightarrow> string option \<Rightarrow> search \<Rightarrow> addrinfo list \<Rightarrow> string option \<Rightarrow> world \<Rightarrow> (nat \<times> addrinfo list \<times> world) option" where
  "ga_canon hints hostname search lst canon w =
     (if \<not> empty_name hostname \<and> set_flags (ai_flags hints) AI_CANONNAME then
        (case lst of
           [] \<Rightarrow> None
         | ai # rest \<Rightarrow>
             (case canon of
                Some c \<Rightarrow> Some (0, ai\<lparr>ai_canonname := Some c\<rparr> # rest, w)
              | None \<Rightarrow>
                  (let (ok, w) = alloc w in
                   if ok then Some (0, ai\<lparr>ai_canonname := Some (fst (hd search))\<rparr> # rest, w)
                   else Some (EAI_MEMORY, lst, w))))
      else Some (0, lst, w))"

text \<open>The label \<^verbatim>\<open>bad\<close> frees the list.\<close>

definition ga_bad ::
  "nat \<Rightarrow> addrinfo list \<Rightarrow> world \<Rightarrow> (nat \<times> addrinfo list option \<times> world) outcome option" where
  "ga_bad error lst w = Some (Ret (error, None, freeaddrinfo lst w))"

definition default_hints :: addrinfo where
  "default_hints = \<lparr>ai_flags = 0, ai_family = AF_UNSPEC, ai_socktype = 0, ai_protocol = 0, ai_addrlen = 0,
     ai_canonname = None, ai_addr = None\<rparr>"

definition getaddrinfo ::
  "resolver \<Rightarrow> string option \<Rightarrow> string option \<Rightarrow> addrinfo option \<Rightarrow> world \<Rightarrow>
   (nat \<times> addrinfo list option \<times> world) outcome option" where
  "getaddrinfo r hostname servname hintsp w =
     (let hints = (case hintsp of None \<Rightarrow> default_hints | Some h \<Rightarrow> h);
          rc = ga_echeck hostname servname (ai_flags hints) (ai_family hints) (ai_socktype hints) (ai_protocol hints) in
      if rc \<noteq> 0 then ga_bad rc [] w
      else if (hostname = Some ''/local'' \<or> hostname = Some ''/unix'')
              \<and> (case servname of Some s \<Rightarrow> first_is ((=) CHR ''/'') s | None \<Rightarrow> False)
      then do { res \<leftarrow> ga_unix r (the servname) hints w; Some (Ret res) }
      else
        (case ga_nsearch hostname hints of
           Ret search \<Rightarrow> do {
             (rc, lst, canon, w) \<leftarrow> ga_search r hints hostname (length search) search [] None w;
             if rc \<noteq> 0 then ga_bad rc lst w
             else if lst = [] then ga_bad EAI_NONAME lst w
             else do {
               (rc, lst, w) \<leftarrow> ga_canon hints hostname search lst canon w;
               if rc \<noteq> 0 then ga_bad rc lst w
               else if empty_name servname then Some (Ret (0, Some lst, w))
               else do {
                 (rc, lst, w) \<leftarrow> ga_serv r lst hints (the servname) w;
                 if rc \<noteq> 0 then ga_bad rc lst w else Some (Ret (0, Some lst, w))
               }
             }
           }
         | Exits m \<Rightarrow> Some (Exits m)
         | Blocks \<Rightarrow> Some Blocks))"

section \<open>\<^verbatim>\<open>getnameinfo.c\<close> and \<^verbatim>\<open>gn_ipv46.c\<close>\<close>

definition gn_host ::
  "resolver \<Rightarrow> string \<Rightarrow> nat \<Rightarrow> u8 list \<Rightarrow> nat \<Rightarrow> u32 \<Rightarrow> (nat \<times> string) option" where
  "gn_host r host hostlen a family flags =
     (let numeric = (do {
            res \<leftarrow> inet_ntop family a host hostlen;
            Some (case res of Inl e \<Rightarrow> (1, host) | Inr host \<Rightarrow> (0, host)) }) in
      if hostlen = 0 then Some (0, host)
      else if set_flags flags NI_NUMERICHOST then numeric
      else
        (case gethostbyaddr r a family of
           Some name \<Rightarrow>
             (let name = (if set_flags flags NI_NOFQDN then takeWhile (\<lambda>c. c \<noteq> CHR ''.'') name else name)
              in map_option (Pair 0) (snprintf host hostlen name))
         | None \<Rightarrow> if set_flags flags NI_NAMEREQD then Some (1, host) else numeric))"

definition gn_serv :: "resolver \<Rightarrow> string \<Rightarrow> nat \<Rightarrow> u16 \<Rightarrow> u32 \<Rightarrow> string option" where
  "gn_serv r serv servlen port flags =
     (let number = snprintf serv servlen (show_dec (ntohs (byte_order r) port)) in
      if servlen = 0 then Some serv
      else if set_flags flags NI_NUMERICSERV then number
      else
        (case getservbyport r port (if set_flags flags NI_DGRAM then Some ''udp'' else None) of
           Some name \<Rightarrow> snprintf serv servlen name
         | None \<Rightarrow> number))"

definition gn_ipv46 ::
  "resolver \<Rightarrow> string \<Rightarrow> nat \<Rightarrow> string \<Rightarrow> nat \<Rightarrow> u8 list \<Rightarrow> nat \<Rightarrow> u16 \<Rightarrow> u32 \<Rightarrow> (nat \<times> string \<times> string) option" where
  "gn_ipv46 r host hostlen serv servlen a family port flags = do {
     (rc, host) \<leftarrow> gn_host r host hostlen a family flags;
     if rc \<noteq> 0 then Some (rc, host, serv)
     else do {
       serv \<leftarrow> gn_serv r serv servlen port flags;
       Some (0, host, serv)
     }
   }"

definition getnameinfo ::
  "resolver \<Rightarrow> sockaddr \<Rightarrow> string \<Rightarrow> nat \<Rightarrow> string \<Rightarrow> nat \<Rightarrow> u32 \<Rightarrow> (nat \<times> string \<times> string) option" where
  "getnameinfo r sa host hostlen serv servlen flags =
     (case sa of
        SA_in a \<Rightarrow> gn_ipv46 r host hostlen serv servlen (sin_addr a) AF_INET (sin_port a) flags
      | SA_in6 a \<Rightarrow> gn_ipv46 r host hostlen serv servlen (sin6_addr a) AF_INET6 (sin6_port a) flags
      | SA_un a \<Rightarrow> do {
          host \<leftarrow> (if hostlen > 0 then snprintf host hostlen ''/local'' else Some host);
          serv \<leftarrow> (if servlen > 0 then do { p \<leftarrow> cstring (sun_path a); snprintf serv servlen p } else Some serv);
          Some (0, host, serv)
        }
      | _ \<Rightarrow> Some (1, host, serv))"

end
