(* ===== verification/Gai_Props.thy ===== *)
theory Gai_Props
  imports Gai
begin

text \<open>
  What \<^verbatim>\<open>libgai\<close> guarantees: memory is neither lost nor touched wrongly, the cloning of structures
  gives one per address and socket type, and addresses survive the way through \<^verbatim>\<open>getnameinfo\<close> and back.
\<close>

section \<open>Memory\<close>

definition total_blocks :: "addrinfo list \<Rightarrow> nat" where
  "total_blocks lst = sum_list (map blocks lst)"

lemma total_blocks_simps [simp]:
  "total_blocks [] = 0" "total_blocks (ai # lst) = blocks ai + total_blocks lst" "total_blocks (xs @ ys) = total_blocks xs + total_blocks ys"
  by (simp_all add: total_blocks_def)

text \<open>An operation on a list keeps the balance when the live blocks change with those of the list.\<close>

definition balanced :: "addrinfo list \<Rightarrow> world \<Rightarrow> addrinfo list \<Rightarrow> world \<Rightarrow> bool" where
  "balanced lst w lst' w' \<longleftrightarrow> live w' + total_blocks lst = live w + total_blocks lst'"

lemma balanced_refl [simp]: "balanced lst w lst w"
  by (simp add: balanced_def)

lemma balanced_trans: "balanced a w b w1 \<Longrightarrow> balanced b w1 c w2 \<Longrightarrow> balanced a w c w2"
  by (simp add: balanced_def)

lemma live_alloc: "alloc w = (ok, w') \<Longrightarrow> live w' = live w + of_bool ok"
  by (auto simp: alloc_def Let_def)

lemma live_freeaddrinfo: "total_blocks lst \<le> live w \<Longrightarrow> live (freeaddrinfo lst w) = live w - total_blocks lst"
  by (induction lst arbitrary: w) (simp_all add: free_blocks_def)

lemma ga_aistruct_balanced:
  assumes "ga_aistruct lst hints addr family w = Some (rc, lst', w')"
  shows "balanced lst w lst' w'"
proof -
  obtain ok w1 where a: "alloc w = (ok, w1)"
    by force
  obtain ok2 w2 where b: "alloc w1 = (ok2, w2)"
    by force
  show ?thesis
    using assms live_alloc [OF a] live_alloc [OF b]
    by (auto simp: ga_aistruct_def a b balanced_def blocks_def new_ai_def Let_def Option.bind_eq_Some_conv
        split: if_splits ga_addr.splits)
qed

lemma ga_clone_balanced:
  assumes "ga_clone ai w = Some (ok, new, w')"
  shows "live w' = live w + total_blocks new"
proof -
  obtain ok1 w1 where a: "alloc w = (ok1, w1)"
    by force
  obtain ok2 w2 where b: "alloc w1 = (ok2, w2)"
    by force
  show ?thesis
    using assms live_alloc [OF a] live_alloc [OF b]
    by (auto simp: ga_clone_def a b blocks_def Let_def Option.bind_eq_Some_conv split: if_splits)
qed

lemma ga_clone_new: "ga_clone ai w = Some (True, new, w') \<Longrightarrow>
  \<exists>sa. ai_addr ai = Some sa \<and> new = [ai\<lparr>ai_flags := 0, ai_canonname := None, ai_addr := Some sa\<rparr>]"
  by (auto simp: ga_clone_def Let_def Option.bind_eq_Some_conv split: if_splits prod.splits)

lemma fill_port_blocks: "fill_port port socktype ai = Some (n, ai') \<Longrightarrow> blocks ai' = blocks ai"
  by (auto simp: fill_port_def Let_def blocks_def split: if_splits option.splits sockaddr.splits)

lemma ga_port_cases [consumes 1, case_names clone_fails clone skip fill]:
  assumes "ga_port (ai # rest) port socktype w = Some (rc, lst', w')"
  obtains new where "set_flags (ai_flags ai) AI_CLONE" "ai_socktype ai \<noteq> 0" "ga_clone ai w = Some (False, new, w')"
      "lst' = ai # new @ rest" "rc = None"
  | sa n filled w1 rc1 rest' where "set_flags (ai_flags ai) AI_CLONE" "ai_socktype ai \<noteq> 0" "ai_addr ai = Some sa"
      "ga_clone ai w = Some (True, [ai\<lparr>ai_flags := 0, ai_canonname := None, ai_addr := Some sa\<rparr>], w1)"
      "fill_port port socktype (ai\<lparr>ai_flags := 0, ai_canonname := None, ai_addr := Some sa\<rparr>) = Some (n, filled)"
      "ga_port rest port socktype w1 = Some (rc1, rest', w')" "lst' = ai # filled # rest'" "rc = map_option ((+) n) rc1"
  | rest' where "\<not> set_flags (ai_flags ai) AI_CLONE" "ai_socktype ai \<noteq> socktype"
      "ga_port rest port socktype w = Some (rc, rest', w')" "lst' = ai # rest'"
  | n filled rc1 rest' where "fill_port port socktype ai = Some (n, filled)"
      "ga_port rest port socktype w = Some (rc1, rest', w')" "lst' = filled # rest'" "rc = map_option ((+) n) rc1"
proof (cases "set_flags (ai_flags ai) AI_CLONE")
  case True
  show ?thesis
  proof (cases "ai_socktype ai = 0")
    case False
    with assms True obtain ok new w1 where c: "ga_clone ai w = Some (ok, new, w1)"
      by (auto simp: Option.bind_eq_Some_conv)
    show ?thesis
    proof (cases ok)
      case ok: True
      obtain sa where sa: "ai_addr ai = Some sa" "new = [ai\<lparr>ai_flags := 0, ai_canonname := None, ai_addr := Some sa\<rparr>]"
        using ga_clone_new [of ai w new w1] c ok by auto
      obtain n filled rc1 rest' where f: "fill_port port socktype (hd new) = Some (n, filled)"
          "ga_port rest port socktype w1 = Some (rc1, rest', w')" "lst' = ai # filled # rest'" "rc = map_option ((+) n) rc1"
        using assms True False c ok by (auto simp: Option.bind_eq_Some_conv)
      show ?thesis
        using that(2) [OF True False sa(1)] c ok f unfolding sa(2) list.sel by auto
    qed (use assms True False c that(1) in auto)
  qed (use assms True that(4) in \<open>auto simp: Option.bind_eq_Some_conv\<close>)
next
  case False
  then show ?thesis
    using assms that(3,4) by (cases "ai_socktype ai = socktype") (auto simp: Option.bind_eq_Some_conv)
qed

lemma ga_port_balanced: "ga_port lst port socktype w = Some (rc, lst', w') \<Longrightarrow> balanced lst w lst' w'"
proof (induction lst arbitrary: rc lst' w w')
  case (Cons ai rest)
  from Cons.prems show ?case
  proof (cases rule: ga_port_cases)
    case (clone_fails new)
    then show ?thesis
      using ga_clone_balanced by (simp add: balanced_def)
  next
    case (clone sa n filled w1 rc1 rest')
    then show ?thesis
      using Cons.IH [OF clone(6)] ga_clone_balanced [OF clone(4)] fill_port_blocks [OF clone(5)]
      by (simp add: balanced_def)
  next
    case (skip rest')
    then show ?thesis
      using Cons.IH [OF skip(3)] by (simp add: balanced_def)
  next
    case (fill n filled rc1 rest')
    then show ?thesis
      using Cons.IH [OF fill(2)] fill_port_blocks [OF fill(1)] by (simp add: balanced_def)
  qed
qed simp

text \<open>The list and the world a sequence of calls leaves, failed or not.\<close>

definition serv_state :: "(addrinfo list \<times> world) + (nat \<times> addrinfo list \<times> world) \<Rightarrow> addrinfo list \<times> world" where
  "serv_state res = (case res of Inl st \<Rightarrow> st | Inr (n, st) \<Rightarrow> st)"

lemma serv_ports_step:
  assumes "serv_ports ((port, socktype) # calls) (n, lst, w) = Some res"
  obtains l1 w1 where "ga_port lst port socktype w = Some (None, l1, w1)" "res = Inl (l1, w1)"
  | m l1 w1 where "ga_port lst port socktype w = Some (Some m, l1, w1)" "serv_ports calls (n + m, l1, w1) = Some res"
proof -
  obtain rc l1 w1 where p: "ga_port lst port socktype w = Some (rc, l1, w1)"
    using assms by (auto simp: serv_port_def Option.bind_eq_Some_conv)
  then show ?thesis
    using assms that by (cases rc) (simp_all add: serv_port_def)
qed

lemma ga_port_grows: "ga_port lst port socktype w = Some (rc, lst', w') \<Longrightarrow> length lst \<le> length lst'"
proof (induction lst arbitrary: rc lst' w w')
  case (Cons ai rest)
  from Cons.prems show ?case
    by (cases rule: ga_port_cases) (use Cons.IH in fastforce)+
qed simp

lemma serv_ports_grows:
  "serv_ports calls (n, lst, w) = Some res \<Longrightarrow> length lst \<le> length (fst (serv_state res))"
proof (induction calls arbitrary: n lst w)
  case (Cons c calls)
  obtain port socktype where c: "c = (port, socktype)"
    by force
  from Cons.prems [unfolded c] show ?case
    by (cases rule: serv_ports_step) (use ga_port_grows Cons.IH le_trans in \<open>fastforce simp: serv_state_def\<close>)+
qed (auto simp: serv_state_def)

lemma serv_ports_balanced:
  "serv_ports calls (n, lst, w) = Some res \<Longrightarrow> balanced lst w (fst (serv_state res)) (snd (serv_state res))"
proof (induction calls arbitrary: n lst w)
  case Nil
  then show ?case
    by (auto simp: serv_state_def)
next
  case (Cons c calls)
  obtain port socktype where c: "c = (port, socktype)"
    by force
  from Cons.prems [unfolded c] show ?case
  proof (cases rule: serv_ports_step)
    case (1 l1 w1)
    then show ?thesis
      using ga_port_balanced by (simp add: serv_state_def)
  next
    case (2 m l1 w1)
    then show ?thesis
      using ga_port_balanced Cons.IH balanced_trans by blast
  qed
qed

lemma ga_serv_balanced:
  assumes "ga_serv r lst hints serv w = Some (rc, lst', w')"
  shows "balanced lst w lst' w'"
proof -
  obtain calls res where "serv_ports calls (0, lst, w) = Some res"
      and "(case res of
             Inl (lst, w) \<Rightarrow> (EAI_MEMORY, lst, w)
           | Inr (nfound, lst, w) \<Rightarrow>
               (if nfound = 0 then if ai_socktype hints = 0 then EAI_NONAME else EAI_SERVICE else 0, lst, w)) = (rc, lst', w')"
    using assms by (auto simp: ga_serv_def Option.bind_eq_Some_conv)
  moreover from this have "serv_state res = (lst', w')"
    by (cases res) (auto simp: serv_state_def)
  ultimately show ?thesis
    using serv_ports_balanced by fastforce
qed

lemma add_addrs_balanced: "add_addrs hints family addrs lst w = Some (rc, lst', w') \<Longrightarrow> balanced lst w lst' w'"
proof (induction addrs arbitrary: lst w)
  case (Cons a addrs)
  obtain rc1 l1 w1 where s: "ga_aistruct lst hints (Raw a) family w = Some (rc1, l1, w1)"
    using Cons.prems by (auto simp: Option.bind_eq_Some_conv)
  have "balanced l1 w1 lst' w'"
    using Cons s by (cases "rc1 = 0") auto
  then show ?case
    using ga_aistruct_balanced [OF s] balanced_trans by blast
qed simp

text \<open>The canonical name is a block of its own until it is attached to the list.\<close>

definition canon_block :: "string option \<Rightarrow> nat" where
  "canon_block canon = of_bool (canon \<noteq> None)"

lemma take_numeric_balanced: "take_numeric hints family own a lst w = Some (rc, lst', w') \<Longrightarrow> balanced lst w lst' w'"
  using ga_aistruct_balanced by (auto simp: take_numeric_def split: if_splits)

lemma use_hostent_balanced:
  assumes "use_hostent hints hostname h lst canon w = Some (rc, lst', canon', w')"
  shows "live w' + total_blocks lst + canon_block canon = live w + total_blocks lst' + canon_block canon'"
proof -
  obtain ok w1 where a: "alloc w = (ok, w1)"
    by force
  show ?thesis
    using assms live_alloc [OF a] add_addrs_balanced
    by (fastforce simp: use_hostent_def a Let_def canon_block_def balanced_def Option.bind_eq_Some_conv
        split: if_splits)
qed

section \<open>The loop over the searches\<close>

definition known_host :: "resolver \<Rightarrow> hostent \<Rightarrow> bool" where
  "known_host r h \<longleftrightarrow>
     (\<exists>host family. gethostbyname2 r host family = Inr h) \<or> (\<exists>b host. gethostbyname r b host = Inr h)"

lemma numeric4_eq:
  assumes "4 \<le> length (stack r)"
  shows "numeric4 r host = Some (if first_is isdigit host then dotted_quad host else None)"
  using assms dotted_quad_length [of host]
  by (auto simp: numeric4_def inet_pton_def inet_pton4_eq memcpy_at_0 split: option.splits)

lemma numeric4_length: "4 \<le> length (stack r) \<Longrightarrow> numeric4 r host = Some (Some a) \<Longrightarrow> length a = 4"
  using dotted_quad_length by (auto simp: numeric4_eq split: if_splits)

lemma numeric6_total:
  assumes "4 \<le> length (stack r)"
  shows "\<exists>n. numeric6 r host = Some n \<and> (\<forall>a. n = Some a \<longrightarrow> length a = 16)"
  using inet_pton6_total [of "take 4 (stack r)" "replicate 16 0" host] assms
  by (auto simp: numeric6_def inet_pton_def family_defs)

lemma numeric6_length: "4 \<le> length (stack r) \<Longrightarrow> numeric6 r host = Some (Some a) \<Longrightarrow> length a = 16"
  using numeric6_total [of r host] by auto

text \<open>
  A rule for the loop: \<open>I rc lst canon w\<close> holds after it if it holds before it with code 0 and each
  of the three ways to extend the list keeps it.
\<close>

lemma ga_search_invariant:
  assumes numeric: "\<And>family own a lst canon w rc l1 w1. own \<in> {AF_INET, AF_INET6} \<Longrightarrow> length a = (if own = AF_INET then 4 else 16) \<Longrightarrow>
      take_numeric hints family own a lst w = Some (rc, l1, w1) \<Longrightarrow> I 0 lst canon w \<Longrightarrow> I rc l1 canon w1"
    and options: "\<And>lst canon w b. I 0 lst canon w \<Longrightarrow> I 0 lst canon (w\<lparr>res_inet6 := b\<rparr>)"
    and fail: "\<And>lst canon w rc. I 0 lst canon w \<Longrightarrow> I (h_error rc) lst canon w"
    and host: "\<And>h lst canon w rc l1 c1 w1. known_host r h \<Longrightarrow> use_hostent hints hostname h lst canon w = Some (rc, l1, c1, w1) \<Longrightarrow>
      I 0 lst canon w \<Longrightarrow> I rc l1 c1 w1"
    and stack: "4 \<le> length (stack r)"
  shows "ga_search r hints hostname nsearch search lst canon w = Some (rc, lst', canon', w') \<Longrightarrow>
    I 0 lst canon w \<Longrightarrow> I rc lst' canon' w'"
proof (induction search arbitrary: lst canon w)
  case (Cons s search)
  obtain host family where s: "s = (host, family)"
    by force
  have step: "I rc lst' canon' w'"
    if "I rc1 l1 c1 w1"
      and "(if rc1 \<noteq> 0 then Some (rc1, l1, c1, w1) else ga_search r hints hostname nsearch search l1 c1 w1)
        = Some (rc, lst', canon', w')" for rc1 l1 c1 w1
    using that Cons.IH [of l1 c1 w1] by (cases "rc1 = 0") auto
  obtain n4 where n4: "numeric4 r host = Some n4"
    using Cons.prems s by (auto simp: Option.bind_eq_Some_conv)
  show ?case
  proof (cases n4)
    case (Some a)
    then obtain rc1 l1 w1 where t: "take_numeric hints family AF_INET a lst w = Some (rc1, l1, w1)"
      using Cons.prems s n4 by (auto simp: Option.bind_eq_Some_conv)
    have "I rc1 l1 canon w1"
      using numeric [OF _ _ t Cons.prems(2)] numeric4_length [OF stack] n4 Some by simp
    then show ?thesis
      using step [of rc1 l1 canon w1] t Cons.prems(1) s n4 Some by simp
  next
    case None
    then obtain n6 where n6: "numeric6 r host = Some n6"
      using Cons.prems s n4 by (auto simp: Option.bind_eq_Some_conv)
    show ?thesis
    proof (cases n6)
      case a: (Some a)
      then obtain rc1 l1 w1 where t: "take_numeric hints family AF_INET6 a lst w = Some (rc1, l1, w1)"
        using Cons.prems s n4 None n6 by (auto simp: Option.bind_eq_Some_conv)
      have "I rc1 l1 canon w1"
        using numeric [OF _ _ t Cons.prems(2)] numeric6_length [OF stack] n6 a by (simp add: family_defs)
      then show ?thesis
        using step [of rc1 l1 canon w1] t Cons.prems(1) s n4 n6 None a by simp
    next
      case none: None
      obtain ans w1 where l: "lookup_host r nsearch host family w = (ans, w1)"
        by force
      have inv: "I 0 lst canon w1"
        using l options [OF Cons.prems(2)] by (auto simp: lookup_host_def Let_def split: if_splits)
      show ?thesis
      proof (cases ans)
        case (Inl e)
        then show ?thesis
          using Cons.prems s n4 None n6 none l inv Cons.IH [of lst canon w1] fail [OF inv, of e]
          by (cases "nsearch = 2") auto
      next
        case (Inr h)
        then have h: "known_host r h"
          using l by (auto simp: lookup_host_def known_host_def Let_def split: if_splits)
        obtain rc1 l1 c1 w2 where u: "use_hostent hints hostname h lst canon w1 = Some (rc1, l1, c1, w2)"
          using Cons.prems s n4 None n6 none l Inr by (auto simp: Option.bind_eq_Some_conv)
        show ?thesis
          using step [of rc1 l1 c1 w2] host [OF h u inv] u Cons.prems(1) s n4 None n6 none l Inr by simp
      qed
    qed
  qed
qed simp

text \<open>Without \<^verbatim>\<open>AI_CANONNAME\<close> no canonical name is made.\<close>

definition wants_canon :: "addrinfo \<Rightarrow> string option \<Rightarrow> bool" where
  "wants_canon hints hostname \<longleftrightarrow> \<not> empty_name hostname \<and> set_flags (ai_flags hints) AI_CANONNAME"

lemma use_hostent_no_canon:
  "\<not> wants_canon hints hostname \<Longrightarrow>
    use_hostent hints hostname h lst None w = Some (rc, lst', canon', w') \<Longrightarrow> canon' = None"
  unfolding wants_canon_def
  by (auto simp: use_hostent_def Let_def Option.bind_eq_Some_conv split: if_splits)

lemma ga_search_balanced:
  assumes "4 \<le> length (stack r)"
    and "ga_search r hints hostname nsearch search [] None w = Some (rc, lst', canon', w')"
  shows "live w' = live w + total_blocks lst' + canon_block canon'"
    and "canon' \<noteq> None \<longrightarrow> wants_canon hints hostname"
proof -
  let ?I = "\<lambda>rc l c v. live v = live w + total_blocks l + canon_block c"
  show "?I rc lst' canon' w'"
  proof (rule ga_search_invariant [where I = ?I, OF _ _ _ _ assms])
    fix family own a lst canon v rc l1 v1
    assume "take_numeric hints family own a lst v = Some (rc, l1, v1)" and "?I 0 lst canon v"
    then show "?I rc l1 canon v1"
      using take_numeric_balanced by (fastforce simp: balanced_def)
  next
    fix h lst canon v rc l1 c1 v1
    assume "use_hostent hints hostname h lst canon v = Some (rc, l1, c1, v1)" and "?I 0 lst canon v"
    then show "?I rc l1 c1 v1"
      using use_hostent_balanced by fastforce
  qed (simp_all add: canon_block_def)
  have "canon' = None" if "\<not> wants_canon hints hostname"
    using use_hostent_no_canon [OF that]
    by (intro ga_search_invariant [where I = "\<lambda>rc l c v. c = None", OF _ _ _ _ assms]) auto
  then show "canon' \<noteq> None \<longrightarrow> wants_canon hints hostname"
    by blast
qed

section \<open>The structures of the list\<close>

text \<open>A complete structure: its address is of its family and has the size of that family.\<close>

definition entry_ok :: "addrinfo \<Rightarrow> bool" where
  "entry_ok ai \<longleftrightarrow>
     (case ai_addr ai of
        Some (SA_in a) \<Rightarrow> ai_family ai = AF_INET \<and> length (sin_addr a) = 4
      | Some (SA_in6 a) \<Rightarrow> ai_family ai = AF_INET6 \<and> length (sin6_addr a) = 16
      | _ \<Rightarrow> False)"

lemma entry_ok_cases:
  assumes "entry_ok ai"
  obtains a where "ai_family ai = AF_INET" "ai_addr ai = Some (SA_in a)" "length (sin_addr a) = 4"
  | a where "ai_family ai = AF_INET6" "ai_addr ai = Some (SA_in6 a)" "length (sin6_addr a) = 16"
  using assms by (auto simp: entry_ok_def split: option.splits sockaddr.splits)

definition right_size :: "nat \<Rightarrow> u8 list \<Rightarrow> bool" where
  "right_size family a \<longleftrightarrow> family = AF_INET \<and> length a = 4 \<or> family = AF_INET6 \<and> length a = 16"

text \<open>The structure \<^verbatim>\<open>ga_aistruct\<close> makes for an address.\<close>

definition entry :: "addrinfo \<Rightarrow> nat \<Rightarrow> u8 list \<Rightarrow> addrinfo" where
  "entry hints family a =
     (case ga_sockaddr (Raw a) family of
        Some (sa, len) \<Rightarrow> (new_ai hints family)\<lparr>ai_addr := Some sa, ai_addrlen := len\<rparr>
      | None \<Rightarrow> new_ai hints family)"

definition fresh :: "addrinfo \<Rightarrow> addrinfo \<Rightarrow> bool" where
  "fresh hints ai \<longleftrightarrow> (\<exists>family a. right_size family a \<and> ai = entry hints family a)"

lemma ga_sockaddr_right:
  "right_size family a \<Longrightarrow> \<exists>sa len. ga_sockaddr (Raw a) family = Some (sa, len)"
  by (auto simp: right_size_def ga_sockaddr_def bytes_at_def family_defs)

lemma fresh_entry_ok: "fresh hints ai \<Longrightarrow> entry_ok ai \<and> ai_canonname ai = None"
  by (auto simp: fresh_def right_size_def entry_def ga_sockaddr_def bytes_at_def entry_ok_def new_ai_def family_defs)

lemma ga_aistruct_right:
  assumes "right_size family a"
  shows "\<exists>rc l1 w1. ga_aistruct lst hints (Raw a) family w = Some (rc, l1, w1) \<and> (rc = 0 \<longrightarrow> l1 = lst @ [entry hints family a])
    \<and> ((\<forall>i. alloc_ok w i) \<longrightarrow> rc = 0 \<and> alloc_ok w1 = alloc_ok w)"
proof -
  obtain sa len where s: "ga_sockaddr (Raw a) family = Some (sa, len)"
    using ga_sockaddr_right [OF assms] by blast
  have "family \<in> {AF_INET, AF_INET6, AF_UNIX}" "family \<noteq> AF_UNIX"
    using assms by (auto simp: right_size_def family_defs)
  then show ?thesis
    using s by (auto simp: ga_aistruct_def alloc_def Let_def entry_def eai_defs)
qed

lemma ga_aistruct_fresh:
  assumes "right_size family a" and "ga_aistruct lst hints (Raw a) family w = Some (rc, l1, w1)"
    and "list_all (fresh hints) lst"
  shows "rc = 0 \<longrightarrow> list_all (fresh hints) l1"
  using ga_aistruct_right [OF assms(1), of lst hints w] assms by (auto simp: fresh_def)

lemma add_addrs_total:
  assumes "\<forall>a\<in>set addrs. right_size family a" and "list_all (fresh hints) lst"
  shows "\<exists>rc l1 w1. add_addrs hints family addrs lst w = Some (rc, l1, w1) \<and> (rc = 0 \<longrightarrow> list_all (fresh hints) l1)"
  using assms
proof (induction addrs arbitrary: lst w)
  case (Cons a addrs)
  obtain rc l1 w1 where s: "ga_aistruct lst hints (Raw a) family w = Some (rc, l1, w1)"
    using ga_aistruct_right [of family a lst hints w] Cons.prems(1) by auto
  show ?case
  proof (cases "rc = 0")
    case True
    then have "list_all (fresh hints) l1"
      using ga_aistruct_fresh [OF _ s] Cons.prems by simp
    then show ?thesis
      using Cons.IH [of l1 w1] Cons.prems(1) s True by simp
  qed (simp add: s)
qed simp

text \<open>Documented behaviour of the resolver: Internet addresses of the size of their family.\<close>

definition resolver_ok :: "resolver \<Rightarrow> bool" where
  "resolver_ok r \<longleftrightarrow> 4 \<le> length (stack r)
     \<and> (\<forall>h. known_host r h \<longrightarrow> (\<forall>a\<in>set (h_addr_list h). right_size (h_addrtype h) a))"

lemma take_numeric_total:
  assumes "right_size own a" and "list_all (fresh hints) lst"
  shows "\<exists>rc l1 w1. take_numeric hints family own a lst w = Some (rc, l1, w1) \<and> (rc = 0 \<longrightarrow> list_all (fresh hints) l1)"
proof -
  obtain rc l1 w1 where s: "ga_aistruct lst hints (Raw a) own w = Some (rc, l1, w1)"
    using ga_aistruct_right [OF assms(1)] by blast
  then show ?thesis
    using ga_aistruct_fresh [OF assms(1) s assms(2)] assms(2) by (auto simp: take_numeric_def eai_defs)
qed

lemma use_hostent_total:
  assumes "resolver_ok r" and "known_host r h" and "list_all (fresh hints) lst"
  shows "\<exists>rc l1 c1 w1. use_hostent hints hostname h lst canon w = Some (rc, l1, c1, w1)
    \<and> (rc = 0 \<longrightarrow> list_all (fresh hints) l1)"
proof -
  have "\<forall>a\<in>set (h_addr_list h). right_size (h_addrtype h) a"
    using assms(1,2) unfolding resolver_ok_def by blast
  note add = add_addrs_total [OF this assms(3)]
  obtain ok w1 where a: "alloc w = (ok, w1)"
    by force
  show ?thesis
    using add [of w] add [of w1] by (auto simp: use_hostent_def a Let_def eai_defs)
qed

lemma ga_search_total:
  assumes "resolver_ok r" and "list_all (fresh hints) lst"
  shows "\<exists>rc l1 c1 w1. ga_search r hints hostname nsearch search lst canon w = Some (rc, l1, c1, w1)
    \<and> (rc = 0 \<longrightarrow> list_all (fresh hints) l1)"
  using assms(2)
proof (induction search arbitrary: lst canon w)
  case (Cons s search)
  let ?P = "\<lambda>res. \<exists>rc l1 c1 w1. res = Some (rc, l1, c1, w1) \<and> (rc = 0 \<longrightarrow> list_all (fresh hints) l1)"
  obtain host family where s: "s = (host, family)"
    by force
  have stack: "4 \<le> length (stack r)"
    using assms(1) by (simp add: resolver_ok_def)
  have next_search: "?P (if rc1 \<noteq> 0 then Some (rc1, l1, c1, w1) else ga_search r hints hostname nsearch search l1 c1 w1)"
    if "rc1 = 0 \<longrightarrow> list_all (fresh hints) l1" for rc1 l1 c1 w1
    using that Cons.IH by auto
  obtain n4 where n4: "numeric4 r host = Some n4"
    using numeric4_eq [OF stack] by blast
  obtain n6 where n6: "numeric6 r host = Some n6"
    using numeric6_total [OF stack] by blast
  show ?case
  proof (cases n4)
    case (Some a)
    then have "right_size AF_INET a"
      using numeric4_length [OF stack] n4 by (simp add: right_size_def)
    then obtain rc1 l1 w1 where "take_numeric hints family AF_INET a lst w = Some (rc1, l1, w1)"
        "rc1 = 0 \<longrightarrow> list_all (fresh hints) l1"
      using take_numeric_total [OF _ Cons.prems] by blast
    then show ?thesis
      using next_search [of rc1 l1 canon w1] n4 Some s by simp
  next
    case None
    show ?thesis
    proof (cases n6)
      case a: (Some a)
      then have "right_size AF_INET6 a"
        using numeric6_length [OF stack] n6 by (simp add: right_size_def)
      then obtain rc1 l1 w1 where "take_numeric hints family AF_INET6 a lst w = Some (rc1, l1, w1)"
          "rc1 = 0 \<longrightarrow> list_all (fresh hints) l1"
        using take_numeric_total [OF _ Cons.prems] by blast
      then show ?thesis
        using next_search [of rc1 l1 canon w1] n4 n6 None a s by simp
    next
      case none: None
      obtain ans w1 where l: "lookup_host r nsearch host family w = (ans, w1)"
        by force
      show ?thesis
      proof (cases ans)
        case (Inl e)
        then show ?thesis
          using Cons.IH [OF Cons.prems, of canon w1] n4 n6 None none s l by (cases e) (auto simp: eai_defs)
      next
        case (Inr h)
        then have "known_host r h"
          using l by (auto simp: lookup_host_def known_host_def Let_def split: if_splits)
        then obtain rc1 l1 c1 w2 where "use_hostent hints hostname h lst canon w1 = Some (rc1, l1, c1, w2)"
            "rc1 = 0 \<longrightarrow> list_all (fresh hints) l1"
          using use_hostent_total [OF assms(1) _ Cons.prems] by blast
        then show ?thesis
          using next_search [of rc1 l1 c1 w2] n4 n6 None none s l Inr by simp
      qed
    qed
  qed
qed simp

section \<open>Ports\<close>

lemma fill_port_total: "entry_ok ai \<Longrightarrow> \<exists>ai'. fill_port port socktype ai = Some (1, ai') \<and> entry_ok ai'"
  by (elim entry_ok_cases) (auto simp: fill_port_def Let_def entry_ok_def family_defs)

lemma ga_clone_total:
  assumes "entry_ok ai"
  shows "\<exists>ok new w'. ga_clone ai w = Some (ok, new, w') \<and> (ok \<longrightarrow> (\<exists>n. new = [n] \<and> entry_ok n))"
proof -
  obtain sa where sa: "ai_addr ai = Some sa"
    using assms by (rule entry_ok_cases) auto
  then have "entry_ok (ai\<lparr>ai_flags := 0, ai_canonname := None, ai_addr := Some sa\<rparr>)"
    using assms by (cases sa) (simp_all add: entry_ok_def)
  then show ?thesis
    using sa by (auto simp: ga_clone_def alloc_def Let_def)
qed

lemma ga_port_total:
  assumes "list_all entry_ok lst"
  shows "\<exists>rc l1 w1. ga_port lst port socktype w = Some (rc, l1, w1) \<and> (rc \<noteq> None \<longrightarrow> list_all entry_ok l1)"
  using assms
proof (induction lst arbitrary: w)
  case (Cons ai rest)
  have IH: "\<exists>rc l1 w1. ga_port rest port socktype v = Some (rc, l1, w1) \<and> (rc \<noteq> None \<longrightarrow> list_all entry_ok l1)" for v
    using Cons by simp
  obtain ai' where f: "fill_port port socktype ai = Some (1, ai')" "entry_ok ai'"
    using fill_port_total [of ai] Cons.prems by auto
  obtain ok new w1 where c: "ga_clone ai w = Some (ok, new, w1)" "ok \<longrightarrow> (\<exists>n. new = [n] \<and> entry_ok n)"
    using ga_clone_total [of ai w] Cons.prems by auto
  show ?case
  proof (cases "set_flags (ai_flags ai) AI_CLONE \<and> ai_socktype ai \<noteq> 0")
    case True
    show ?thesis
    proof (cases ok)
      case ok: True
      then obtain n where n: "new = [n]" "entry_ok n"
        using c(2) by blast
      obtain n' where "fill_port port socktype n = Some (1, n')" "entry_ok n'"
        using fill_port_total [OF n(2)] by blast
      then show ?thesis
        using True ok c(1) n IH [of w1] Cons.prems by auto
    qed (use True c in simp)
  next
    case False
    then show ?thesis
      using f IH [of w] Cons.prems by auto
  qed
qed simp

lemma serv_ports_total:
  assumes "list_all entry_ok lst"
  shows "\<exists>res. serv_ports calls (n, lst, w) = Some res \<and> (\<forall>m l1 w1. res = Inr (m, l1, w1) \<longrightarrow> list_all entry_ok l1)"
  using assms
proof (induction calls arbitrary: n lst w)
  case (Cons c calls)
  obtain port socktype where c: "c = (port, socktype)"
    by force
  obtain rc l1 w1 where p: "ga_port lst port socktype w = Some (rc, l1, w1)" "rc \<noteq> None \<longrightarrow> list_all entry_ok l1"
    using ga_port_total [OF Cons.prems] by blast
  then show ?case
    using Cons.IH by (cases rc) (simp_all add: c serv_port_def)
qed simp

lemma ga_serv_total:
  assumes "list_all entry_ok lst" and "first_is isdigit serv \<longrightarrow> atoi serv \<noteq> None"
  shows "\<exists>rc l1 w1. ga_serv r lst hints serv w = Some (rc, l1, w1) \<and> (rc = 0 \<longrightarrow> list_all entry_ok l1 \<and> (lst \<noteq> [] \<longrightarrow> l1 \<noteq> []))"
proof -
  have "serv_calls r hints serv \<noteq> None"
    using assms(2) by (auto simp: serv_calls_def Let_def)
  then obtain calls where c: "serv_calls r hints serv = Some calls"
    by blast
  obtain res where r: "serv_ports calls (0, lst, w) = Some res"
      "\<forall>m l1 w1. res = Inr (m, l1, w1) \<longrightarrow> list_all entry_ok l1"
    using serv_ports_total [OF assms(1)] by blast
  show ?thesis
  proof (cases res)
    case (Inl st)
    then show ?thesis
      using c r(1) by (cases st) (simp add: ga_serv_def eai_defs)
  next
    case (Inr st)
    obtain n l1 w1 where st: "st = (n, l1, w1)"
      by (metis surj_pair)
    have "l1 \<noteq> []" if "lst \<noteq> []"
      using serv_ports_grows [OF r(1) [unfolded Inr st]] that by (auto simp: serv_state_def)
    then show ?thesis
      using c r Inr st by (auto simp: ga_serv_def eai_defs)
  qed
qed

section \<open>Properties\<close>

definition unix_request :: "string option \<Rightarrow> bool" where
  "unix_request hostname \<longleftrightarrow> hostname = Some ''/local'' \<or> hostname = Some ''/unix''"

text \<open>The requests for the Unix domain: one of the two host names, and a service that is an absolute path.\<close>

definition unix_wanted :: "string option \<Rightarrow> string option \<Rightarrow> bool" where
  "unix_wanted hostname servname \<longleftrightarrow> unix_request hostname \<and> (\<exists>path. servname = Some (CHR ''/'' # path))"

lemma unix_wanted_iff:
  "unix_wanted hostname servname \<longleftrightarrow> (hostname = Some ''/local'' \<or> hostname = Some ''/unix'')
     \<and> (case servname of Some s \<Rightarrow> first_is ((=) CHR ''/'') s | None \<Rightarrow> False)"
  by (auto simp: unix_wanted_def unix_request_def first_is_def split: option.split list.split)

text \<open>A complete structure of any family.\<close>

definition complete :: "addrinfo \<Rightarrow> bool" where
  "complete ai \<longleftrightarrow> entry_ok ai \<or> ai_family ai = AF_UNIX \<and> (\<exists>p. ai_addr ai = Some (SA_un p))"

lemma entries_complete: "list_all entry_ok lst \<Longrightarrow> list_all complete lst"
  by (auto simp: complete_def list_all_iff)

lemma ga_canon_total:
  assumes "list_all (fresh hints) lst" and "lst \<noteq> []" and "canon \<noteq> None \<longrightarrow> wants_canon hints hostname"
  shows "\<exists>rc l1 w1. ga_canon hints hostname search lst canon w = Some (rc, l1, w1) \<and> list_all entry_ok l1 \<and> l1 \<noteq> []
    \<and> live w1 + total_blocks lst + canon_block canon = live w + total_blocks l1"
proof -
  obtain ai rest where lst: "lst = ai # rest"
    using assms(2) by (cases lst) auto
  then have ok: "entry_ok ai" "ai_canonname ai = None" "list_all entry_ok rest"
    using assms(1) fresh_entry_ok by (auto simp: list_all_iff)
  moreover have "entry_ok (ai\<lparr>ai_canonname := c\<rparr>)" for c
    using ok(1) by (elim entry_ok_cases) (simp_all add: entry_ok_def)
  ultimately show ?thesis
    using assms(3)
    by (auto simp: ga_canon_def lst Let_def alloc_def blocks_def canon_block_def wants_canon_def split: option.splits)
qed

text \<open>
  A result with the memory accounted for: \<open>w\<close> is the world before the call, and \<open>lost\<close> the number of
  blocks that can be lost on an error.
\<close>

definition accounted :: "world \<Rightarrow> nat \<Rightarrow> (nat \<times> addrinfo list option \<times> world) outcome \<Rightarrow> bool" where
  "accounted w lost out \<longleftrightarrow>
     (\<forall>rc lst w'. out = Ret (rc, Some lst, w') \<longrightarrow>
        rc = 0 \<and> lst \<noteq> [] \<and> list_all complete lst \<and> live w' = live w + total_blocks lst \<and> live (freeaddrinfo lst w') = live w)
     \<and> (\<forall>rc w'. out = Ret (rc, None, w') \<longrightarrow> rc \<noteq> 0 \<and> live w \<le> live w' \<and> live w' \<le> live w + lost)"

abbreviation gai_ok :: "world \<Rightarrow> nat \<Rightarrow> (nat \<times> addrinfo list option \<times> world) outcome option \<Rightarrow> bool" where
  "gai_ok w lost res \<equiv> \<exists>out. res = Some out \<and> accounted w lost out"

lemma ga_bad_ok:
  assumes "rc \<noteq> 0" and "live v = live w + total_blocks lst + canon_block canon" and "canon \<noteq> None \<longrightarrow> 1 \<le> lost"
  shows "gai_ok w lost (ga_bad rc lst v)"
  using assms by (cases canon) (auto simp: accounted_def ga_bad_def live_freeaddrinfo canon_block_def)

lemma accounted_success:
  assumes "live v = live w + total_blocks lst" and "lst \<noteq> []" and "list_all complete lst"
  shows "accounted w lost (Ret (0, Some lst, v))"
  using assms by (simp add: accounted_def live_freeaddrinfo)

lemma ga_good_ok:
  assumes "live v = live w + total_blocks lst" and "lst \<noteq> []" and "list_all entry_ok lst"
  shows "gai_ok w lost (Some (Ret (0, Some lst, v)))"
  using assms entries_complete by (simp add: accounted_success)

text \<open>The Unix domain: \<^verbatim>\<open>ga_unix\<close> returns its errors without freeing what it has built.\<close>

lemma ga_aistruct_unix:
  "\<exists>rc l1 w1. ga_aistruct lst hints (Path p) AF_UNIX w = Some (rc, l1, w1) \<and> total_blocks l1 \<le> total_blocks lst + 2
    \<and> balanced lst w l1 w1 \<and> (rc = 0 \<longrightarrow> (\<exists>ai. l1 = lst @ [ai] \<and> complete ai \<and> ai_canonname ai = None))"
proof -
  have "\<exists>rc l1 w1. ga_aistruct lst hints (Path p) AF_UNIX w = Some (rc, l1, w1) \<and> total_blocks l1 \<le> total_blocks lst + 2
    \<and> (rc = 0 \<longrightarrow> (\<exists>ai. l1 = lst @ [ai] \<and> complete ai \<and> ai_canonname ai = None))"
    by (auto simp: ga_aistruct_def alloc_def Let_def ga_sockaddr_def strcpy_def sun_path_size_def new_ai_def blocks_def complete_def
        eai_defs family_defs)
  then show ?thesis
    using ga_aistruct_balanced by blast
qed

lemma ga_unix_canon:
  fixes ai :: addrinfo
  assumes "live w = live v + total_blocks (ai # rest)" and "list_all complete (ai # rest)" and "ai_canonname ai = None"
    and "total_blocks (ai # rest) \<le> 4"
  shows "gai_ok v 4 (Option.bind (if set_flags flags AI_CANONNAME then
         (case uname r of
            None \<Rightarrow> Some (EAI_SYSTEM, None, w)
          | Some node \<Rightarrow>
              (let (ok, w) = alloc w in
               if \<not> ok then Some (EAI_MEMORY, None, w)
               else
                 (case ai # rest of
                    [] \<Rightarrow> None
                  | ai # rest \<Rightarrow> Some (0, Some (ai\<lparr>ai_canonname := Some node\<rparr> # rest), w))))
       else Some (0, Some (ai # rest), w)) (\<lambda>res. Some (Ret res)))"
proof -
  have "complete (ai\<lparr>ai_canonname := c\<rparr>)" for c
    using assms(2) by (auto simp: complete_def entry_ok_def split: option.splits sockaddr.splits)
  then have "accounted v 4 (Ret (0, Some (ai\<lparr>ai_canonname := Some node\<rparr> # rest), w\<lparr>allocs := n, live := live w + 1\<rparr>))" for node n
    using assms(1-3) by (intro accounted_success) (simp_all add: blocks_def)
  moreover have "accounted v 4 (Ret (0, Some (ai # rest), w))"
    using assms(1,2) by (intro accounted_success) simp_all
  moreover have "live v \<le> live w" "live w \<le> live v + 4"
    using assms(1,4) by simp_all
  then have "accounted v 4 (Ret (EAI_SYSTEM, None, w))" "accounted v 4 (Ret (EAI_MEMORY, None, w\<lparr>allocs := n\<rparr>))" for n
    by (simp_all add: accounted_def eai_defs)
  ultimately show ?thesis
    by (auto simp: alloc_def Let_def split: option.split)
qed

lemma ga_unix_ok: "gai_ok w 4 (do { res \<leftarrow> ga_unix r path hints w; Some (Ret res) })"
proof (cases "ai_family hints \<noteq> AF_UNSPEC \<and> ai_family hints \<noteq> AF_UNIX")
  case True
  then show ?thesis
    by (simp add: ga_unix_def accounted_def eai_defs)
next
  case fam: False
  define two where "two = (ai_socktype hints = 0)"
  define h where "h = (if two then hints\<lparr>ai_socktype := SOCK_DGRAM\<rparr> else hints)"
  obtain rc1 l1 w1 where one: "(if two then do {
        (rc, lst, w) \<leftarrow> ga_aistruct [] (hints\<lparr>ai_socktype := SOCK_STREAM\<rparr>) (Path path) AF_UNIX w;
        Some (rc, lst, hints\<lparr>ai_socktype := SOCK_DGRAM\<rparr>, w) }
      else Some (0, [], hints, w)) = Some (rc1, l1, h, w1)"
      "balanced [] w l1 w1" "total_blocks l1 \<le> 2" "rc1 = 0 \<longrightarrow> list_all complete l1 \<and> (\<forall>ai\<in>set l1. ai_canonname ai = None)"
    using ga_aistruct_unix [of "[]" "hints\<lparr>ai_socktype := SOCK_STREAM\<rparr>" path w] by (cases two) (auto simp: h_def)
  obtain rc2 l2 w2 where snd: "ga_aistruct l1 h (Path path) AF_UNIX w1 = Some (rc2, l2, w2)" "balanced l1 w1 l2 w2"
      "total_blocks l2 \<le> total_blocks l1 + 2" "rc2 = 0 \<longrightarrow> (\<exists>ai. l2 = l1 @ [ai] \<and> complete ai \<and> ai_canonname ai = None)"
    using ga_aistruct_unix [of l1 h path w1] by blast
  have live: "live w1 = live w + total_blocks l1" "live w2 = live w + total_blocks l2"
    using one(2) snd(2) by (simp_all add: balanced_def)
  show ?thesis
  proof (cases "rc1 = 0 \<and> rc2 = 0")
    case True
    then obtain ai rest where l2: "l2 = ai # rest" "list_all complete (ai # rest)" "ai_canonname ai = None"
      using one(4) snd(4) by (cases l1) auto
    have b: "total_blocks (ai # rest) \<le> 4"
      using one(3) snd(3) l2(1) by simp
    show ?thesis
      using ga_unix_canon [OF live(2) [unfolded l2(1)] l2(2,3) b, of "ai_flags h" r] True fam one(1) snd(1) l2(1)
      by (auto simp: ga_unix_def two_def [symmetric])
  next
    case False
    then show ?thesis
      using fam one(1,3) snd(1,3) live by (auto simp: ga_unix_def two_def [symmetric] accounted_def)
  qed
qed

lemma ga_service_ok:
  assumes "live w2 = live w + total_blocks l2" and "l2 \<noteq> []" and "list_all entry_ok l2"
    and "first_is isdigit serv \<longrightarrow> atoi serv \<noteq> None"
  shows "gai_ok w lost (do {
      (rc, lst, v) \<leftarrow> ga_serv r l2 hints serv w2;
      if rc \<noteq> 0 then ga_bad rc lst v else Some (Ret (0, Some lst, v)) })"
proof -
  obtain rc l3 w3 where v: "ga_serv r l2 hints serv w2 = Some (rc, l3, w3)" "rc = 0 \<longrightarrow> list_all entry_ok l3 \<and> l3 \<noteq> []"
    using ga_serv_total [OF assms(3,4), of r hints w2] assms(2) by auto
  have l3: "live w3 = live w + total_blocks l3"
    using ga_serv_balanced [OF v(1)] assms(1) by (simp add: balanced_def)
  then have "gai_ok w lost (if rc \<noteq> 0 then ga_bad rc l3 w3 else Some (Ret (0, Some l3, w3)))"
    using v(2) ga_bad_ok [of rc w3 w l3 None] ga_good_ok [OF l3] by (cases "rc = 0") (simp_all add: canon_block_def)
  then show ?thesis
    by (simp add: v(1))
qed

text \<open>The part of \<^verbatim>\<open>getaddrinfo\<close> behind the loop.\<close>

lemma ga_finish_ok:
  assumes "live w1 = live w + total_blocks lst + canon_block canon" and "canon \<noteq> None \<longrightarrow> wants_canon hints hostname"
    and "list_all (fresh hints) lst" and "lst \<noteq> []"
    and "\<forall>s. servname = Some s \<longrightarrow> first_is isdigit s \<longrightarrow> atoi s \<noteq> None"
  shows "gai_ok w lost (do {
      (rc, lst, v) \<leftarrow> ga_canon hints hostname search lst canon w1;
      if rc \<noteq> 0 then ga_bad rc lst v
      else if empty_name servname then Some (Ret (0, Some lst, v))
      else do {
        (rc, lst, v) \<leftarrow> ga_serv r lst hints (the servname) v;
        if rc \<noteq> 0 then ga_bad rc lst v else Some (Ret (0, Some lst, v))
      } })"
proof -
  obtain rc l2 w2 where c: "ga_canon hints hostname search lst canon w1 = Some (rc, l2, w2)" "list_all entry_ok l2"
      "l2 \<noteq> []" "live w2 + total_blocks lst + canon_block canon = live w1 + total_blocks l2"
    using ga_canon_total [OF assms(3,4,2)] by blast
  have l2: "live w2 = live w + total_blocks l2"
    using c(4) assms(1) by simp
  have bad: "gai_ok w lost (ga_bad rc l2 w2)" if "rc \<noteq> 0"
    using ga_bad_ok [OF that, of w2 w l2 None] l2 by (simp add: canon_block_def)
  have serv: "first_is isdigit (the servname) \<longrightarrow> atoi (the servname) \<noteq> None" if "\<not> empty_name servname"
    using assms(5) that by (auto simp: empty_name_def)
  show ?thesis
    unfolding c(1) bind.bind_lunit prod.case
    using bad ga_good_ok [OF l2 c(3,2)] ga_service_ok [OF l2 c(3,2) serv] by (auto simp del: not_None_eq)
qed

text \<open>What can be lost: in the Unix domain two structures with their addresses, else the canonical name.\<close>

definition losable :: "addrinfo option \<Rightarrow> string option \<Rightarrow> string option \<Rightarrow> nat" where
  "losable hintsp hostname servname =
     (if unix_wanted hostname servname then 4
      else if wants_canon (case hintsp of None \<Rightarrow> default_hints | Some h \<Rightarrow> h) hostname then 1 else 0)"

lemma getaddrinfo_inet_accounted:
  assumes "resolver_ok r" and "\<not> unix_wanted hostname servname"
    and "\<forall>s. servname = Some s \<longrightarrow> first_is isdigit s \<longrightarrow> atoi s \<noteq> None"
  shows "gai_ok w (losable hintsp hostname servname) (getaddrinfo r hostname servname hintsp w)"
proof -
  define hints where "hints = (case hintsp of None \<Rightarrow> default_hints | Some h \<Rightarrow> h)"
  define lost where "lost = losable hintsp hostname servname"
  have lost: "wants_canon hints hostname \<longrightarrow> 1 \<le> lost"
    using assms(2) by (simp add: lost_def losable_def hints_def)
  have "gai_ok w lost (getaddrinfo r hostname servname hintsp w)"
  proof (cases "ga_echeck hostname servname (ai_flags hints) (ai_family hints) (ai_socktype hints) (ai_protocol hints) = 0")
    case False
    then show ?thesis
      using ga_bad_ok [of _ w w "[]" None] by (simp add: getaddrinfo_def hints_def [symmetric] Let_def canon_block_def)
  next
    case True
    show ?thesis
    proof (cases "ga_nsearch hostname hints")
      case (Ret search)
      obtain rc lst canon w1 where s: "ga_search r hints hostname (length search) search [] None w = Some (rc, lst, canon, w1)"
          "rc = 0 \<longrightarrow> list_all (fresh hints) lst"
        using ga_search_total [OF assms(1), of hints "[]"] by fastforce
      have stack: "4 \<le> length (stack r)"
        using assms(1) by (simp add: resolver_ok_def)
      note m = ga_search_balanced [OF stack s(1)]
      have "getaddrinfo r hostname servname hintsp w =
        (if rc \<noteq> 0 then ga_bad rc lst w1
         else if lst = [] then ga_bad EAI_NONAME lst w1
         else do {
           (rc, lst, w) \<leftarrow> ga_canon hints hostname search lst canon w1;
           if rc \<noteq> 0 then ga_bad rc lst w
           else if empty_name servname then Some (Ret (0, Some lst, w))
           else do {
             (rc, lst, w) \<leftarrow> ga_serv r lst hints (the servname) w;
             if rc \<noteq> 0 then ga_bad rc lst w else Some (Ret (0, Some lst, w))
           }
         })"
        using True assms(2) [unfolded unix_wanted_iff] Ret s(1) by (auto simp: getaddrinfo_def hints_def [symmetric])
      moreover have "EAI_NONAME \<noteq> 0"
        by (simp add: eai_defs)
      moreover have "gai_ok w lost (ga_bad e lst w1)" if "e \<noteq> 0" for e
        using m(2) lost by (intro ga_bad_ok [OF that m(1)]) simp
      ultimately show ?thesis
        using ga_finish_ok [OF m _ _ assms(3)] s(2) by (cases "lst = []") (simp_all del: not_None_eq)
    qed (use True assms(2) [unfolded unix_wanted_iff] in \<open>auto simp: getaddrinfo_def hints_def [symmetric] accounted_def\<close>)
  qed
  then show ?thesis
    unfolding lost_def .
qed

lemma getaddrinfo_accounted:
  assumes "resolver_ok r" and "\<forall>s. servname = Some s \<longrightarrow> first_is isdigit s \<longrightarrow> atoi s \<noteq> None"
  shows "gai_ok w (losable hintsp hostname servname) (getaddrinfo r hostname servname hintsp w)"
proof (cases "unix_wanted hostname servname")
  case True
  define hints where "hints = (case hintsp of None \<Rightarrow> default_hints | Some h \<Rightarrow> h)"
  show ?thesis
  proof (cases "ga_echeck hostname servname (ai_flags hints) (ai_family hints) (ai_socktype hints) (ai_protocol hints) = 0")
    case ok: True
    then show ?thesis
      using ga_unix_ok [where w = w and r = r and path = "the servname" and hints = hints] True [unfolded unix_wanted_iff]
      by (simp add: getaddrinfo_def hints_def [symmetric] losable_def True)
  next
    case False
    then show ?thesis
      using ga_bad_ok [of _ w w "[]" None] by (simp add: getaddrinfo_def hints_def [symmetric] Let_def canon_block_def)
  qed
qed (use getaddrinfo_inet_accounted assms in blast)


text \<open>A resolver and a world to run the code on.\<close>

definition host6 :: hostent where
  "host6 = \<lparr>h_name = ''www.example.org'', h_addrtype = AF_INET6, h_addr_list = [replicate 15 0 @ [1]]\<rparr>"

definition host4 :: hostent where
  "host4 = \<lparr>h_name = ''www.example.org'', h_addrtype = AF_INET, h_addr_list = [[10, 0, 0, 1], [10, 0, 0, 2]]\<rparr>"

definition a_resolver :: resolver where
  "a_resolver =
     \<lparr>gethostbyname2 = (\<lambda>host family. if host = ''www'' then if family = AF_INET6 then Inr host6 else Inr host4 else Inl HOST_NOT_FOUND),
      gethostbyname = (\<lambda>inet6 host. if host = ''www'' then if inet6 then Inr host6 else Inr host4 else Inl HOST_NOT_FOUND),
      gethostbyaddr = (\<lambda>a family. None),
      getservbyname = (\<lambda>serv proto. if serv = ''daytime'' then Some 0x0D00 else None),
      getservbyport = (\<lambda>port proto. None),
      uname = Some ''node'',
      byte_order = True,
      stack = [7, 7, 7, 7]\<rparr>"

definition a_world :: world where
  "a_world = \<lparr>alloc_ok = (\<lambda>i. True), allocs = 0, live = 0, res_inet6 = False, unlinked = []\<rparr>"

lemma a_resolver_ok: "resolver_ok a_resolver"
  by (auto simp: resolver_ok_def known_host_def a_resolver_def host6_def host4_def right_size_def split: if_splits)


text \<open>The canonical name is lost when the first structure cannot be allocated.\<close>

theorem getaddrinfo_loses_canon:
  "\<exists>w'. getaddrinfo a_resolver (Some ''www'') None (Some (default_hints\<lparr>ai_flags := AI_CANONNAME\<rparr>))
      (a_world\<lparr>alloc_ok := (\<lambda>i. i = 0)\<rparr>) = Some (Ret (EAI_MEMORY, None, w')) \<and> live w' = live a_world + 1"
  by (simp add: getaddrinfo_def default_hints_def ga_echeck_def set_flags_def ai_flag_defs empty_name_def
      ga_nsearch_def search_for_def sock_type_defs family_defs numeric4_def numeric6_def first_is_def isdigit_def
      isxdigit_def lookup_host_def a_resolver_def host6_def use_hostent_def alloc_def a_world_def ga_aistruct_def
      ga_bad_def Let_def eai_defs)

text \<open>Two structures and their addresses are lost when \<^verbatim>\<open>uname\<close> fails: four blocks can really go.\<close>

theorem getaddrinfo_loses_unix:
  "\<exists>w'. getaddrinfo (a_resolver\<lparr>uname := None\<rparr>) (Some ''/local'') (Some ''/s'') (Some (default_hints\<lparr>ai_flags := AI_CANONNAME\<rparr>))
      a_world = Some (Ret (EAI_SYSTEM, None, w')) \<and> live w' = live a_world + 4"
  by (simp add: getaddrinfo_def default_hints_def ga_echeck_def set_flags_def ai_flag_defs empty_name_def
      sock_type_defs family_defs first_is_def a_resolver_def ga_unix_def alloc_def a_world_def ga_aistruct_def ga_sockaddr_def
      strcpy_def sun_path_size_def Let_def eai_defs)

text \<open>
  A request for the Unix domain by \<^verbatim>\<open>ai_family\<close> that passes the checks, but does not name the host
  \<^verbatim>\<open>/local\<close> or \<^verbatim>\<open>/unix\<close> with an absolute path, ends the calling process instead of returning an error.
\<close>

theorem getaddrinfo_local_exits:
  assumes "ai_family hints = AF_UNIX"
    and "ga_echeck hostname servname (ai_flags hints) (ai_family hints) (ai_socktype hints) (ai_protocol hints) = 0"
    and "\<not> unix_request hostname \<or> servname = None"
  shows "getaddrinfo r hostname servname (Some hints) w = Some (Exits ''nsearch'')"
proof -
  have "ga_nsearch hostname hints = Exits ''nsearch''"
    using assms(1) by (simp add: ga_nsearch_def search_for_def family_defs sock_type_defs Let_def)
  then show ?thesis
    using assms(2,3) by (auto simp: getaddrinfo_def unix_request_def)
qed

theorem getaddrinfo_local_exits_witness:
  "getaddrinfo a_resolver (Some ''www'') None (Some (default_hints\<lparr>ai_family := AF_UNIX\<rparr>)) a_world = Some (Exits ''nsearch'')"
  by (rule getaddrinfo_local_exits)
    (simp_all add: default_hints_def ga_echeck_def set_flags_def empty_name_def unix_request_def family_defs sock_type_defs)

section \<open>One structure per address and socket type\<close>

text \<open>All allocations succeed.\<close>

abbreviation plenty :: "world \<Rightarrow> bool" where
  "plenty w \<equiv> alloc_ok w = (\<lambda>i. True)"

definition with_port :: "u16 \<Rightarrow> nat \<Rightarrow> addrinfo \<Rightarrow> addrinfo" where
  "with_port port socktype ai =
     ai\<lparr>ai_socktype := socktype, ai_addr := map_option (\<lambda>sa. sock_set_port sa (uint port)) (ai_addr ai)\<rparr>"

lemma fill_port_eq: "entry_ok ai \<Longrightarrow> fill_port port socktype ai = Some (1, with_port port socktype ai)"
  by (elim entry_ok_cases) (simp_all add: fill_port_def Let_def with_port_def sock_set_port_def family_defs)

lemma entry_ok_with_port: "entry_ok ai \<Longrightarrow> entry_ok (with_port port socktype ai)"
  using fill_port_total [of ai port socktype] by (auto simp: fill_port_eq)

lemma ga_port_first:
  assumes "list_all (\<lambda>ai. entry_ok ai \<and> ai_flags ai = AI_CLONE \<and> ai_socktype ai = 0) lst"
  shows "ga_port lst port socktype w = Some (Some (length lst), map (with_port port socktype) lst, w)"
  using assms by (induction lst) (simp_all add: fill_port_eq set_flags_def ai_flag_defs)

definition unflag :: "addrinfo \<Rightarrow> addrinfo" where
  "unflag ai = ai\<lparr>ai_flags := 0, ai_canonname := None\<rparr>"

lemma ga_clone_plenty:
  assumes "entry_ok ai" and "plenty w"
  shows "\<exists>w'. ga_clone ai w = Some (True, [unflag ai], w') \<and> plenty w'"
proof -
  obtain sa where "ai_addr ai = Some sa"
    using assms(1) by (rule entry_ok_cases) auto
  then show ?thesis
    using assms(2) by (simp add: ga_clone_def alloc_def Let_def unflag_def)
qed

lemma entry_ok_unflag: "entry_ok ai \<Longrightarrow> entry_ok (unflag ai)"
  by (elim entry_ok_cases) (simp_all add: entry_ok_def unflag_def)

lemma ga_port_second:
  assumes "list_all (\<lambda>ai. entry_ok ai \<and> ai_flags ai = AI_CLONE \<and> ai_socktype ai \<noteq> 0) lst" and "plenty w"
  shows "\<exists>w'. ga_port lst port socktype w =
    Some (Some (length lst), concat (map (\<lambda>ai. [ai, with_port port socktype (unflag ai)]) lst), w') \<and> plenty w'"
  using assms
proof (induction lst arbitrary: w)
  case (Cons ai lst)
  obtain w1 where c: "ga_clone ai w = Some (True, [unflag ai], w1)" "plenty w1"
    using ga_clone_plenty [of ai w] Cons.prems by auto
  have "fill_port port socktype (unflag ai) = Some (1, with_port port socktype (unflag ai))"
    using Cons.prems entry_ok_unflag fill_port_eq by simp
  moreover obtain w2 where "ga_port lst port socktype w1 =
    Some (Some (length lst), concat (map (\<lambda>ai. [ai, with_port port socktype (unflag ai)]) lst), w2)" "plenty w2"
    using Cons.IH [of w1] Cons.prems(1) c(2) by auto
  ultimately show ?case
    using Cons.prems(1) c by (simp add: set_flags_def ai_flag_defs)
qed simp

text \<open>What a caller sees of a structure.\<close>

definition seen :: "addrinfo \<Rightarrow> nat \<times> nat \<times> sockaddr option" where
  "seen ai = (ai_family ai, ai_socktype ai, ai_addr ai)"

definition seen_with :: "addrinfo \<Rightarrow> nat \<times> u16 \<Rightarrow> nat \<times> nat \<times> sockaddr option" where
  "seen_with ai tp = (case tp of (socktype, port) \<Rightarrow> seen (with_port port socktype ai))"

lemma ga_serv_both:
  assumes "list_all (\<lambda>ai. entry_ok ai \<and> ai_flags ai = AI_CLONE \<and> ai_socktype ai = 0) lst" and "lst \<noteq> []" and "plenty w"
    and "serv_calls r hints serv = Some [(p1, SOCK_STREAM), (p2, SOCK_DGRAM)]"
  shows "\<exists>lst' w'. ga_serv r lst hints serv w = Some (0, lst', w')
    \<and> map seen lst' = concat (map (\<lambda>ai. map (seen_with ai) [(SOCK_STREAM, p1), (SOCK_DGRAM, p2)]) lst)"
proof -
  let ?l1 = "map (with_port p1 SOCK_STREAM) lst"
  let ?l2 = "concat (map (\<lambda>ai. [ai, with_port p2 SOCK_DGRAM (unflag ai)]) ?l1)"
  have "list_all (\<lambda>ai. entry_ok ai \<and> ai_flags ai = AI_CLONE \<and> ai_socktype ai \<noteq> 0) ?l1"
    using assms(1) entry_ok_with_port by (auto simp: list_all_iff with_port_def sock_type_defs)
  then obtain w2 where "ga_port ?l1 p2 SOCK_DGRAM w = Some (Some (length ?l1), ?l2, w2)"
    using ga_port_second [OF _ assms(3), of ?l1 p2 SOCK_DGRAM] by blast
  then have "ga_serv r lst hints serv w = Some (0, ?l2, w2)"
    using assms(2,4) ga_port_first [OF assms(1), of p1 SOCK_STREAM w] by (simp add: ga_serv_def serv_port_def)
  moreover have "sock_set_port (sock_set_port sa p) q = sock_set_port sa q" for sa p q
    by (simp add: sock_set_port_def split: sockaddr.splits)
  then have "map seen ?l2 = concat (map (\<lambda>ai. map (seen_with ai) [(SOCK_STREAM, p1), (SOCK_DGRAM, p2)]) lst)"
    by (induction lst) (auto simp: seen_def seen_with_def with_port_def unflag_def option.map_comp o_def)
  ultimately show ?thesis
    by blast
qed

definition inet_sa :: "nat \<Rightarrow> u8 list \<Rightarrow> u16 \<Rightarrow> sockaddr" where
  "inet_sa family a port =
     (if family = AF_INET then SA_in \<lparr>sin_port = port, sin_addr = a\<rparr>
      else SA_in6 \<lparr>sin6_port = port, sin6_flowinfo = 0, sin6_addr = a, sin6_scope_id = 0\<rparr>)"

lemma seen_with_entry:
  "right_size family a \<Longrightarrow> seen_with (entry hints family a) (socktype, port) = (family, socktype, Some (inet_sa family a port))"
  by (auto simp: right_size_def seen_with_def seen_def with_port_def entry_def ga_sockaddr_def bytes_at_def new_ai_def
      sock_set_port_def inet_sa_def family_defs)

lemma fresh_clone:
  assumes "fresh hints ai"
  shows "entry_ok ai \<and> ai_flags ai = (if ai_socktype hints = 0 then AI_CLONE else 0) \<and> ai_socktype ai = ai_socktype hints"
  using fresh_entry_ok [OF assms] assms
  by (auto simp: fresh_def right_size_def entry_def ga_sockaddr_def bytes_at_def new_ai_def family_defs)

lemma add_addrs_plenty:
  assumes "\<forall>a\<in>set addrs. right_size family a" and "plenty w"
  shows "\<exists>w'. add_addrs hints family addrs lst w = Some (0, lst @ map (entry hints family) addrs, w') \<and> plenty w'"
  using assms
proof (induction addrs arbitrary: lst w)
  case (Cons a addrs)
  obtain w1 where "ga_aistruct lst hints (Raw a) family w = Some (0, lst @ [entry hints family a], w1)" "plenty w1"
    using ga_aistruct_right [of family a lst hints w] Cons.prems by auto
  then show ?case
    using Cons.IH [of w1 "lst @ [entry hints family a]"] Cons.prems(1) by auto
qed simp

text \<open>The addresses the resolver has for a host.\<close>

definition found :: "resolver \<Rightarrow> string \<Rightarrow> nat \<Rightarrow> (nat \<times> u8 list) list" where
  "found r host family =
     (case gethostbyname2 r host family of Inl e \<Rightarrow> [] | Inr h \<Rightarrow> map (Pair (h_addrtype h)) (h_addr_list h))"

lemma resolver_okD:
  assumes "resolver_ok r" and "gethostbyname2 r host family = Inr h"
  shows "\<forall>a\<in>set (h_addr_list h). right_size (h_addrtype h) a"
proof -
  have "known_host r h"
    using assms(2) unfolding known_host_def by blast
  then show ?thesis
    using assms(1) unfolding resolver_ok_def by blast
qed

lemma found_right: "resolver_ok r \<Longrightarrow> (f, a) \<in> set (found r host family) \<Longrightarrow> right_size f a"
  using resolver_okD by (auto simp: found_def split: sum.splits)

definition plain_name :: "string \<Rightarrow> bool" where
  "plain_name host \<longleftrightarrow> host \<noteq> [] \<and> \<not> first_is isdigit host \<and> CHR '':'' \<notin> set host \<and> \<not> unix_request (Some host)"

lemma plain_name_numeric: "plain_name host \<Longrightarrow> numeric4 r host = Some None \<and> numeric6 r host = Some None"
  by (auto simp: plain_name_def numeric4_def numeric6_def strchr_None)

lemma ga_search_name:
  assumes "resolver_ok r" and "plain_name host" and "plenty w" and "\<not> wants_canon hints (Some host)" and "ai_family hints = AF_UNSPEC"
  shows "\<exists>w1. plenty w1 \<and> ga_search r hints (Some host) 2 ((host, family) # search) lst None w =
    ga_search r hints (Some host) 2 search (lst @ map (case_prod (entry hints)) (found r host family)) None w1"
proof (cases "gethostbyname2 r host family")
  case (Inl e)
  then show ?thesis
    using assms plain_name_numeric [OF assms(2), of r]
    by (intro exI [of _ "w\<lparr>res_inet6 := False\<rparr>"]) (simp add: lookup_host_def found_def)
next
  case (Inr h)
  then have "\<forall>a\<in>set (h_addr_list h). right_size (h_addrtype h) a"
    using resolver_okD [OF assms(1)] by blast
  then obtain w1 where "add_addrs hints (h_addrtype h) (h_addr_list h) lst (w\<lparr>res_inet6 := False\<rparr>)
      = Some (0, lst @ map (entry hints (h_addrtype h)) (h_addr_list h), w1)" "plenty w1"
    using add_addrs_plenty [of "h_addr_list h" "h_addrtype h" "w\<lparr>res_inet6 := False\<rparr>" hints lst] assms(3) by auto
  then show ?thesis
    using assms plain_name_numeric [OF assms(2), of r] Inr
    by (auto simp: lookup_host_def found_def use_hostent_def wants_canon_def o_def)
qed

text \<open>A call for both families without flags, its loop and its service given.\<close>

lemma ga_canon_none: "\<not> wants_canon hints hostname \<Longrightarrow> ga_canon hints hostname search lst canon w = Some (0, lst, w)"
  by (auto simp: ga_canon_def wants_canon_def)

lemma getaddrinfo_unspec:
  assumes "hints = (case hintsp of None \<Rightarrow> default_hints | Some h \<Rightarrow> h)" and "ai_family hints = AF_UNSPEC" and "ai_flags hints = 0"
    and "host \<noteq> []" and "serv \<noteq> []" and "\<not> unix_request (Some host)"
    and "ga_search r hints (Some host) 2 [(host, AF_INET6), (host, AF_INET)] [] None w = Some (0, lst, None, w1)" and "lst \<noteq> []"
    and "ga_serv r lst hints serv w1 = Some (0, lst', w')"
  shows "getaddrinfo r (Some host) (Some serv) hintsp w = Some (Ret (0, Some lst', w'))"
proof -
  define search where "search = [(host, AF_INET6), (host, AF_INET)]"
  have "\<not> wants_canon hints (Some host)"
    using assms(3) by (simp add: wants_canon_def set_flags_def)
  moreover have "ga_nsearch (Some host) hints = Ret search" "length search = 2"
    using assms(2,4) by (simp_all add: search_def ga_nsearch_def search_for_def empty_name_def family_defs sock_type_defs)
  moreover have "ga_echeck (Some host) (Some serv) (ai_flags hints) (ai_family hints) (ai_socktype hints) (ai_protocol hints) = 0"
    using assms(2-4) by (simp add: ga_echeck_def set_flags_def empty_name_def)
  ultimately show ?thesis
    using assms(4-6,8,9) assms(7) [folded search_def]
    by (simp add: getaddrinfo_def assms(1) [symmetric] unix_request_def empty_name_def ga_canon_none)
qed

text \<open>The search for a name in both families finds the IPv6 addresses first.\<close>

lemma ga_search_both:
  assumes "resolver_ok r" and "plain_name host" and "plenty w" and "\<not> wants_canon h (Some host)" and "ai_family h = AF_UNSPEC"
  shows "\<exists>w'. plenty w' \<and> ga_search r h (Some host) 2 [(host, AF_INET6), (host, AF_INET)] [] None w
    = Some (0, map (case_prod (entry h)) (found r host AF_INET6 @ found r host AF_INET), None, w')"
proof -
  let ?l6 = "map (case_prod (entry h)) (found r host AF_INET6)"
  obtain w1 where w1: "plenty w1" and s1: "ga_search r h (Some host) 2 [(host, AF_INET6), (host, AF_INET)] [] None w
      = ga_search r h (Some host) 2 [(host, AF_INET)] ?l6 None w1"
    using ga_search_name [OF assms(1-5), of AF_INET6 "[(host, AF_INET)]" "[]"] unfolding append_Nil by blast
  obtain w2 where "plenty w2" and "ga_search r h (Some host) 2 [(host, AF_INET)] ?l6 None w1
      = ga_search r h (Some host) 2 [] (map (case_prod (entry h)) (found r host AF_INET6 @ found r host AF_INET)) None w2"
    using ga_search_name [OF assms(1,2) w1 assms(4,5), of AF_INET "[]" ?l6] unfolding map_append by blast
  then show ?thesis
    using s1 by auto
qed

text \<open>
  (C36) As the comment of \<^verbatim>\<open>ga_port.c\<close> asks: for a host name, the name of a service that the services database
  has for \<^verbatim>\<open>tcp\<close> and for \<^verbatim>\<open>udp\<close>, no hints and allocations that succeed, \<^verbatim>\<open>getaddrinfo\<close> returns for every address the resolver has, the IPv6 ones first, exactly two
  structures, in this order: a stream socket with the TCP port and a datagram socket with the UDP port.
\<close>

theorem getaddrinfo_host:
  assumes "resolver_ok r" and "plenty w" and "plain_name host" and "serv \<noteq> []" and "\<not> isdigit (hd serv)"
    and "getservbyname r serv ''tcp'' = Some p1" and "getservbyname r serv ''udp'' = Some p2"
    and "found r host AF_INET6 @ found r host AF_INET \<noteq> []"
  shows "\<exists>lst w'. getaddrinfo r (Some host) (Some serv) None w = Some (Ret (0, Some lst, w'))
    \<and> map seen lst = concat (map (\<lambda>(family, a). [(family, SOCK_STREAM, Some (inet_sa family a p1)),
        (family, SOCK_DGRAM, Some (inet_sa family a p2))]) (found r host AF_INET6 @ found r host AF_INET))"
proof -
  let ?found = "found r host AF_INET6 @ found r host AF_INET"
  let ?l = "map (case_prod (entry default_hints)) ?found"
  have hints: "\<not> wants_canon default_hints (Some host)" "ai_family default_hints = AF_UNSPEC" "ai_socktype default_hints = 0"
    by (simp_all add: wants_canon_def default_hints_def set_flags_def)
  obtain w2 where "plenty w2"
    and s: "ga_search r default_hints (Some host) 2 [(host, AF_INET6), (host, AF_INET)] [] None w = Some (0, ?l, None, w2)"
    using ga_search_both [OF assms(1,3,2) hints(1,2)] by blast
  have "fresh default_hints (entry default_hints f a)" if "(f, a) \<in> set ?found" for f a
  proof -
    have "right_size f a"
      using found_right [OF assms(1)] that by auto
    then show ?thesis
      unfolding fresh_def by blast
  qed
  then have fresh: "list_all (\<lambda>ai. entry_ok ai \<and> ai_flags ai = AI_CLONE \<and> ai_socktype ai = 0) ?l"
    using fresh_clone [of default_hints] hints(3) unfolding list_all_iff by fastforce
  have l: "?l \<noteq> []"
    using assms(8) by (metis map_is_Nil_conv)
  have calls: "serv_calls r default_hints serv = Some [(p1, SOCK_STREAM), (p2, SOCK_DGRAM)]"
    using assms(4-7) by (cases serv) (simp_all add: serv_calls_def first_is_def default_hints_def)
  obtain lst' w' where serv: "ga_serv r ?l default_hints serv w2 = Some (0, lst', w')"
      "map seen lst' = concat (map (\<lambda>ai. map (seen_with ai) [(SOCK_STREAM, p1), (SOCK_DGRAM, p2)]) ?l)"
    using ga_serv_both [OF fresh l \<open>plenty w2\<close> calls] by blast
  have "\<And>x. x \<in> set ?found \<Longrightarrow> map (seen_with (case_prod (entry default_hints) x)) [(SOCK_STREAM, p1), (SOCK_DGRAM, p2)]
      = (\<lambda>(family, a). [(family, SOCK_STREAM, Some (inet_sa family a p1)), (family, SOCK_DGRAM, Some (inet_sa family a p2))]) x"
    using found_right [OF assms(1)] seen_with_entry by fastforce
  then have "map seen lst' = concat (map (\<lambda>(family, a). [(family, SOCK_STREAM, Some (inet_sa family a p1)),
        (family, SOCK_DGRAM, Some (inet_sa family a p2))]) ?found)"
    unfolding serv(2) map_map o_def by (intro arg_cong [where f = concat] map_cong) auto
  moreover have "getaddrinfo r (Some host) (Some serv) None w = Some (Ret (0, Some lst', w'))"
    using assms(3,4) s serv(1) l by (intro getaddrinfo_unspec [where hints = default_hints])
      (simp_all add: plain_name_def default_hints_def)
  ultimately show ?thesis
    by blast
qed

theorem getaddrinfo_host_witness:
  "\<exists>lst w'. getaddrinfo a_resolver (Some ''www'') (Some ''daytime'') None a_world = Some (Ret (0, Some lst, w'))
    \<and> map seen lst = concat (map (\<lambda>(family, a). [(family, SOCK_STREAM, Some (inet_sa family a 0x0D00)),
        (family, SOCK_DGRAM, Some (inet_sa family a 0x0D00))])
        [(AF_INET6, replicate 15 0 @ [1]), (AF_INET, [10, 0, 0, 1]), (AF_INET, [10, 0, 0, 2])])"
proof -
  have serv: "\<not> isdigit (hd ''daytime'')" "getservbyname a_resolver ''daytime'' ''tcp'' = Some 0x0D00"
      "getservbyname a_resolver ''daytime'' ''udp'' = Some 0x0D00"
    by (simp_all add: isdigit_def a_resolver_def)
  have name: "plain_name ''www''" "plenty a_world" "''daytime'' \<noteq> []"
    by (simp_all add: plain_name_def first_is_def isdigit_def unix_request_def a_world_def)
  have fnd: "found a_resolver ''www'' AF_INET6 @ found a_resolver ''www'' AF_INET
      = [(AF_INET6, replicate 15 0 @ [1]), (AF_INET, [10, 0, 0, 1]), (AF_INET, [10, 0, 0, 2])]"
    by (simp add: found_def a_resolver_def host6_def host4_def family_defs)
  have "found a_resolver ''www'' AF_INET6 @ found a_resolver ''www'' AF_INET \<noteq> []"
    unfolding fnd by simp
  from getaddrinfo_host [OF a_resolver_ok name(2,1,3) serv this] show ?thesis
    unfolding fnd .
qed

end
