(* ===== verification/Gai_Names.thy ===== *)
theory Gai_Names
  imports Gai_Props
begin

unbundle bit_operations_syntax

text \<open>
  Names and numbers: what \<^verbatim>\<open>getnameinfo\<close> writes in numeric form, \<^verbatim>\<open>getaddrinfo\<close> reads back. The
  address part rests on the address text interfaces of \<^verbatim>\<open>inet_ntop\<close> and \<^verbatim>\<open>inet_pton\<close>.
\<close>

section \<open>The texts\<close>

lemma digits_literal: "digits = ''0123456789''"
  by (simp add: digits_def)

lemma first_is_append: "s \<noteq> [] \<Longrightarrow> first_is P (s @ t) = first_is P s"
  by (cases s) (simp_all add: first_is_def)

lemma first_is_all: "s \<noteq> [] \<Longrightarrow> \<forall>c\<in>set s. P c \<Longrightarrow> first_is P s"
  by (cases s) (simp_all add: first_is_def)

lemma first_is_mono: "first_is P s \<Longrightarrow> (\<And>c. P c \<Longrightarrow> Q c) \<Longrightarrow> first_is Q s"
  by (cases s) (simp_all add: first_is_def)

lemma isdigit_isxdigit: "isdigit c \<Longrightarrow> isxdigit c"
  unfolding isdigit_def isxdigit_def by (erule subsetD [rotated]) simp

lemma show_dec_isdigit: "\<forall>c\<in>set (show_dec n). isdigit c"
  using show_dec_digits [of n] unfolding digits_literal isdigit_def by blast

lemma show_dec_nonempty [simp]: "show_dec n \<noteq> []"
  by (simp add: show_dec_def)

lemma first_is_show_dec: "first_is isdigit (show_dec n @ t)"
  using first_is_append [of "show_dec n"] first_is_all [OF _ show_dec_isdigit] by simp

lemma atoi_show_dec: "n < 2147483648 \<Longrightarrow> atoi (show_dec n) = Some n"
proof -
  have all: "takeWhile isdigit (show_dec n) = show_dec n"
    using show_dec_isdigit [of n] unfolding takeWhile_eq_all_conv .
  assume "n < 2147483648"
  then show ?thesis
    using value_show_dec [of n] unfolding atoi_def all digits_literal by simp
qed

lemma first_is_dotted: "length a = 4 \<Longrightarrow> first_is isdigit (dotted a)"
  by (elim length4_cases) (simp add: first_is_show_dec)

lemma word_nat_back: "of_nat (unat w) = (w :: 'a :: len word)"
  by simp

lemma htons_ntohs: "htons le (ntohs le p) = p"
proof -
  have "net_bytes 2 (ntohs le p) = host_bytes le 2 (unat p)"
    using host_bytes_val [of False "host_bytes le 2 (unat p)"] by (simp add: ntohs_def)
  moreover have "unat p < 2 ^ LENGTH(16)"
    by (rule unsigned_less)
  then have "unat p < 256 ^ 2"
    by simp
  ultimately show ?thesis
    unfolding htons_def by (simp only: host_val_bytes mod_less word_nat_back)
qed

text \<open>IPv6 text starts with a hex digit or a colon and has a colon, so it is no dotted quad.\<close>

lemma octet_no_colon: "octet_ok p \<Longrightarrow> CHR '':'' \<notin> set p"
proof -
  have "CHR '':'' \<notin> set digits"
    by (simp add: digits_literal)
  then show "octet_ok p \<Longrightarrow> CHR '':'' \<notin> set p"
    by (auto simp only: octet_ok_def)
qed

lemma in_join_with: "c \<in> set (join_with d ps) \<Longrightarrow> c = d \<or> (\<exists>p\<in>set ps. c \<in> set p)"
  by (induction d ps rule: join_with.induct) auto

lemma dotted_quad_no_colon:
  assumes "dotted_quad s = Some a"
  shows "CHR '':'' \<notin> set s"
proof
  assume "CHR '':'' \<in> set s"
  then have "CHR '':'' \<in> set (join_with CHR ''.'' (split_on CHR ''.'' s))"
    by (simp add: join_split)
  then obtain p where "p \<in> set (split_on CHR ''.'' s)" "CHR '':'' \<in> set p"
    by (auto dest: in_join_with)
  moreover have "list_all octet_ok (split_on CHR ''.'' s)"
    using assms unfolding dotted_quad_def Let_def by (simp split: if_split_asm)
  ultimately show False
    using octet_no_colon unfolding list_all_iff by blast
qed

lemma first_is_groups_join: "ws \<noteq> [] \<Longrightarrow> first_is isxdigit (groups_join ws @ t)"
proof (cases ws)
  case (Cons w vs)
  have "set lower_digits \<subseteq> set ''0123456789abcdefABCDEF''"
    by (simp add: lower_digits_def)
  then have "\<forall>c\<in>set (show_hex w). isxdigit c"
    using show_hex_lower [of w] unfolding isxdigit_def by blast
  then have "first_is isxdigit (show_hex w @ u)" for u
    using first_is_append [of "show_hex w"] first_is_all [of "show_hex w"] by simp
  then show ?thesis
    using Cons by (cases vs) (simp_all add: groups_join_def)
qed simp

lemma colon_groups_join: "2 \<le> length ws \<Longrightarrow> CHR '':'' \<in> set (groups_join ws)"
  by (cases ws; cases "tl ws") (auto simp: groups_join_def)

lemma text6_shape:
  assumes "length a = 16"
  shows "CHR '':'' \<in> set (text6 a)" "first_is (\<lambda>c. isxdigit c \<or> c = CHR '':'') (text6 a)"
proof -
  have *: "first_is (\<lambda>c. isxdigit c \<or> c = CHR '':'') s" if "first_is isxdigit s" for s
    using that by (cases s) (simp_all add: first_is_def)
  have "CHR '':'' \<in> set (text6 a) \<and> first_is (\<lambda>c. isxdigit c \<or> c = CHR '':'') (text6 a)"
    using assms
  proof (cases rule: text6_cases)
    case (full ns)
    then have "ns \<noteq> []" "2 \<le> length ns"
      by auto
    then show ?thesis
      using full(1) * [of "groups_join ns"] first_is_groups_join [of ns "[]"] colon_groups_join [of ns] by simp
  next
    case (run P Q m)
    then show ?thesis
      using * first_is_groups_join [of P "'':'' @ CHR '':'' # groups_join Q"]
      by (cases "P = []") (simp_all add: groups_join_def [of "[]"] first_is_def)
  qed (simp add: first_is_def)
  then show "CHR '':'' \<in> set (text6 a)" "first_is (\<lambda>c. isxdigit c \<or> c = CHR '':'') (text6 a)"
    by simp_all
qed

section \<open>Numeric hosts and ports\<close>

lemma numeric4_dotted: "4 \<le> length (stack r) \<Longrightarrow> length a = 4 \<Longrightarrow> numeric4 r (dotted a) = Some (Some a)"
  by (simp add: numeric4_eq first_is_dotted dotted_quad_dotted)

lemma numeric_text6:
  assumes "4 \<le> length (stack r)" and "length a = 16"
  shows "numeric4 r (text6 a) = Some None" "numeric6 r (text6 a) = Some (Some a)"
proof -
  show "numeric4 r (text6 a) = Some None"
    using assms(1) text6_shape(1) [OF assms(2)] dotted_quad_no_colon [of "text6 a"]
    by (cases "dotted_quad (text6 a)") (auto simp: numeric4_eq)
  show "numeric6 r (text6 a) = Some (Some a)"
    using assms text6_shape [OF assms(2)] inet_pton6_text6 [of a "take 4 (stack r)" "replicate 16 0"]
    by (simp add: numeric6_def inet_pton_def family_defs strchr_None)
qed

text \<open>A numeric host gives one structure, whichever of the two searches it belongs to.\<close>

lemma ga_search_numeric:
  assumes "4 \<le> length (stack r)" and "right_size family a" and "plenty w" and "ai_family hints = AF_UNSPEC"
    and "host = (if family = AF_INET then dotted a else text6 a)"
  shows "\<exists>w1. ga_search r hints (Some host) 2 [(host, AF_INET6), (host, AF_INET)] [] None w
    = Some (0, [entry hints family a], None, w1)"
proof -
  obtain w1 where "ga_aistruct [] hints (Raw a) family w = Some (0, [entry hints family a], w1)"
    using ga_aistruct_right [OF assms(2), of "[]" hints w] assms(3) by auto
  then show ?thesis
    using assms numeric4_dotted [OF assms(1)] numeric_text6 [OF assms(1)]
    by (auto simp: right_size_def take_numeric_def family_defs sock_type_defs)
qed

lemma ga_serv_number:
  assumes "ai_socktype hints \<noteq> 0" and "right_size family a" and "n < 65536"
  shows "ga_serv r [entry hints family a] hints (show_dec n) w
    = Some (0, [with_port (htons (byte_order r) n) (ai_socktype hints) (entry hints family a)], w)"
proof -
  have "fresh hints (entry hints family a)"
    using assms(2) fresh_def by blast
  then have "entry_ok (entry hints family a)" "ai_flags (entry hints family a) = 0"
      "ai_socktype (entry hints family a) = ai_socktype hints"
    using fresh_clone assms(1) by auto
  moreover have "serv_calls r hints (show_dec n) = Some [(htons (byte_order r) n, ai_socktype hints)]"
    using assms(1,3) first_is_show_dec [of n "[]"] by (simp add: serv_calls_def atoi_show_dec)
  ultimately show ?thesis
    by (simp add: ga_serv_def serv_port_def fill_port_eq set_flags_def)
qed

lemma sock_set_port_inet: "sock_set_port (inet_sa family a p) (uint q) = inet_sa family a q"
  by (simp add: sock_set_port_def inet_sa_def)

lemma entry_addr: "right_size family a \<Longrightarrow> ai_addr (entry hints family a) = Some (inet_sa family a 0) \<and> ai_family (entry hints family a) = family"
  by (auto simp: right_size_def entry_def ga_sockaddr_def bytes_at_def new_ai_def inet_sa_def family_defs)

section \<open>\<^verbatim>\<open>getnameinfo\<close> in numeric form\<close>

lemma snprintf_whole:
  assumes "length s < length buf" and "CHR 0x00 \<notin> set s"
  shows "\<exists>buf'. snprintf buf (length buf) s = Some buf' \<and> cstr buf' = s"
  using assms by (simp add: snprintf_def strcpy_def)

lemma getnameinfo_numeric:
  assumes "right_size family a" and "46 \<le> length host" and "6 \<le> length serv"
    and "flags = NI_NUMERICHOST OR NI_NUMERICSERV"
  shows "\<exists>host' serv'. getnameinfo r (inet_sa family a p) host (length host) serv (length serv) flags = Some (0, host', serv')
    \<and> cstr host' = (if family = AF_INET then dotted a else text6 a) \<and> cstr serv' = show_dec (ntohs (byte_order r) p)"
proof -
  have flags: "set_flags flags NI_NUMERICHOST" "set_flags flags NI_NUMERICSERV"
    by (simp_all add: assms(4) set_flags_def NI_NUMERICHOST_def NI_NUMERICSERV_def)
  obtain serv' where serv: "snprintf serv (length serv) (show_dec (ntohs (byte_order r) p)) = Some serv'"
      "cstr serv' = show_dec (ntohs (byte_order r) p)"
    using snprintf_whole [of "show_dec (ntohs (byte_order r) p)" serv] length_show_port [of "byte_order r" p] assms(3) by auto
  have gs: "gn_serv r serv (length serv) p flags = Some serv'"
    using serv(1) flags assms(3) by (auto simp: gn_serv_def Let_def)
  obtain host' where host: "inet_ntop family a host (length host) = Some (Inr host')"
      "cstr host' = (if family = AF_INET then dotted a else text6 a)"
  proof (cases "family = AF_INET")
    case True
    then show ?thesis
      using that assms(1,2) length_dotted4 [of a] nul_notin_dotted4 [of a]
      by (simp add: right_size_def inet_ntop_def inet_ntop4_def strcpy_Some Let_def family_defs)
  next
    case False
    then show ?thesis
      using that assms(1,2) length_text6 [of a] NUL_text6 [of a]
      by (simp add: right_size_def inet_ntop_def inet_ntop6_eq strcpy_Some family_defs)
  qed
  have gh: "gn_host r host (length host) a family flags = Some (0, host')"
    using host(1) flags assms(2) by (auto simp: gn_host_def Let_def)
  show ?thesis
    using gs gh host(2) serv(2) assms(1)
    by (auto simp: getnameinfo_def inet_sa_def gn_ipv46_def right_size_def family_defs)
qed

section \<open>Properties\<close>

text \<open>
  (C17) \<^verbatim>\<open>getaddrinfo\<close> undoes \<^verbatim>\<open>getnameinfo\<close>: the numeric host and service of an IPv4 or IPv6 socket
  address, given back to \<^verbatim>\<open>getaddrinfo\<close> with a socket type, yield exactly one structure, with that
  type and the same socket address.
\<close>

theorem nameinfo_round_trip:
  assumes "right_size family a" and "46 \<le> length host" and "6 \<le> length serv" and "resolver_ok r" and "plenty w"
    and "socktype \<noteq> 0"
  shows "\<exists>host' serv' ai w'.
    getnameinfo r (inet_sa family a p) host (length host) serv (length serv) (NI_NUMERICHOST OR NI_NUMERICSERV) = Some (0, host', serv')
    \<and> getaddrinfo r (Some (cstr host')) (Some (cstr serv')) (Some (default_hints\<lparr>ai_socktype := socktype\<rparr>)) w
        = Some (Ret (0, Some [ai], w'))
    \<and> seen ai = (family, socktype, Some (inet_sa family a p))"
proof -
  let ?hints = "default_hints\<lparr>ai_socktype := socktype\<rparr>" and ?n = "ntohs (byte_order r) p"
  have stack: "4 \<le> length (stack r)"
    using assms(4) by (simp add: resolver_ok_def)
  have hints: "ai_family ?hints = AF_UNSPEC" "ai_flags ?hints = 0" "ai_socktype ?hints = socktype"
    by (simp_all add: default_hints_def)
  obtain host' serv' where gn: "getnameinfo r (inet_sa family a p) host (length host) serv (length serv)
      (NI_NUMERICHOST OR NI_NUMERICSERV) = Some (0, host', serv')"
      "cstr host' = (if family = AF_INET then dotted a else text6 a)" "cstr serv' = show_dec ?n"
    using getnameinfo_numeric [OF assms(1-3) refl, of r p] by blast
  obtain w1 where s: "ga_search r ?hints (Some (cstr host')) 2 [(cstr host', AF_INET6), (cstr host', AF_INET)] [] None w
      = Some (0, [entry ?hints family a], None, w1)"
    using ga_search_numeric [OF stack assms(1,5) hints(1) gn(2)] by blast
  have v: "ga_serv r [entry ?hints family a] ?hints (cstr serv') w1 = Some (0, [with_port p socktype (entry ?hints family a)], w1)"
    using ga_serv_number [of ?hints family a ?n r w1] assms(1,6) gn(3) ntohs_less hints(3) by (simp add: htons_ntohs)
  have host: "first_is (\<lambda>c. isxdigit c \<or> c = CHR '':'') (cstr host')"
    using gn(2) assms(1) text6_shape(2) [of a] first_is_mono [OF first_is_dotted] isdigit_isxdigit
    by (auto simp: right_size_def family_defs)
  have "cstr host' \<noteq> []" "\<not> unix_request (Some (cstr host'))"
    using host by (auto simp: unix_request_def) (simp_all add: first_is_def isxdigit_def)
  then have "getaddrinfo r (Some (cstr host')) (Some (cstr serv')) (Some ?hints) w
      = Some (Ret (0, Some [with_port p socktype (entry ?hints family a)], w1))"
    using hints s v gn(3) by (intro getaddrinfo_unspec [where hints = ?hints]) simp_all
  moreover have "seen (with_port p socktype (entry ?hints family a)) = (family, socktype, Some (inet_sa family a p))"
    using entry_addr [OF assms(1), of ?hints] by (simp add: seen_def with_port_def sock_set_port_inet)
  ultimately show ?thesis
    using gn(1) by blast
qed

theorem nameinfo_round_trip_witness:
  "\<exists>host' serv' ai w'.
    getnameinfo a_resolver (inet_sa AF_INET [10, 0, 0, 1] 0x5000) (replicate 46 CHR ''x'') (length (replicate 46 CHR ''x''))
      ''123456'' (length ''123456'') (NI_NUMERICHOST OR NI_NUMERICSERV) = Some (0, host', serv')
    \<and> getaddrinfo a_resolver (Some (cstr host')) (Some (cstr serv')) (Some (default_hints\<lparr>ai_socktype := SOCK_STREAM\<rparr>)) a_world
        = Some (Ret (0, Some [ai], w'))
    \<and> seen ai = (AF_INET, SOCK_STREAM, Some (inet_sa AF_INET [10, 0, 0, 1] 0x5000))"
  by (rule nameinfo_round_trip) (simp_all add: right_size_def a_resolver_ok a_world_def sock_type_defs)

end
