(* ===== verification/Sock_Open.thy ===== *)
theory Sock_Open
  imports Gai_Props
begin

text \<open>
  The functions of \<^verbatim>\<open>lib/\<close> that turn a host and a service name into an open socket: \<^verbatim>\<open>tcp_connect\<close>,
  \<^verbatim>\<open>tcp_listen\<close>, \<^verbatim>\<open>udp_client\<close>, \<^verbatim>\<open>udp_connect\<close>, \<^verbatim>\<open>udp_server\<close>, \<^verbatim>\<open>host_serv\<close> and their wrappers. They are
  clients of \<^verbatim>\<open>getaddrinfo\<close>, which is an argument \<open>look\<close>; what they rely on is the locale
  \<open>name_service\<close>, interpreted on the \<^verbatim>\<open>getaddrinfo\<close> of \<^verbatim>\<open>libgai\<close>. The kernel answers the \<open>i\<close>-th system
  call of the run; the descriptors of the process and the calls made are the state.
\<close>

section \<open>The kernel\<close>

record kernel =
  k_socket :: "nat \<Rightarrow> int set \<Rightarrow> int"
  k_ok :: "nat \<Rightarrow> bool"

datatype call =
    Socket addrinfo int
  | Connect int "sockaddr option" nat bool
  | Bind int "sockaddr option" nat bool
  | Listening int
  | Closed_fd int

record net =
  n_calls :: nat
  n_fds :: "int set"
  n_log :: "call list"

definition sys_socket :: "kernel \<Rightarrow> addrinfo \<Rightarrow> net \<Rightarrow> int \<times> net" where
  "sys_socket k ai n =
     (let fd = k_socket k (n_calls n) (n_fds n) in
      (fd, n\<lparr>n_calls := n_calls n + 1, n_log := n_log n @ [Socket ai fd],
             n_fds := (if fd < 0 then n_fds n else insert fd (n_fds n))\<rparr>))"

text \<open>A call that succeeds or fails, and what the log says of it.\<close>

definition sys_call :: "kernel \<Rightarrow> (bool \<Rightarrow> call list) \<Rightarrow> net \<Rightarrow> bool \<times> net" where
  "sys_call k log n =
     (let ok = k_ok k (n_calls n) in (ok, n\<lparr>n_calls := n_calls n + 1, n_log := n_log n @ log ok\<rparr>))"

text \<open>The wrappers \<^verbatim>\<open>Close\<close>, \<^verbatim>\<open>Setsockopt\<close> and \<^verbatim>\<open>Listen\<close>, which end the process on an error.\<close>

definition Close :: "kernel \<Rightarrow> int \<Rightarrow> net \<Rightarrow> net outcome" where
  "Close k fd n =
     (case sys_call k (\<lambda>ok. [Closed_fd fd]) n of (ok, n) \<Rightarrow>
        if ok then Ret (n\<lparr>n_fds := n_fds n - {fd}\<rparr>) else Exits ''close error'')"

definition Setsockopt :: "kernel \<Rightarrow> net \<Rightarrow> net outcome" where
  "Setsockopt k n = (case sys_call k (\<lambda>ok. []) n of (ok, n) \<Rightarrow> if ok then Ret n else Exits ''setsockopt error'')"

definition Listen :: "kernel \<Rightarrow> int \<Rightarrow> net \<Rightarrow> net outcome" where
  "Listen k fd n = (case sys_call k (\<lambda>ok. [Listening fd]) n of (ok, n) \<Rightarrow> if ok then Ret n else Exits ''listen error'')"

section \<open>The loop over the addresses\<close>

text \<open>
  The \<^verbatim>\<open>do\<close>-\<^verbatim>\<open>while\<close> loop all of them have: a socket for each structure until one can be used. What
  using it means is the argument \<open>attempt\<close>. The result is the descriptor and the structure the loop
  stopped at, or nothing when \<^verbatim>\<open>res\<close> has become a null pointer. The first pass dereferences \<^verbatim>\<open>res\<close>
  without a test.
\<close>

type_synonym attempt = "kernel \<Rightarrow> int \<Rightarrow> addrinfo \<Rightarrow> net \<Rightarrow> (bool \<times> net) outcome"

fun try_rest :: "attempt \<Rightarrow> kernel \<Rightarrow> addrinfo list \<Rightarrow> net \<Rightarrow> ((int \<times> addrinfo) option \<times> net) outcome" where
  "try_rest attempt k [] n = Ret (None, n)"
| "try_rest attempt k (ai # res) n =
     (case sys_socket k ai n of (fd, n) \<Rightarrow>
        if fd < 0 then try_rest attempt k res n
        else
          bind_outcome (attempt k fd ai n) (\<lambda>(ok, n).
            if ok then Ret (Some (fd, ai), n)
            else bind_outcome (Close k fd n) (\<lambda>n. try_rest attempt k res n)))"

definition try_each :: "attempt \<Rightarrow> kernel \<Rightarrow> addrinfo list \<Rightarrow> net \<Rightarrow> ((int \<times> addrinfo) option \<times> net) outcome option" where
  "try_each attempt k res n = (if res = [] then None else Some (try_rest attempt k res n))"

definition by_connect :: attempt where
  "by_connect k fd ai n = Ret (sys_call k (\<lambda>ok. [Connect fd (ai_addr ai) (ai_addrlen ai) ok]) n)"

definition by_bind :: attempt where
  "by_bind k fd ai n = Ret (sys_call k (\<lambda>ok. [Bind fd (ai_addr ai) (ai_addrlen ai) ok]) n)"

definition by_reuse_bind :: attempt where
  "by_reuse_bind k fd ai n =
     bind_outcome (Setsockopt k n) (\<lambda>n. Ret (sys_call k (\<lambda>ok. [Bind fd (ai_addr ai) (ai_addrlen ai) ok]) n))"

definition by_socket :: attempt where
  "by_socket k fd ai n = Ret (True, n)"

section \<open>The functions\<close>

type_synonym lookup =
  "string option \<Rightarrow> string option \<Rightarrow> addrinfo option \<Rightarrow> world \<Rightarrow> (nat \<times> addrinfo list option \<times> world) outcome option"

text \<open>\<^verbatim>\<open>bzero(&hints, sizeof(struct addrinfo))\<close> and the fields set after it.\<close>

definition hints_for :: "u32 \<Rightarrow> nat \<Rightarrow> nat \<Rightarrow> addrinfo" where
  "hints_for flags family socktype =
     \<lparr>ai_flags = flags, ai_family = family, ai_socktype = socktype, ai_protocol = 0, ai_addrlen = 0,
      ai_canonname = None, ai_addr = None\<rparr>"

text \<open>\<^verbatim>\<open>%s\<close> of a null pointer is undefined.\<close>

definition failure :: "string \<Rightarrow> string option \<Rightarrow> string option \<Rightarrow> string \<Rightarrow> 'a outcome option" where
  "failure name host serv rest =
     (case (host, serv) of
        (Some h, Some s) \<Rightarrow> Some (Exits (name @ '' error for '' @ h @ '', '' @ s @ rest))
      | _ \<Rightarrow> None)"

text \<open>
  The frame: resolve, loop, do the rest with the structure the loop stopped at, free the list. The
  error messages carry the name of the function.
\<close>

definition open_sock ::
  "lookup \<Rightarrow> kernel \<Rightarrow> string \<Rightarrow> addrinfo \<Rightarrow> attempt \<Rightarrow> (int \<Rightarrow> addrinfo \<Rightarrow> world \<Rightarrow> net \<Rightarrow> ('a \<times> world \<times> net) outcome) \<Rightarrow>
   string option \<Rightarrow> string option \<Rightarrow> world \<Rightarrow> net \<Rightarrow> (int \<times> 'a \<times> world \<times> net) outcome option" where
  "open_sock look k name hints attempt finish host serv w n =
     (case look host serv (Some hints) w of
        None \<Rightarrow> None
      | Some (Exits m) \<Rightarrow> Some (Exits m)
      | Some Blocks \<Rightarrow> Some Blocks
      | Some (Ret (rc, res, w)) \<Rightarrow>
          if rc \<noteq> 0 then failure name host serv ('': '' @ gai_strerror rc)
          else
            (case res of
               None \<Rightarrow> None
             | Some ressave \<Rightarrow>
                 (case try_each attempt k ressave n of
                    None \<Rightarrow> None
                  | Some (Exits m) \<Rightarrow> Some (Exits m)
                  | Some Blocks \<Rightarrow> Some Blocks
                  | Some (Ret (None, n)) \<Rightarrow> failure name host serv []
                  | Some (Ret (Some (fd, ai), n)) \<Rightarrow>
                      Some (bind_outcome (finish fd ai w n)
                        (\<lambda>(x, w, n). Ret (fd, x, freeaddrinfo ressave w, n))))))"

abbreviation no_more :: "int \<Rightarrow> addrinfo \<Rightarrow> world \<Rightarrow> net \<Rightarrow> (unit \<times> world \<times> net) outcome" where
  "no_more fd ai w n \<equiv> Ret ((), w, n)"

definition tcp_connect ::
  "lookup \<Rightarrow> kernel \<Rightarrow> string option \<Rightarrow> string option \<Rightarrow> world \<Rightarrow> net \<Rightarrow> (int \<times> unit \<times> world \<times> net) outcome option" where
  "tcp_connect look k =
     open_sock look k ''tcp_connect'' (hints_for 0 AF_UNSPEC SOCK_STREAM) by_connect no_more"

text \<open>\<^verbatim>\<open>*addrlenp\<close> is part of the result of the servers.\<close>

definition tcp_listen :: "lookup \<Rightarrow> kernel \<Rightarrow> string option \<Rightarrow> string option \<Rightarrow> world \<Rightarrow> net \<Rightarrow> (int \<times> nat \<times> world \<times> net) outcome option" where
  "tcp_listen look k =
     open_sock look k ''tcp_listen'' (hints_for AI_PASSIVE AF_UNSPEC SOCK_STREAM) by_reuse_bind
       (\<lambda>fd ai w n. bind_outcome (Listen k fd n) (\<lambda>n. Ret (ai_addrlen ai, w, n)))"

definition udp_client ::
  "lookup \<Rightarrow> kernel \<Rightarrow> string option \<Rightarrow> string option \<Rightarrow> world \<Rightarrow> net \<Rightarrow>
   (int \<times> (sockaddr option \<times> nat) \<times> world \<times> net) outcome option" where
  "udp_client look k =
     open_sock look k ''udp_client'' (hints_for 0 AF_UNSPEC SOCK_DGRAM) by_socket
       (\<lambda>fd ai w n. case alloc w of (ok, w) \<Rightarrow>
          if ok then Ret ((ai_addr ai, ai_addrlen ai), w, n) else Exits ''malloc error'')"

definition udp_connect ::
  "lookup \<Rightarrow> kernel \<Rightarrow> string option \<Rightarrow> string option \<Rightarrow> world \<Rightarrow> net \<Rightarrow> (int \<times> unit \<times> world \<times> net) outcome option" where
  "udp_connect look k =
     open_sock look k ''udp_connect'' (hints_for 0 AF_UNSPEC SOCK_DGRAM) by_connect no_more"

definition udp_server :: "lookup \<Rightarrow> kernel \<Rightarrow> string option \<Rightarrow> string option \<Rightarrow> world \<Rightarrow> net \<Rightarrow> (int \<times> nat \<times> world \<times> net) outcome option" where
  "udp_server look k =
     open_sock look k ''udp_server'' (hints_for AI_PASSIVE AF_UNSPEC SOCK_DGRAM) by_bind
       (\<lambda>fd ai w n. Ret (ai_addrlen ai, w, n))"

text \<open>\<^verbatim>\<open>host_serv\<close> hides the error code; its wrapper names missing arguments.\<close>

definition host_serv :: "lookup \<Rightarrow> string option \<Rightarrow> string option \<Rightarrow> nat \<Rightarrow> nat \<Rightarrow> world \<Rightarrow> (addrinfo list option \<times> world) outcome option" where
  "host_serv look host serv family socktype w =
     map_option (\<lambda>out. bind_outcome out (\<lambda>(rc, res, w). Ret (if rc \<noteq> 0 then None else res, w)))
       (look host serv (Some (hints_for AI_CANONNAME family socktype)) w)"

definition Host_serv :: "lookup \<Rightarrow> string option \<Rightarrow> string option \<Rightarrow> nat \<Rightarrow> nat \<Rightarrow> world \<Rightarrow> (addrinfo list option \<times> world) outcome option" where
  "Host_serv look host serv family socktype w =
     map_option (\<lambda>out. bind_outcome out (\<lambda>(rc, res, w).
         if rc \<noteq> 0
         then Exits (''host_serv error for '' @ (case host of None \<Rightarrow> ''(no hostname)'' | Some h \<Rightarrow> h) @ '', ''
                @ (case serv of None \<Rightarrow> ''(no service name)'' | Some s \<Rightarrow> s) @ '': '' @ gai_strerror rc)
         else Ret (res, w)))
       (look host serv (Some (hints_for AI_CANONNAME family socktype)) w)"

section \<open>What the functions rely on\<close>

text \<open>A name service answers, accounts for the memory of its list and returns no empty list.\<close>

locale name_service =
  fixes look :: lookup
    and asked :: "string option \<Rightarrow> string option \<Rightarrow> bool"
  assumes answers: "asked host serv \<Longrightarrow>
    \<exists>out. look host serv (Some hints) w = Some out \<and> accounted w (losable (Some hints) host serv) out"

text \<open>An attempt to use a socket opens and closes nothing and logs \<open>used\<close>.\<close>

locale socket_user =
  fixes attempt :: attempt
    and used :: "int \<Rightarrow> addrinfo \<Rightarrow> bool \<Rightarrow> call list"
  assumes keeps: "attempt k fd ai n = Ret (ok, n') \<Longrightarrow> n_fds n' = n_fds n \<and> n_log n' = n_log n @ used fd ai ok"
    and ends: "attempt k fd ai n \<noteq> Blocks"
    and succeeds: "\<forall>i. k_ok k i \<Longrightarrow> \<exists>n'. attempt k fd ai n = Ret (True, n')"

text \<open>\<^verbatim>\<open>socket\<close> returns an error or a descriptor that is not open.\<close>

definition kernel_ok :: "kernel \<Rightarrow> bool" where
  "kernel_ok k \<longleftrightarrow> (\<forall>i fds. k_socket k i fds < 0 \<or> k_socket k i fds \<notin> fds)"

definition kernel_well :: "kernel \<Rightarrow> bool" where
  "kernel_well k \<longleftrightarrow> (\<forall>i. k_ok k i) \<and> (\<forall>i fds. 0 \<le> k_socket k i fds)"

text \<open>The calls for an address that could not be used.\<close>

definition skipped :: "(int \<Rightarrow> addrinfo \<Rightarrow> bool \<Rightarrow> call list) \<Rightarrow> addrinfo \<Rightarrow> call list \<Rightarrow> bool" where
  "skipped used ai cs \<longleftrightarrow>
     (\<exists>fd. cs = (if fd < 0 then [Socket ai fd] else Socket ai fd # used fd ai False @ [Closed_fd fd]))"

text \<open>
  A run of the loop that found a usable address: the ones before it were tried and given up, their
  sockets closed again.
\<close>

definition found_first ::
  "(int \<Rightarrow> addrinfo \<Rightarrow> bool \<Rightarrow> call list) \<Rightarrow> addrinfo list \<Rightarrow> net \<Rightarrow> int \<Rightarrow> addrinfo \<Rightarrow> net \<Rightarrow> bool" where
  "found_first used res n fd ai n' \<longleftrightarrow>
     (\<exists>pre post css. res = pre @ ai # post \<and> list_all2 (skipped used) pre css
        \<and> n_log n' = n_log n @ concat css @ Socket ai fd # used fd ai True)
     \<and> 0 \<le> fd \<and> fd \<notin> n_fds n \<and> n_fds n' = insert fd (n_fds n)"

context socket_user
begin

lemma try_rest_cases:
  "kernel_ok k \<Longrightarrow> try_rest attempt k res n = Ret (x, n') \<Longrightarrow>
    (case x of
       Some (fd, ai) \<Rightarrow> found_first used res n fd ai n'
     | None \<Rightarrow> n_fds n' = n_fds n \<and> (\<exists>css. list_all2 (skipped used) res css \<and> n_log n' = n_log n @ concat css))"
proof (induction res arbitrary: n)
  case (Cons ai res)
  define fd where "fd = k_socket k (n_calls n) (n_fds n)"
  obtain n1 where n1: "sys_socket k ai n = (fd, n1)" "n_log n1 = n_log n @ [Socket ai fd]"
      "n_fds n1 = (if fd < 0 then n_fds n else insert fd (n_fds n))"
    by (simp add: sys_socket_def fd_def Let_def)
  have fresh: "fd < 0 \<or> fd \<notin> n_fds n"
    using Cons.prems(1) by (simp add: kernel_ok_def fd_def)
  have skip: ?case if n2: "try_rest attempt k res n2 = Ret (x, n')" "n_fds n2 = n_fds n" "n_log n2 = n_log n @ cs"
      and cs: "skipped used ai cs" for n2 cs
  proof (cases x)
    case None
    then obtain css where "n_fds n' = n_fds n" "list_all2 (skipped used) res css" "n_log n' = n_log n @ cs @ concat css"
      using Cons.IH [OF Cons.prems(1) n2(1)] n2(2,3) by auto
    then show ?thesis
      using None cs by (auto intro!: exI [of _ "cs # css"])
  next
    case (Some p)
    obtain c a where p: "p = (c, a)"
      by (cases p)
    obtain pre post css where "res = pre @ a # post" "list_all2 (skipped used) pre css"
        "n_log n' = n_log n @ cs @ concat css @ Socket a c # used c a True" "0 \<le> c" "c \<notin> n_fds n" "n_fds n' = insert c (n_fds n)"
      using Cons.IH [OF Cons.prems(1) n2(1)] n2(2,3) Some p by (auto simp: found_first_def)
    then show ?thesis
      unfolding Some p option.case prod.case found_first_def using cs
      by (intro conjI exI [of _ "ai # pre"] exI [of _ post] exI [of _ "cs # css"]) simp_all
  qed
  show ?case
  proof (cases "fd < 0")
    case True
    then show ?thesis
      using Cons.prems(2) n1 by (intro skip [of n1 "[Socket ai fd]"]) (auto simp: skipped_def)
  next
    case False
    then obtain ok n2 where n2: "attempt k fd ai n1 = Ret (ok, n2)"
      using Cons.prems(2) n1(1) by (cases "attempt k fd ai n1") auto
    note k = keeps [OF n2]
    show ?thesis
    proof (cases ok)
      case True
      then have x: "x = Some (fd, ai)" "n' = n2"
        using Cons.prems(2) False n1(1) n2 by auto
      show ?thesis
        unfolding x option.case prod.case found_first_def using False True n1 k fresh
        by (intro conjI exI [of _ "[]"] exI [of _ res]) auto
    next
      case fail: False
      obtain n3 where n3: "Close k fd n2 = Ret n3" "try_rest attempt k res n3 = Ret (x, n')"
        using Cons.prems(2) False fail n1(1) n2 by (cases "Close k fd n2") auto
      have "n_log n3 = n_log n2 @ [Closed_fd fd]" "n_fds n3 = n_fds n2 - {fd}"
        using n3(1) by (auto simp: Close_def sys_call_def Let_def split: if_splits)
      then show ?thesis
        using n3(2) n1(2,3) k fresh False fail
        by (intro skip [of n3 "Socket ai fd # used fd ai False @ [Closed_fd fd]"]) (auto simp: skipped_def)
    qed
  qed
qed simp

lemma try_rest_ends: "try_rest attempt k res n \<noteq> Blocks"
proof (induction res arbitrary: n)
  case (Cons ai res)
  obtain fd n1 where n1: "sys_socket k ai n = (fd, n1)"
    by (cases "sys_socket k ai n")
  show ?case
  proof (cases "attempt k fd ai n1")
    case (Ret p)
    obtain ok n2 where p: "p = (ok, n2)"
      by (cases p)
    have "Close k fd n2 \<noteq> Blocks"
      by (simp add: Close_def split_def)
    then show ?thesis
      using n1 Ret p Cons.IH by (cases "Close k fd n2") auto
  qed (use n1 Cons.IH ends in auto)
qed simp

lemma try_rest_first:
  assumes "kernel_well k"
  shows "\<exists>fd n'. try_rest attempt k (ai # res) n = Ret (Some (fd, ai), n')"
proof -
  obtain fd n1 where n1: "sys_socket k ai n = (fd, n1)" "\<not> fd < 0"
    using assms by (simp add: sys_socket_def kernel_well_def Let_def not_less)
  then show ?thesis
    using succeeds [of k fd ai n1] assms by (auto simp: kernel_well_def)
qed

end

text \<open>
  What it means that a socket has been opened for the list \<open>res\<close>: its first usable address was found,
  \<open>last\<close> was called with the descriptor, nothing else is open that was not open before, and \<open>extra\<close>
  blocks of memory are the caller's.
\<close>

definition opened ::
  "(int \<Rightarrow> addrinfo \<Rightarrow> bool \<Rightarrow> call list) \<Rightarrow> (int \<Rightarrow> call list) \<Rightarrow> nat \<Rightarrow> (addrinfo \<Rightarrow> 'a) \<Rightarrow> addrinfo list \<Rightarrow>
   world \<Rightarrow> net \<Rightarrow> int \<times> 'a \<times> world \<times> net \<Rightarrow> bool" where
  "opened used last_calls extra given res w n result \<longleftrightarrow>
     (case result of (fd, x, w', n') \<Rightarrow>
        (\<exists>ai n1. found_first used res n fd ai n1 \<and> n_log n' = n_log n1 @ last_calls fd \<and> n_fds n' = n_fds n1
           \<and> x = given ai \<and> complete ai)
        \<and> live w' = live w + extra)"

text \<open>
  What a caller of one of the functions can rely on, either name being a null pointer or not: there is no
  undefined behaviour with two names; a socket is returned only when the name service found addresses, and
  then as \<open>good\<close> says; it is returned when addresses were found and all system calls and allocations
  succeed; and when the name service reports an error, the message for it is undefined behaviour exactly
  when one of the names is a null pointer.
\<close>

definition opens ::
  "lookup \<Rightarrow> kernel \<Rightarrow> addrinfo \<Rightarrow> string option \<Rightarrow> string option \<Rightarrow> world \<Rightarrow> (addrinfo list \<Rightarrow> 'a \<Rightarrow> bool) \<Rightarrow>
   'a outcome option \<Rightarrow> bool" where
  "opens look k hints host serv w good call \<longleftrightarrow>
     (call = None \<longrightarrow> host = None \<or> serv = None)
     \<and> (\<forall>result. call = Some (Ret result) \<longrightarrow>
          (\<exists>res w1. look host serv (Some hints) w = Some (Ret (0, Some res, w1)) \<and> good res result))
     \<and> (\<forall>res w1. look host serv (Some hints) w = Some (Ret (0, Some res, w1)) \<longrightarrow>
          kernel_well k \<and> (\<forall>i. alloc_ok w1 i) \<longrightarrow> (\<exists>result. call = Some (Ret result)))
     \<and> (\<forall>rc w1. look host serv (Some hints) w = Some (Ret (rc, None, w1)) \<longrightarrow>
          (call = None \<longleftrightarrow> host = None \<or> serv = None))"

locale opener = name_service look asked + socket_user attempt used
  for look :: lookup and asked and attempt :: attempt and used +
  fixes finish :: "kernel \<Rightarrow> int \<Rightarrow> addrinfo \<Rightarrow> world \<Rightarrow> net \<Rightarrow> ('a \<times> world \<times> net) outcome"
    and extra :: nat
    and last_calls :: "int \<Rightarrow> call list"
    and given :: "addrinfo \<Rightarrow> 'a"
  assumes finishes: "finish k fd ai w n = Ret (x, w', n') \<Longrightarrow>
      n_fds n' = n_fds n \<and> n_log n' = n_log n @ last_calls fd \<and> live w' = live w + extra \<and> x = given ai"
    and finish_well: "\<forall>i. k_ok k i \<Longrightarrow> \<forall>i. alloc_ok w i \<Longrightarrow> \<exists>p. finish k fd ai w n = Ret p"
begin

lemma open_list:
  fixes k host serv name hints w n
  defines "call \<equiv> open_sock look k name hints attempt (finish k) host serv w n"
  assumes "kernel_ok k" and "look host serv (Some hints) w = Some (Ret (0, Some res, w1))"
    and "accounted w lost (Ret (0, Some res, w1))"
  shows "(call = None \<longrightarrow> host = None \<or> serv = None)
    \<and> (\<forall>result. call = Some (Ret result) \<longrightarrow> opened used last_calls extra given res w n result)
    \<and> (kernel_well k \<and> (\<forall>i. alloc_ok w1 i) \<longrightarrow> (\<exists>result. call = Some (Ret result)))"
proof -
  have res: "res \<noteq> []" "list_all complete res" "live w1 = live w + total_blocks res"
    using assms(4) by (auto simp: accounted_def)
  have frame: "call =
      (case try_rest attempt k res n of
         Exits m \<Rightarrow> Some (Exits m)
       | Blocks \<Rightarrow> Some Blocks
       | Ret (None, n) \<Rightarrow> failure name host serv []
       | Ret (Some (fd, ai), n) \<Rightarrow>
           Some (bind_outcome (finish k fd ai w1 n) (\<lambda>(x, w, n). Ret (fd, x, freeaddrinfo res w, n))))"
    using assms(3) res(1) by (simp add: call_def open_sock_def try_each_def split: outcome.split)
  show ?thesis
  proof (cases "try_rest attempt k res n")
    case (Ret p)
    obtain x n1 where p: "p = (x, n1)"
      by (cases p)
    note run = try_rest_cases [OF assms(2) Ret [unfolded p]]
    show ?thesis
    proof (cases x)
      case None
      have "\<not> kernel_well k"
        using try_rest_first [of k "hd res" "tl res" n] res(1) Ret p None by auto
      then show ?thesis
        using frame Ret p None by (auto simp: failure_def split: option.splits)
    next
      case (Some q)
      obtain fd ai where q: "q = (fd, ai)"
        by (cases q)
      have ff: "found_first used res n fd ai n1"
        using run Some q by simp
      then have "complete ai"
        using res(2) by (auto simp: found_first_def)
      have out: "opened used last_calls extra given res w n (fd, y, freeaddrinfo res w2, n2)"
        if "finish k fd ai w1 n1 = Ret (y, w2, n2)" for y w2 n2
        using finishes [OF that] ff \<open>complete ai\<close> res(3) live_freeaddrinfo [of res w2] by (auto simp: opened_def)
      show ?thesis
      proof (cases "finish k fd ai w1 n1")
        case (Ret r)
        then show ?thesis
          using frame \<open>try_rest attempt k res n = Ret p\<close> p Some q out by (cases r) auto
      qed (use frame Ret p Some q finish_well [of k w1 fd ai n1] in \<open>auto simp: kernel_well_def\<close>)
    qed
  next
    case (Exits m)
    then show ?thesis
      using frame try_rest_first [of k "hd res" "tl res" n] res(1) by auto
  qed (use try_rest_ends in blast)
qed

text \<open>With any answer of the name service.\<close>

lemma open_correct:
  assumes "kernel_ok k" and "asked host serv"
  shows "opens look k hints host serv w (\<lambda>res. opened used last_calls extra given res w n)
    (open_sock look k name hints attempt (finish k) host serv w n)"
proof -
  obtain out where out: "look host serv (Some hints) w = Some out" "accounted w (losable (Some hints) host serv) out"
    using answers [OF assms(2)] by blast
  show ?thesis
  proof (cases out)
    case (Ret p)
    obtain rc res w1 where p: "p = (rc, res, w1)"
      by (cases p)
    show ?thesis
    proof (cases res)
      case None
      then have "rc \<noteq> 0"
        using out(2) Ret p by (simp add: accounted_def)
      then show ?thesis
        using out(1) Ret p None by (auto simp: open_sock_def failure_def opens_def split: option.splits)
    next
      case (Some lst)
      then have "rc = 0"
        using out(2) Ret p by (simp add: accounted_def)
      then show ?thesis
        using open_list [OF assms(1), of host serv hints w lst w1] out Ret p Some unfolding opens_def by fastforce
    qed
  qed (use out(1) in \<open>simp_all add: open_sock_def opens_def\<close>)
qed

end

section \<open>Interpretations\<close>

text \<open>The \<^verbatim>\<open>getaddrinfo\<close> of \<^verbatim>\<open>libgai\<close> is such a name service.\<close>

definition libgai_asks :: "resolver \<Rightarrow> string option \<Rightarrow> string option \<Rightarrow> bool" where
  "libgai_asks r host serv \<longleftrightarrow> resolver_ok r
     \<and> (\<forall>s. serv = Some s \<longrightarrow> first_is isdigit s \<longrightarrow> atoi s \<noteq> None)"

interpretation libgai: name_service "getaddrinfo r" "libgai_asks r" for r
proof
  fix host serv hints w
  assume "libgai_asks r host serv"
  then show "\<exists>out. getaddrinfo r host serv (Some hints) w = Some out
      \<and> accounted w (losable (Some hints) host serv) out"
    using getaddrinfo_accounted [of r serv host "Some hints" w] by (simp add: libgai_asks_def)
qed

abbreviation connects :: "int \<Rightarrow> addrinfo \<Rightarrow> bool \<Rightarrow> call list" where
  "connects fd ai ok \<equiv> [Connect fd (ai_addr ai) (ai_addrlen ai) ok]"

abbreviation binds :: "int \<Rightarrow> addrinfo \<Rightarrow> bool \<Rightarrow> call list" where
  "binds fd ai ok \<equiv> [Bind fd (ai_addr ai) (ai_addrlen ai) ok]"

named_theorems attempt_simps \<open>the attempts of the opening functions\<close>

lemmas [attempt_simps] = by_connect_def by_bind_def by_reuse_bind_def by_socket_def Setsockopt_def Listen_def sys_call_def Let_def
  alloc_def

interpretation connecting: opener "getaddrinfo r" "libgai_asks r" by_connect connects "\<lambda>k. no_more" 0 "\<lambda>fd. []" "\<lambda>ai. ()" for r
  by unfold_locales (auto simp: attempt_simps)

interpretation tcp_listening: opener "getaddrinfo r" "libgai_asks r" by_reuse_bind binds
  "\<lambda>k fd ai w n. bind_outcome (Listen k fd n) (\<lambda>n. Ret (ai_addrlen ai, w, n))" 0 "\<lambda>fd. [Listening fd]" ai_addrlen for r
  by unfold_locales (auto simp: attempt_simps split: if_splits)

interpretation udp_sending: opener "getaddrinfo r" "libgai_asks r" by_socket "\<lambda>fd ai ok. []"
  "\<lambda>k fd ai w n. case alloc w of (ok, w) \<Rightarrow> if ok then Ret ((ai_addr ai, ai_addrlen ai), w, n) else Exits ''malloc error''"
  1 "\<lambda>fd. []" "\<lambda>ai. (ai_addr ai, ai_addrlen ai)" for r
  by unfold_locales (auto simp: attempt_simps split: if_splits)

interpretation udp_binding: opener "getaddrinfo r" "libgai_asks r" by_bind binds
  "\<lambda>k fd ai w n. Ret (ai_addrlen ai, w, n)" 0 "\<lambda>fd. []" ai_addrlen for r
  by unfold_locales (auto simp: attempt_simps)

section \<open>Properties\<close>


text \<open>A kernel in which the third call fails.\<close>

definition a_kernel :: kernel where
  "a_kernel = \<lparr>k_socket = (\<lambda>i fds. if 3 + int i \<in> fds then -1 else 3 + int i), k_ok = (\<lambda>i. i \<noteq> 2)\<rparr>"


end
