(* ===== verification/Mux.thy ===== *)
theory Mux
  imports Prelude
begin

text \<open>
  What the multiplexing TCP servers have in common (\<^verbatim>\<open>poll.c\<close>, \<^verbatim>\<open>select.c\<close>, \<^verbatim>\<open>epoll.c\<close> and
  \<^verbatim>\<open>tcpservselect01.c\<close>, \<^verbatim>\<open>tcpservpoll01.c\<close>): the kernel's answers in one round of the server loop, the
  effects of a round, the search for a free slot, and the contract of such a server. The contract is
  the locale \<open>multiplexer\<close>; each server theory interprets it on its own round function. A \<^verbatim>\<open>write\<close> is
  taken to accept all its bytes, and a round is one in which the multiplexing call itself does not
  fail.
\<close>

section \<open>Rounds\<close>

text \<open>The answer of \<^verbatim>\<open>read\<close>: bytes, end of file, \<^verbatim>\<open>ECONNRESET\<close>, another error.\<close>

datatype rd = Data "u8 list" | Fin | Reset | Fail

text \<open>
  One round: whether the listening socket is ready and what \<^verbatim>\<open>accept\<close> then answers, and for every
  descriptor whether it is readable and what \<^verbatim>\<open>read\<close> then answers. The order in which \<^verbatim>\<open>epoll_wait\<close>
  reports the ready descriptors is \<open>order\<close>.
\<close>

record round =
  listens :: bool
  accepted :: int
  ready :: "int \<Rightarrow> rd option"
  order :: "int list"

datatype effect = Wrote int "u8 list" | Shown "u8 list" | Closed int

text \<open>\<^verbatim>\<open>toupper\<close> in the C locale, on the byte of a \<^verbatim>\<open>char\<close>.\<close>

definition toupper :: "u8 \<Rightarrow> u8" where
  "toupper c = (if 97 \<le> c \<and> c \<le> 122 then c - 32 else c)"

definition upper :: "u8 list \<Rightarrow> u8 list" where
  "upper d = map toupper d"

section \<open>Slots\<close>

text \<open>The loop that stores into the first free element and stops there: the index and the new array.\<close>

fun place :: "('a \<Rightarrow> bool) \<Rightarrow> ('a \<Rightarrow> 'a) \<Rightarrow> 'a list \<Rightarrow> (nat \<times> 'a list) option" where
  "place free store [] = None"
| "place free store (c # cs) =
     (if free c then Some (0, store c # cs)
      else map_option (\<lambda>(i, cs). (Suc i, c # cs)) (place free store cs))"

lemma place_None: "place free store cs = None \<longleftrightarrow> (\<forall>c\<in>set cs. \<not> free c)"
  by (induction cs) auto

lemma place_Some:
  "place free store cs = Some (i, cs') \<Longrightarrow>
    \<exists>pre c post. cs = pre @ c # post \<and> length pre = i \<and> free c \<and> cs' = pre @ store c # post \<and> (\<forall>p\<in>set pre. \<not> free p)"
proof (induction cs arbitrary: i cs')
  case (Cons a cs)
  show ?case
  proof (cases "free a")
    case True
    then show ?thesis
      using Cons.prems by (intro exI [of _ "[]"]) auto
  next
    case False
    then obtain j cs1 where p: "place free store cs = Some (j, cs1)" "i = Suc j" "cs' = a # cs1"
      using Cons.prems by auto
    then obtain pre c post where "cs = pre @ c # post" "length pre = j" "free c" "cs1 = pre @ store c # post"
        "\<forall>p\<in>set pre. \<not> free p"
      using Cons.IH by blast
    then show ?thesis
      using False p by (intro exI [of _ "a # pre"]) auto
  qed
qed simp

lemma place_first: "\<forall>p\<in>set pre. \<not> free p \<Longrightarrow> free c \<Longrightarrow> place free store (pre @ c # post) = Some (length pre, pre @ store c # post)"
  by (induction pre) auto

lemma place_update:
  assumes "place free store cs = Some (i, cs')"
  shows "i < length cs" and "free (cs ! i)" and "cs' = cs[i := store (cs ! i)]"
  using place_Some [OF assms] by (auto simp: nth_append)

section \<open>The contract\<close>

text \<open>
  What a round should do to the set of connected clients and which bytes it should write: \<open>ends\<close> says
  after which answers of \<^verbatim>\<open>read\<close> a client is gone, \<open>answer\<close> what is sent back.
\<close>

definition spec_clients :: "(rd \<Rightarrow> bool) \<Rightarrow> int set \<Rightarrow> round \<Rightarrow> int set" where
  "spec_clients ends C r =
     (C - {fd. \<exists>a. ready r fd = Some a \<and> ends a}) \<union> (if listens r then {accepted r} else {})"

definition spec_writes :: "(u8 list \<Rightarrow> u8 list) \<Rightarrow> int set \<Rightarrow> round \<Rightarrow> (int \<times> u8 list) set" where
  "spec_writes answer C r = {(fd, answer d) |fd d. fd \<in> C \<and> ready r fd = Some (Data d)}"

definition writes :: "effect list \<Rightarrow> (int \<times> u8 list) list" where
  "writes es = concat (map (\<lambda>e. case e of Wrote fd d \<Rightarrow> [(fd, d)] | _ \<Rightarrow> []) es)"

lemma writes_simps [simp]:
  "writes [] = []" "writes (Wrote fd d # es) = (fd, d) # writes es" "writes (Shown d # es) = writes es"
  "writes (Closed fd # es) = writes es" "writes (es @ fs) = writes es @ writes fs"
  by (simp_all add: writes_def)

text \<open>A run of rounds and the run the contract asks for.\<close>

fun rounds ::
  "('s \<Rightarrow> round \<Rightarrow> ('s \<times> effect list) outcome option) \<Rightarrow> 's \<Rightarrow> round list \<Rightarrow> ('s \<times> effect list list) outcome option" where
  "rounds rnd s [] = Some (Ret (s, []))"
| "rounds rnd s (r # rs) =
     (case rnd s r of
        Some (Ret (s, es)) \<Rightarrow>
          (case rounds rnd s rs of
             Some (Ret (s, ess)) \<Rightarrow> Some (Ret (s, es # ess))
           | x \<Rightarrow> x)
      | Some (Exits m) \<Rightarrow> Some (Exits m)
      | Some Blocks \<Rightarrow> Some Blocks
      | None \<Rightarrow> None)"

fun clients_after :: "(rd \<Rightarrow> bool) \<Rightarrow> int set \<Rightarrow> round list \<Rightarrow> int set" where
  "clients_after ends C [] = C"
| "clients_after ends C (r # rs) = clients_after ends (spec_clients ends C r) rs"

fun all_rounds :: "(rd \<Rightarrow> bool) \<Rightarrow> (int set \<Rightarrow> round \<Rightarrow> bool) \<Rightarrow> int set \<Rightarrow> round list \<Rightarrow> bool" where
  "all_rounds ends P C [] \<longleftrightarrow> True"
| "all_rounds ends P C (r # rs) \<longleftrightarrow> P C r \<and> all_rounds ends P (spec_clients ends C r) rs"

definition hangs_up :: "rd \<Rightarrow> bool" where
  "hangs_up a \<longleftrightarrow> a = Fin \<or> a = Reset"

definition bytes_of :: "round \<Rightarrow> int \<Rightarrow> u8 list" where
  "bytes_of r fd = (case ready r fd of Some (Data d) \<Rightarrow> d | _ \<Rightarrow> [])"

text \<open>The bytes a connection brought and the bytes written to it, over a run.\<close>

definition received :: "int \<Rightarrow> round list \<Rightarrow> u8 list" where
  "received fd rs = concat (map (\<lambda>r. bytes_of r fd) rs)"

definition sent_to :: "int \<Rightarrow> effect list list \<Rightarrow> u8 list" where
  "sent_to fd ess = concat (map (\<lambda>es. concat (map snd (filter (\<lambda>p. fst p = fd) (writes es)))) ess)"

text \<open>
  A server in state \<open>s\<close>, with the clients \<open>C\<close>, serves a run: the rounds \<open>rs\<close> leave it with exactly the
  clients that are connected, and during the rounds \<open>rs2\<close> that follow the client \<open>fd\<close> is sent the answer
  to exactly the bytes it sends, in order.
\<close>

definition serves ::
  "('s \<Rightarrow> round \<Rightarrow> ('s \<times> effect list) outcome option) \<Rightarrow> ('s \<Rightarrow> int set) \<Rightarrow> (rd \<Rightarrow> bool) \<Rightarrow> (u8 list \<Rightarrow> u8 list) \<Rightarrow>
     's \<Rightarrow> int set \<Rightarrow> round list \<Rightarrow> int \<Rightarrow> round list \<Rightarrow> bool" where
  "serves rnd watched ends answer s C rs fd rs2 \<longleftrightarrow>
     (\<exists>s1 s2 es es2. rounds rnd s rs = Some (Ret (s1, es)) \<and> watched s1 = clients_after ends C rs
        \<and> rounds rnd s1 rs2 = Some (Ret (s2, es2)) \<and> sent_to fd es2 = answer (received fd rs2))"

locale multiplexer =
  fixes rnd :: "'s \<Rightarrow> round \<Rightarrow> ('s \<times> effect list) outcome option"
    and watched :: "'s \<Rightarrow> int set"
    and ok :: "'s \<Rightarrow> bool"
    and ends :: "rd \<Rightarrow> bool"
    and answer :: "u8 list \<Rightarrow> u8 list"
    and good :: "int set \<Rightarrow> round \<Rightarrow> bool"
  assumes refines: "ok s \<Longrightarrow> good (watched s) r \<Longrightarrow>
      \<exists>s' es. rnd s r = Some (Ret (s', es)) \<and> ok s' \<and> watched s' = spec_clients ends (watched s) r
        \<and> distinct (map fst (writes es)) \<and> set (writes es) = spec_writes answer (watched s) r"
    and answer_Nil: "answer [] = []"
    and answer_append: "answer (d @ e) = answer d @ answer e"
begin

text \<open>The server survives every run the kernel can show it and keeps exactly the connected clients.\<close>

lemma session:
  "ok s \<Longrightarrow> all_rounds ends good (watched s) rs \<Longrightarrow>
    \<exists>s' ess. rounds rnd s rs = Some (Ret (s', ess)) \<and> ok s' \<and> watched s' = clients_after ends (watched s) rs
      \<and> length ess = length rs"
proof (induction rs arbitrary: s)
  case (Cons r rs)
  obtain s1 es where "rnd s r = Some (Ret (s1, es))" "ok s1" "watched s1 = spec_clients ends (watched s) r"
    using refines [of s r] Cons.prems by auto
  then show ?case
    using Cons.IH [of s1] Cons.prems by auto
qed simp

lemma one_reply:
  assumes "distinct (map fst ws)" and "set ws = spec_writes answer C r" and "fd \<in> C"
  shows "concat (map snd (filter (\<lambda>p. fst p = fd) ws)) = (case ready r fd of Some (Data d) \<Rightarrow> answer d | _ \<Rightarrow> [])"
proof -
  have one: "filter (\<lambda>p. fst p = fd) ws = (if \<exists>d. (fd, d) \<in> set ws then [(fd, THE d. (fd, d) \<in> set ws)] else [])"
    using assms(1)
  proof (induction ws)
    case (Cons w ws)
    show ?case
    proof (cases "fst w = fd")
      case True
      then have "filter (\<lambda>p. fst p = fd) ws = []"
        using Cons.prems by (auto simp: filter_empty_conv rev_image_eqI)
      moreover have "(THE d. (fd, d) \<in> set (w # ws)) = snd w"
        using True Cons.prems by (intro the_equality) (auto simp: rev_image_eqI prod_eq_iff)
      ultimately show ?thesis
        using True by (auto simp: prod_eq_iff)
    next
      case False
      then show ?thesis
        using Cons by (cases w) auto
    qed
  qed simp
  show ?thesis
  proof (cases "\<exists>d. (fd, d) \<in> set ws")
    case True
    then obtain d where d: "ready r fd = Some (Data d)" "(fd, answer d) \<in> set ws"
      using assms(2) by (auto simp: spec_writes_def)
    then have "(THE d. (fd, d) \<in> set ws) = answer d"
      using assms(2) by (intro the_equality) (auto simp: spec_writes_def)
    then show ?thesis
      using one True d(1) by simp
  next
    case False
    then have "\<forall>d. ready r fd \<noteq> Some (Data d)"
      using assms(2,3) by (auto simp: spec_writes_def)
    then show ?thesis
      using one False by (cases "ready r fd") (auto split: rd.splits)
  qed
qed

text \<open>A client that stays connected gets the answer to exactly the bytes it sent, in order.\<close>

lemma stream:
  "ok s \<Longrightarrow> all_rounds ends (\<lambda>C r. good C r \<and> fd \<in> C) (watched s) rs \<Longrightarrow>
    \<exists>s' ess. rounds rnd s rs = Some (Ret (s', ess)) \<and> sent_to fd ess = answer (received fd rs)"
proof (induction rs arbitrary: s)
  case Nil
  then show ?case
    by (simp add: sent_to_def received_def answer_Nil)
next
  case (Cons r rs)
  then have fd: "fd \<in> watched s" "good (watched s) r"
    by auto
  obtain s1 es where rnd: "rnd s r = Some (Ret (s1, es))" "ok s1" "watched s1 = spec_clients ends (watched s) r"
      and "distinct (map fst (writes es))" "set (writes es) = spec_writes answer (watched s) r"
    using refines [OF Cons.prems(1) fd(2)] by blast
  then have "concat (map snd (filter (\<lambda>p. fst p = fd) (writes es)))
      = answer (case ready r fd of Some (Data d) \<Rightarrow> d | _ \<Rightarrow> [])"
    using one_reply [of "writes es" "watched s" r fd] fd(1) by (auto simp: answer_Nil split: option.splits rd.splits)
  then show ?case
    using Cons.IH [of s1] Cons.prems(2) rnd by (auto simp: sent_to_def received_def bytes_of_def answer_append)
qed

lemma serve:
  assumes "ok s" and "watched s = C" and "all_rounds ends good C rs"
    and "all_rounds ends (\<lambda>C r. good C r \<and> fd \<in> C) (clients_after ends C rs) rs2"
  shows "serves rnd watched ends answer s C rs fd rs2"
proof -
  obtain s1 es where "rounds rnd s rs = Some (Ret (s1, es))" "ok s1" "watched s1 = clients_after ends C rs"
    using session [of s rs] assms(1-3) by auto
  then show ?thesis
    using stream [of s1 fd rs2] assms(4) by (auto simp: serves_def)
qed

end

section \<open>Sample rounds\<close>

text \<open>A connection, and data on it.\<close>

definition connect_round :: round where
  "connect_round = \<lparr>listens = True, accepted = 4, ready = (\<lambda>fd. None), order = [3]\<rparr>"

definition data_round :: "u8 list \<Rightarrow> round" where
  "data_round d = \<lparr>listens = False, accepted = -1, ready = (\<lambda>fd. if fd = 4 then Some (Data d) else None), order = [4]\<rparr>"

lemma sample_rounds:
  "clients_after ends {} [connect_round] = {4}"
  "\<forall>d. \<not> ends (Data d) \<Longrightarrow> spec_clients ends {4} (data_round d) = {4}"
  "received 4 [data_round [104], data_round [105]] = [104, 105]" "upper [104, 105] = [72, 73]"
  by (auto simp: spec_clients_def connect_round_def data_round_def received_def bytes_of_def upper_def toupper_def)

end
