(* ===== verification/Mux_Poll.thy ===== *)
theory Mux_Poll
  imports Mux
begin

text \<open>
  The servers built on \<^verbatim>\<open>poll\<close>: \<^verbatim>\<open>poll.c\<close> of this repository, which answers in upper case, and
  \<^verbatim>\<open>tcpservpoll01.c\<close>, which echoes. A round is the body of the endless loop; the part of the client
  array a loop visits is a list it recurses on, since every pass changes only its own element.
\<close>

section \<open>The array\<close>

text \<open>Of \<^verbatim>\<open>events\<close> and \<^verbatim>\<open>revents\<close> the bits that are tested.\<close>

record pollfd =
  pfd :: int
  pevents :: bool
  revents :: bool

record poll_server =
  listener :: int
  fds :: "pollfd list"
  maxfd :: nat

definition OPEN_MAX :: nat where
  "OPEN_MAX = 1024"

text \<open>
  \<^verbatim>\<open>poll(fds, n, -1)\<close> sets \<^verbatim>\<open>revents\<close> of the first \<open>n\<close> elements; a negative descriptor is ignored and
  gets 0. It returns the number of elements with an event.
\<close>

definition poll_one :: "int \<Rightarrow> round \<Rightarrow> pollfd \<Rightarrow> pollfd" where
  "poll_one lfd r p =
     p\<lparr>revents := 0 \<le> pfd p \<and> pevents p \<and> (if pfd p = lfd then listens r else ready r (pfd p) \<noteq> None)\<rparr>"

definition poll_sys :: "int \<Rightarrow> round \<Rightarrow> nat \<Rightarrow> pollfd list \<Rightarrow> pollfd list" where
  "poll_sys lfd r n ps = map (poll_one lfd r) (take n ps) @ drop n ps"

definition poll_count :: "nat \<Rightarrow> pollfd list \<Rightarrow> int" where
  "poll_count n ps = int (length (filter revents (take n ps)))"

text \<open>The initial array: everything but the descriptors and the first element is uninitialised.\<close>

definition poll_start :: "int \<Rightarrow> bool \<Rightarrow> bool \<Rightarrow> pollfd list \<Rightarrow> poll_server outcome" where
  "poll_start lfd bind_ok listen_ok junk =
     (if lfd = -1 then Exits ''socket error''
      else if \<not> bind_ok then Exits ''bind error''
      else if \<not> listen_ok then Exits ''listen error''
      else
        (let ps = map (\<lambda>p. p\<lparr>pfd := -1\<rparr>) (take OPEN_MAX junk);
             ps = ps[0 := (ps ! 0)\<lparr>pfd := lfd, pevents := True\<rparr>]
         in Ret \<lparr>listener = lfd, fds = ps, maxfd = 0\<rparr>))"

section \<open>A round\<close>

text \<open>The clients of \<^verbatim>\<open>poll.c\<close>: every element with an event is read.\<close>

fun poll_slots :: "round \<Rightarrow> int \<Rightarrow> pollfd list \<Rightarrow> (pollfd list \<times> effect list) outcome" where
  "poll_slots r nready [] = Ret ([], [])"
| "poll_slots r nready (p # ps) =
     (let next_slot = (\<lambda>p es. bind_outcome (poll_slots r nready ps) (\<lambda>(ps, fs). Ret (p # ps, es @ fs))) in
      if pfd p < 0 then next_slot p []
      else if revents p then
        (case ready r (pfd p) of
           None \<Rightarrow> Blocks
         | Some Fail \<Rightarrow> Exits ''read error''
         | Some Reset \<Rightarrow> next_slot (p\<lparr>pfd := -1\<rparr>) [Closed (pfd p)]
         | Some Fin \<Rightarrow> next_slot (p\<lparr>pfd := -1\<rparr>) [Closed (pfd p)]
         | Some (Data d) \<Rightarrow> next_slot p [Shown d, Wrote (pfd p) (upper d)])
      else next_slot p [])"

text \<open>The clients of \<^verbatim>\<open>tcpservpoll01.c\<close>: the loop ends with the last event that \<^verbatim>\<open>poll\<close> counted.\<close>

fun tcppoll_slots :: "round \<Rightarrow> int \<Rightarrow> pollfd list \<Rightarrow> (pollfd list \<times> effect list) outcome" where
  "tcppoll_slots r nready [] = Ret ([], [])"
| "tcppoll_slots r nready (p # ps) =
     (let handled = (\<lambda>p es.
            if nready - 1 \<le> 0 then Ret (p # ps, es)
            else bind_outcome (tcppoll_slots r (nready - 1) ps) (\<lambda>(ps, fs). Ret (p # ps, es @ fs))) in
      if pfd p < 0 \<or> \<not> revents p
      then bind_outcome (tcppoll_slots r nready ps) (\<lambda>(ps, fs). Ret (p # ps, fs))
      else
        (case ready r (pfd p) of
           None \<Rightarrow> Blocks
         | Some Fail \<Rightarrow> Exits ''read error''
         | Some Reset \<Rightarrow> handled (p\<lparr>pfd := -1\<rparr>) [Closed (pfd p)]
         | Some Fin \<Rightarrow> handled (p\<lparr>pfd := -1\<rparr>) [Closed (pfd p)]
         | Some (Data d) \<Rightarrow> handled p [Wrote (pfd p) d]))"

text \<open>
  The body of the loop, which both servers share but for the loop over the clients: \<^verbatim>\<open>poll\<close>, a new
  client if the listening socket is ready, then the clients unless no event is left.
\<close>

definition poll_clients ::
  "(round \<Rightarrow> int \<Rightarrow> pollfd list \<Rightarrow> (pollfd list \<times> effect list) outcome) \<Rightarrow> poll_server \<Rightarrow> round \<Rightarrow> int \<Rightarrow>
   pollfd \<Rightarrow> pollfd list \<Rightarrow> (poll_server \<times> effect list) outcome" where
  "poll_clients slots s r nready l cs =
     bind_outcome (slots r nready (take (maxfd s) cs))
       (\<lambda>(visited, es). Ret (s\<lparr>fds := l # visited @ drop (maxfd s) cs\<rparr>, es))"

definition poll_body ::
  "(round \<Rightarrow> int \<Rightarrow> pollfd list \<Rightarrow> (pollfd list \<times> effect list) outcome) \<Rightarrow> string \<Rightarrow> poll_server \<Rightarrow> round \<Rightarrow>
   (poll_server \<times> effect list) outcome option" where
  "poll_body slots full s r =
     (let ps = poll_sys (listener s) r (maxfd s + 1) (fds s); nready = poll_count (maxfd s + 1) ps in
      case ps of
        [] \<Rightarrow> None
      | l # cs \<Rightarrow>
          if revents l then
            if accepted r < 0 then Some (Exits ''accept error'')
            else
              (case place (\<lambda>p. pfd p < 0) (\<lambda>p. p\<lparr>pfd := accepted r, pevents := True\<rparr>) cs of
                 None \<Rightarrow> Some (Exits full)
               | Some (j, cs) \<Rightarrow>
                   (let s = s\<lparr>maxfd := max (maxfd s) (j + 1)\<rparr> in
                    if nready - 1 \<le> 0 then Some (Ret (s\<lparr>fds := l # cs\<rparr>, []))
                    else Some (poll_clients slots s r (nready - 1) l cs)))
          else Some (poll_clients slots s r nready l cs))"

definition poll_round :: "poll_server \<Rightarrow> round \<Rightarrow> (poll_server \<times> effect list) outcome option" where
  "poll_round = poll_body poll_slots ''max out''"

definition tcppoll_round :: "poll_server \<Rightarrow> round \<Rightarrow> (poll_server \<times> effect list) outcome option" where
  "tcppoll_round = poll_body tcppoll_slots ''too many clients''"

section \<open>The loop over the clients\<close>

definition active :: "pollfd \<Rightarrow> bool" where
  "active p \<longleftrightarrow> 0 \<le> pfd p \<and> revents p"

definition after :: "round \<Rightarrow> pollfd \<Rightarrow> pollfd" where
  "after r p = (if active p \<and> (\<exists>a. ready r (pfd p) = Some a \<and> hangs_up a) then p\<lparr>pfd := -1\<rparr> else p)"

definition slot_effects :: "(int \<Rightarrow> u8 list \<Rightarrow> effect list) \<Rightarrow> round \<Rightarrow> pollfd \<Rightarrow> effect list" where
  "slot_effects reply r p =
     (if active p then
        (case ready r (pfd p) of
           Some (Data d) \<Rightarrow> reply (pfd p) d
         | Some a \<Rightarrow> [Closed (pfd p)]
         | None \<Rightarrow> [])
      else [])"

definition readable :: "round \<Rightarrow> pollfd list \<Rightarrow> bool" where
  "readable r ps \<longleftrightarrow> (\<forall>p\<in>set ps. active p \<longrightarrow> ready r (pfd p) \<noteq> None \<and> ready r (pfd p) \<noteq> Some Fail)"

lemma poll_slots_eq:
  "readable r ps \<Longrightarrow> poll_slots r n ps =
    Ret (map (after r) ps, concat (map (slot_effects (\<lambda>fd d. [Shown d, Wrote fd (upper d)]) r) ps))"
proof (induction ps)
  case (Cons p ps)
  then have "readable r ps"
    by (simp add: readable_def)
  with Cons show ?case
    by (cases "ready r (pfd p)"; cases "the (ready r (pfd p))")
      (auto simp: readable_def active_def after_def slot_effects_def hangs_up_def)
qed simp

lemma inactive_after: "\<not> active p \<Longrightarrow> after r p = p \<and> slot_effects reply r p = []"
  by (simp add: after_def slot_effects_def)

lemma inactive_map: "\<forall>p\<in>set ps. \<not> active p \<Longrightarrow> map (after r) ps = ps \<and> concat (map (slot_effects reply r) ps) = []"
  by (induction ps) (simp_all add: inactive_after)

lemma tcppoll_slots_eq:
  "readable r ps \<Longrightarrow> int (length (filter active ps)) \<le> n \<Longrightarrow> tcppoll_slots r n ps =
    Ret (map (after r) ps, concat (map (slot_effects (\<lambda>fd d. [Wrote fd d]) r) ps))"
proof (induction ps arbitrary: n)
  case (Cons p ps)
  then have rd: "readable r ps"
    by (simp add: readable_def)
  show ?case
  proof (cases "active p")
    case False
    then show ?thesis
      using Cons rd by (auto simp: inactive_after) (auto simp: active_def)
  next
    case True
    then have a: "0 \<le> pfd p" "revents p" "ready r (pfd p) \<noteq> None" "ready r (pfd p) \<noteq> Some Fail"
      using Cons.prems(1) by (auto simp: active_def readable_def)
    have n: "int (length (filter active ps)) \<le> n - 1"
      using Cons.prems(2) True by simp
    have last: "map (after r) ps = ps \<and> concat (map (slot_effects reply r) ps) = []" if "n - 1 \<le> 0" for reply
    proof -
      have "length (filter active ps) = 0"
        using n that by linarith
      then show ?thesis
        by (intro inactive_map) (simp add: filter_empty_conv)
    qed
    obtain x where x: "ready r (pfd p) = Some x" "x \<noteq> Fail"
      using a(3,4) by auto
    have this_slot: "after r p = (if hangs_up x then p\<lparr>pfd := -1\<rparr> else p)"
        "slot_effects reply r p = (case x of Data d \<Rightarrow> reply (pfd p) d | _ \<Rightarrow> [Closed (pfd p)])" for reply
      using True x by (simp_all add: after_def slot_effects_def split: rd.splits)
    show ?thesis
    proof (cases "n - 1 \<le> 0")
      case le: True
      then show ?thesis
        using a(1,2) x this_slot last [OF le] by (cases x) (simp_all add: hangs_up_def)
    next
      case False
      then show ?thesis
        using a(1,2) x this_slot Cons.IH [OF rd n] by (cases x) (simp_all add: hangs_up_def)
    qed
  qed
qed simp

section \<open>The table\<close>

text \<open>The descriptors in a list of slots.\<close>

definition in_use :: "pollfd list \<Rightarrow> int list" where
  "in_use ps = map pfd (filter (\<lambda>p. 0 \<le> pfd p) ps)"

lemma in_use_simps [simp]:
  "in_use [] = []" "in_use (p # ps) = (if 0 \<le> pfd p then pfd p # in_use ps else in_use ps)" "in_use (ps @ qs) = in_use ps @ in_use qs"
  by (simp_all add: in_use_def)

lemma set_in_use: "set (in_use ps) = {pfd p |p. p \<in> set ps \<and> 0 \<le> pfd p}"
  by (auto simp: in_use_def)

lemma in_use_poll_one: "in_use (map (poll_one lfd r) ps) = in_use ps"
  by (induction ps) (simp_all add: poll_one_def)

lemma in_use_poll_sys: "in_use (poll_sys lfd r n ps) = in_use ps"
  using in_use_simps(3) [of "take n ps" "drop n ps"] unfolding append_take_drop_id
  by (simp add: poll_sys_def in_use_poll_one)

definition hung :: "round \<Rightarrow> pollfd \<Rightarrow> bool" where
  "hung r p \<longleftrightarrow> active p \<and> (\<exists>a. ready r (pfd p) = Some a \<and> hangs_up a)"

lemma in_use_after: "in_use (map (after r) cs) = map pfd (filter (\<lambda>p. \<not> hung r p) (filter (\<lambda>p. 0 \<le> pfd p) cs))"
  by (induction cs) (auto simp: after_def hung_def active_def)

lemma after_distinct: "distinct (in_use cs) \<Longrightarrow> distinct (in_use (map (after r) cs))"
  unfolding in_use_after unfolding in_use_def by (rule distinct_map_filter)

text \<open>A table whose active slots are the readable ones of the clients \<open>C\<close>, and its clients after the loop.\<close>

definition settled :: "int set \<Rightarrow> round \<Rightarrow> pollfd list \<Rightarrow> bool" where
  "settled C r cs \<longleftrightarrow> distinct (in_use cs)
     \<and> (\<forall>p\<in>set cs. active p \<longleftrightarrow> 0 \<le> pfd p \<and> pfd p \<in> C \<and> ready r (pfd p) \<noteq> None)"

lemma settled_clients:
  assumes "settled C r cs" and "set (in_use cs) = C \<union> N" and "C \<inter> N = {}"
  shows "set (in_use (map (after r) cs)) = (C - {fd. \<exists>a. ready r fd = Some a \<and> hangs_up a}) \<union> N"
proof -
  have "hung r p \<longleftrightarrow> pfd p \<in> C \<and> (\<exists>a. ready r (pfd p) = Some a \<and> hangs_up a)" if "p \<in> set cs" "0 \<le> pfd p" for p
    using assms(1) that by (auto simp: hung_def settled_def)
  then have "set (in_use (map (after r) cs))
      = {pfd p |p. p \<in> set cs \<and> 0 \<le> pfd p \<and> \<not> (pfd p \<in> C \<and> (\<exists>a. ready r (pfd p) = Some a \<and> hangs_up a))}"
    unfolding in_use_after by auto
  also have "\<dots> = {fd. fd \<in> set (in_use cs) \<and> \<not> (fd \<in> C \<and> (\<exists>a. ready r fd = Some a \<and> hangs_up a))}"
    unfolding set_in_use by blast
  also have "\<dots> = (C - {fd. \<exists>a. ready r fd = Some a \<and> hangs_up a}) \<union> N"
    unfolding assms(2) using assms(3) by blast
  finally show ?thesis .
qed

text \<open>What is written: one answer for each client with data.\<close>

definition talks :: "round \<Rightarrow> pollfd \<Rightarrow> bool" where
  "talks r p \<longleftrightarrow> active p \<and> (\<exists>d. ready r (pfd p) = Some (Data d))"

lemma slots_writes:
  assumes "\<And>fd d. writes (reply fd d) = [(fd, answer d)]"
  shows "writes (concat (map (slot_effects reply r) cs)) = map (\<lambda>p. (pfd p, answer (bytes_of r (pfd p)))) (filter (talks r) cs)"
proof (induction cs)
  case (Cons p cs)
  have "writes (slot_effects reply r p) = (if talks r p then [(pfd p, answer (bytes_of r (pfd p)))] else [])"
  proof (cases "ready r (pfd p)")
    case (Some a)
    then show ?thesis
      using assms by (cases a) (simp_all add: slot_effects_def talks_def bytes_of_def)
  qed (simp add: slot_effects_def talks_def)
  with Cons show ?case
    by simp
qed simp

lemma settled_writes:
  assumes "settled C r cs" and "C \<subseteq> set (in_use cs)" and "\<And>fd d. writes (reply fd d) = [(fd, answer d)]"
  shows "set (writes (concat (map (slot_effects reply r) cs))) = spec_writes answer C r"
    and "distinct (map fst (writes (concat (map (slot_effects reply r) cs))))"
proof -
  note w = slots_writes [where reply = reply and answer = answer, OF assms(3), of r cs]
  have "{pfd p |p. p \<in> set cs \<and> talks r p} = {fd \<in> C. \<exists>d. ready r fd = Some (Data d)}"
  proof (intro set_eqI iffI)
    fix fd
    assume "fd \<in> {pfd p |p. p \<in> set cs \<and> talks r p}"
    then show "fd \<in> {fd \<in> C. \<exists>d. ready r fd = Some (Data d)}"
      using assms(1) unfolding talks_def settled_def by blast
  next
    fix fd
    assume fd: "fd \<in> {fd \<in> C. \<exists>d. ready r fd = Some (Data d)}"
    then obtain p where p: "p \<in> set cs" "pfd p = fd" "0 \<le> pfd p"
      using assms(2) unfolding set_in_use by blast
    then have "active p"
      using assms(1) fd by (auto simp: settled_def)
    then show "fd \<in> {pfd p |p. p \<in> set cs \<and> talks r p}"
      using fd p unfolding talks_def by blast
  qed
  moreover have "set (writes (concat (map (slot_effects reply r) cs)))
      = (\<lambda>fd. (fd, answer (bytes_of r fd))) ` {pfd p |p. p \<in> set cs \<and> talks r p}"
    unfolding w by auto
  ultimately show "set (writes (concat (map (slot_effects reply r) cs))) = spec_writes answer C r"
    by (auto simp: spec_writes_def bytes_of_def)
  have "filter (talks r) cs = filter (talks r) (filter (\<lambda>p. 0 \<le> pfd p) cs)"
    unfolding filter_filter by (rule filter_cong) (auto simp: talks_def active_def)
  moreover have "distinct (map pfd (filter (talks r) (filter (\<lambda>p. 0 \<le> pfd p) cs)))"
    using assms(1) unfolding settled_def in_use_def by (blast intro: distinct_map_filter)
  ultimately show "distinct (map fst (writes (concat (map (slot_effects reply r) cs))))"
    unfolding w by (simp add: o_def)
qed

section \<open>The contract\<close>

definition poll_ok :: "int \<Rightarrow> poll_server \<Rightarrow> bool" where
  "poll_ok lfd s \<longleftrightarrow> listener s = lfd \<and> 0 \<le> lfd \<and>
     (case fds s of
        [] \<Rightarrow> False
      | l # cs \<Rightarrow> pfd l = lfd \<and> pevents l \<and> Suc (length cs) = OPEN_MAX \<and> maxfd s \<le> length cs
          \<and> distinct (lfd # in_use cs) \<and> (\<forall>p\<in>set cs. 0 \<le> pfd p \<longrightarrow> pevents p)
          \<and> (\<forall>p\<in>set (drop (maxfd s) cs). pfd p < 0 \<and> \<not> revents p))"

definition poll_watched :: "poll_server \<Rightarrow> int set" where
  "poll_watched s = set (in_use (tl (fds s)))"

text \<open>
  What the kernel can show the server without an error: reads of readable clients do not fail, and a
  new connection has a new descriptor and there is room for it.
\<close>

definition poll_good :: "int \<Rightarrow> int set \<Rightarrow> round \<Rightarrow> bool" where
  "poll_good lfd C r \<longleftrightarrow> (\<forall>fd\<in>C. ready r fd \<noteq> Some Fail)
     \<and> (listens r \<longrightarrow> 0 \<le> accepted r \<and> accepted r \<notin> C \<and> accepted r \<noteq> lfd \<and> Suc (card C) < OPEN_MAX)"

text \<open>The table after \<^verbatim>\<open>poll\<close>.\<close>

lemma poll_sys_settled:
  assumes "poll_ok lfd s" and "fds s = l # cs"
  shows "\<exists>l' cs'. poll_sys lfd r (maxfd s + 1) (fds s) = l' # cs' \<and> pfd l' = lfd \<and> pevents l' \<and> (revents l' \<longleftrightarrow> listens r)
    \<and> length cs' = length cs \<and> in_use cs' = in_use cs \<and> settled (set (in_use cs)) r cs'
    \<and> (\<forall>p\<in>set cs'. 0 \<le> pfd p \<longrightarrow> pevents p) \<and> (\<forall>p\<in>set cs'. pfd p < 0 \<longrightarrow> \<not> revents p)
    \<and> (\<forall>p\<in>set (drop (maxfd s) cs'). pfd p < 0)"
proof -
  let ?cs' = "map (poll_one lfd r) (take (maxfd s) cs) @ drop (maxfd s) cs"
  have lfd: "pfd p \<noteq> lfd" if "p \<in> set cs" "0 \<le> pfd p" for p
    using assms that by (auto simp: poll_ok_def set_in_use)
  have sub: "p \<in> set cs" if "p \<in> set (take (maxfd s) cs) \<or> p \<in> set (drop (maxfd s) cs)" for p
    using that in_set_takeD in_set_dropD by metis
  have use: "in_use ?cs' = in_use cs"
    using in_use_simps(3) [of "take (maxfd s) cs" "drop (maxfd s) cs"] unfolding append_take_drop_id
    by (simp add: in_use_poll_one)
  have polled: "active p \<longleftrightarrow> 0 \<le> pfd p \<and> pfd p \<in> set (in_use cs) \<and> ready r (pfd p) \<noteq> None" if p: "p \<in> set ?cs'" for p
  proof -
    consider q where "q \<in> set (take (maxfd s) cs)" "p = poll_one lfd r q" | "p \<in> set (drop (maxfd s) cs)"
      using p by auto
    then show ?thesis
    proof cases
      case 1
      then have q: "q \<in> set cs" "pfd p = pfd q"
        using sub by (auto simp: poll_one_def)
      have "0 \<le> pfd q \<longrightarrow> pevents q"
        using assms q(1) by (simp add: poll_ok_def)
      then show ?thesis
        using 1 q lfd [OF q(1)] by (auto simp: active_def poll_one_def set_in_use)
    next
      case 2
      then show ?thesis
        using assms by (auto simp: poll_ok_def active_def)
    qed
  qed
  have "poll_sys lfd r (maxfd s + 1) (fds s) = poll_one lfd r l # ?cs'"
    by (simp add: poll_sys_def assms(2))
  moreover have "pfd (poll_one lfd r l) = lfd" "pevents (poll_one lfd r l)" "revents (poll_one lfd r l) \<longleftrightarrow> listens r"
    using assms by (simp_all add: poll_ok_def poll_one_def)
  moreover have "length ?cs' = length cs"
    using assms by (simp add: poll_ok_def)
  moreover have "settled (set (in_use cs)) r ?cs'"
    unfolding settled_def use using polled assms by (simp add: poll_ok_def)
  moreover have "\<forall>p\<in>set ?cs'. 0 \<le> pfd p \<longrightarrow> pevents p"
  proof
    fix p
    assume "p \<in> set ?cs'"
    then consider q where "q \<in> set (take (maxfd s) cs)" "p = poll_one lfd r q" | "p \<in> set (drop (maxfd s) cs)"
      by auto
    then have "\<exists>q\<in>set cs. pfd p = pfd q \<and> pevents p = pevents q"
    proof cases
      case 1
      then show ?thesis
        using sub [of q] by (intro bexI [of _ q]) (simp_all add: poll_one_def)
    next
      case 2
      then show ?thesis
        using sub [of p] by blast
    qed
    then show "0 \<le> pfd p \<longrightarrow> pevents p"
      using assms by (auto simp: poll_ok_def)
  qed
  moreover have "\<forall>p\<in>set ?cs'. pfd p < 0 \<longrightarrow> \<not> revents p"
  proof
    fix p
    assume "p \<in> set ?cs'"
    then consider q where "p = poll_one lfd r q" | "p \<in> set (drop (maxfd s) cs)"
      by auto
    then show "pfd p < 0 \<longrightarrow> \<not> revents p"
      by cases (use assms in \<open>auto simp: poll_one_def poll_ok_def\<close>)
  qed
  moreover have "drop (maxfd s) ?cs' = drop (maxfd s) cs"
    using assms by (simp add: poll_ok_def)
  then have "\<forall>p\<in>set (drop (maxfd s) ?cs'). pfd p < 0"
    using assms by (simp add: poll_ok_def)
  ultimately show ?thesis
    using use by blast
qed

text \<open>The table after a new client has been stored; the slot it gets has no event.\<close>

lemma place_settled:
  assumes "settled C r cs" and "place (\<lambda>p. pfd p < 0) (\<lambda>p. p\<lparr>pfd := c, pevents := True\<rparr>) cs = Some (j, cs')"
    and "\<forall>p\<in>set cs. 0 \<le> pfd p \<longrightarrow> pevents p" and "\<forall>p\<in>set cs. pfd p < 0 \<longrightarrow> \<not> revents p"
    and "set (in_use cs) = C" and "c \<notin> C" and "0 \<le> c" and "\<forall>p\<in>set (drop n cs). pfd p < 0"
  shows "settled C r cs' \<and> set (in_use cs') = C \<union> {c} \<and> length cs' = length cs \<and> j < length cs'
    \<and> length (filter active cs') = length (filter active cs)
    \<and> (\<forall>p\<in>set cs'. 0 \<le> pfd p \<longrightarrow> pevents p) \<and> (\<forall>p\<in>set cs'. pfd p < 0 \<longrightarrow> \<not> revents p)
    \<and> (\<forall>p\<in>set (drop (max n (j + 1)) cs'). pfd p < 0)"
proof -
  obtain pre q post where cs: "cs = pre @ q # post" "length pre = j" "pfd q < 0" "cs' = pre @ q\<lparr>pfd := c, pevents := True\<rparr> # post"
    using place_Some [OF assms(2)] by blast
  have "\<not> revents q"
    using assms(4) cs by simp
  then have "settled C r cs'"
    using assms(1,5,6,7) cs unfolding settled_def by (auto simp: active_def)
  moreover have "set (in_use cs') = C \<union> {c}"
    using assms(5,7) cs by auto
  moreover have "drop (max n (j + 1)) cs' = drop (max n (j + 1)) cs"
    using cs by (simp add: max_def drop_Cons')
  then have "\<forall>p\<in>set (drop (max n (j + 1)) cs'). pfd p < 0"
    using assms(8) set_drop_subset_set_drop [of n "max n (j + 1)" cs] by auto
  moreover have "length (filter active cs') = length (filter active cs)"
    using cs \<open>\<not> revents q\<close> by (simp add: active_def)
  ultimately show ?thesis
    using assms(3,4) cs by auto
qed

lemma drop_inactive: "\<forall>p\<in>set (drop n cs). pfd p < 0 \<Longrightarrow>
    map (after r) (take n cs) @ drop n cs = map (after r) cs \<and> concat (map (slot_effects reply r) (take n cs)) = concat (map (slot_effects reply r) cs)"
proof -
  assume neg: "\<forall>p\<in>set (drop n cs). pfd p < 0"
  then have idle: "map (after r) (drop n cs) = drop n cs" "concat (map (slot_effects reply r) (drop n cs)) = []"
  proof -
    have "\<forall>p\<in>set (drop n cs). \<not> active p"
      using neg unfolding active_def by (auto dest: bspec)
    then show "map (after r) (drop n cs) = drop n cs" "concat (map (slot_effects reply r) (drop n cs)) = []"
      using inactive_map by blast+
  qed
  have "map (after r) cs = map (after r) (take n cs) @ map (after r) (drop n cs)"
    unfolding map_append [symmetric] append_take_drop_id ..
  moreover have "concat (map (slot_effects reply r) cs)
      = concat (map (slot_effects reply r) (take n cs)) @ concat (map (slot_effects reply r) (drop n cs))"
    unfolding concat_append [symmetric] map_append [symmetric] append_take_drop_id ..
  ultimately show ?thesis
    unfolding idle append_Nil2 by simp
qed

text \<open>The table of a round and the state the round leaves.\<close>

definition table_ok :: "int \<Rightarrow> int set \<Rightarrow> int set \<Rightarrow> round \<Rightarrow> nat \<Rightarrow> pollfd list \<Rightarrow> bool" where
  "table_ok lfd C N r n cs \<longleftrightarrow> settled C r cs \<and> set (in_use cs) = C \<union> N \<and> C \<inter> N = {} \<and> lfd \<notin> C \<union> N
     \<and> Suc (length cs) = OPEN_MAX \<and> n \<le> length cs
     \<and> (\<forall>p\<in>set cs. 0 \<le> pfd p \<longrightarrow> pevents p) \<and> (\<forall>p\<in>set cs. pfd p < 0 \<longrightarrow> \<not> revents p) \<and> (\<forall>p\<in>set (drop n cs). pfd p < 0)"

lemma table_after:
  assumes "table_ok lfd C N r n cs" and "listener s = lfd" and "0 \<le> lfd" and "maxfd s = n" and "pfd l = lfd" and "pevents l"
    and "\<And>fd d. writes (reply fd d) = [(fd, answer d)]"
  shows "poll_ok lfd (s\<lparr>fds := l # map (after r) cs\<rparr>)"
    and "poll_watched (s\<lparr>fds := l # map (after r) cs\<rparr>) = (C - {fd. \<exists>a. ready r fd = Some a \<and> hangs_up a}) \<union> N"
    and "set (writes (concat (map (slot_effects reply r) cs))) = spec_writes answer C r"
    and "distinct (map fst (writes (concat (map (slot_effects reply r) cs))))"
proof -
  have s: "settled C r cs" and C: "set (in_use cs) = C \<union> N" and N: "C \<inter> N = {}" and lfd: "lfd \<notin> C \<union> N"
    using assms(1) by (simp_all add: table_ok_def)
  note w = settled_clients [OF s C N]
  show "poll_watched (s\<lparr>fds := l # map (after r) cs\<rparr>) = (C - {fd. \<exists>a. ready r fd = Some a \<and> hangs_up a}) \<union> N"
    using w by (simp add: poll_watched_def)
  show "set (writes (concat (map (slot_effects reply r) cs))) = spec_writes answer C r"
    "distinct (map fst (writes (concat (map (slot_effects reply r) cs))))"
    using settled_writes [OF s _ assms(7)] C by auto
  have "distinct (in_use (map (after r) cs))"
    using s after_distinct by (simp add: settled_def)
  moreover have "lfd \<notin> set (in_use (map (after r) cs))"
    using w lfd by blast
  moreover have "\<forall>p\<in>set (map (after r) cs). 0 \<le> pfd p \<longrightarrow> pevents p"
    using assms(1) by (auto simp: table_ok_def after_def)
  moreover have "\<forall>p\<in>set (drop n (map (after r) cs)). pfd p < 0 \<and> \<not> revents p"
  proof
    fix p
    assume "p \<in> set (drop n (map (after r) cs))"
    then obtain q where q: "q \<in> set (drop n cs)" "p = after r q"
      by (auto simp: drop_map)
    then have "pfd q < 0" "q \<in> set cs"
      using assms(1) in_set_dropD [of q n cs] by (auto simp: table_ok_def)
    then show "pfd p < 0 \<and> \<not> revents p"
      using assms(1) q inactive_after [of q r] by (auto simp: table_ok_def active_def)
  qed
  ultimately show "poll_ok lfd (s\<lparr>fds := l # map (after r) cs\<rparr>)"
    using assms by (simp add: poll_ok_def table_ok_def)
qed

lemma poll_clients_eq:
  assumes "table_ok lfd C N r (maxfd s) cs" and "\<forall>fd\<in>C. ready r fd \<noteq> Some Fail"
    and "int (length (filter active cs)) \<le> n"
    and "\<And>n ps. readable r ps \<Longrightarrow> int (length (filter active ps)) \<le> n \<Longrightarrow>
      slots r n ps = Ret (map (after r) ps, concat (map (slot_effects reply r) ps))"
  shows "poll_clients slots s r n l cs = Ret (s\<lparr>fds := l # map (after r) cs\<rparr>, concat (map (slot_effects reply r) cs))"
proof -
  have "readable r (take (maxfd s) cs)"
    using assms(1,2) in_set_takeD unfolding readable_def table_ok_def settled_def by metis
  moreover have "length (filter active (take (maxfd s) cs)) \<le> length (filter active cs)"
    using filter_append [of active "take (maxfd s) cs" "drop (maxfd s) cs"] by simp
  then have "int (length (filter active (take (maxfd s) cs))) \<le> n"
    using assms(3) by linarith
  moreover have "\<forall>p\<in>set (drop (maxfd s) cs). pfd p < 0"
    using assms(1) by (simp add: table_ok_def)
  note drop_inactive [OF this, of r reply]
  ultimately show ?thesis
    using assms(4) by (simp add: poll_clients_def)
qed

text \<open>With fewer clients than slots there is a free slot.\<close>

lemma free_slot:
  assumes "distinct (in_use cs)" and "card (set (in_use cs)) < length cs"
  shows "\<exists>p\<in>set cs. pfd p < 0"
proof (rule ccontr)
  assume "\<not> ?thesis"
  then have "in_use cs = map pfd cs"
    by (induction cs) auto
  then show False
    using assms distinct_card by fastforce
qed

lemma filter_revents: "\<forall>p\<in>set cs. pfd p < 0 \<longrightarrow> \<not> revents p \<Longrightarrow> filter revents cs = filter active cs"
  by (rule filter_cong) (auto simp: active_def)

lemma poll_body_refines:
  assumes ok: "poll_ok lfd s" and good: "poll_good lfd (poll_watched s) r"
    and reply: "\<And>fd d. writes (reply fd d) = [(fd, answer d)]"
    and slots: "\<And>n ps. readable r ps \<Longrightarrow> int (length (filter active ps)) \<le> n \<Longrightarrow>
      slots r n ps = Ret (map (after r) ps, concat (map (slot_effects reply r) ps))"
  shows "\<exists>s' es. poll_body slots full s r = Some (Ret (s', es)) \<and> poll_ok lfd s'
    \<and> poll_watched s' = spec_clients hangs_up (poll_watched s) r
    \<and> distinct (map fst (writes es)) \<and> set (writes es) = spec_writes answer (poll_watched s) r"
proof -
  obtain l0 cs0 where fds: "fds s = l0 # cs0"
    using ok by (cases "fds s") (auto simp: poll_ok_def)
  let ?C = "set (in_use cs0)" and ?n = "maxfd s"
  have C: "poll_watched s = ?C"
    by (simp add: poll_watched_def fds)
  have lfd: "listener s = lfd" "0 \<le> lfd" "lfd \<notin> ?C" "Suc (length cs0) = OPEN_MAX" "?n \<le> length cs0" "distinct (in_use cs0)"
    using ok by (simp_all add: poll_ok_def fds)
  obtain l cs where ps: "poll_sys lfd r (?n + 1) (fds s) = l # cs" "pfd l = lfd" "pevents l" "revents l \<longleftrightarrow> listens r"
      "length cs = length cs0" "in_use cs = in_use cs0" "settled ?C r cs" "\<forall>p\<in>set cs. 0 \<le> pfd p \<longrightarrow> pevents p"
      "\<forall>p\<in>set cs. pfd p < 0 \<longrightarrow> \<not> revents p" "\<forall>p\<in>set (drop ?n cs). pfd p < 0"
    using poll_sys_settled [OF ok fds, of r] by blast
  let ?nready = "poll_count (?n + 1) (l # cs)"
  have idle: "filter active (drop ?n cs) = []"
    using ps(10) by (auto simp: filter_empty_conv active_def dest: bspec)
  have "filter revents (take ?n cs) = filter active (take ?n cs)"
    using ps(9) by (intro filter_revents) (auto dest: in_set_takeD)
  moreover have "filter active cs = filter active (take ?n cs) @ filter active (drop ?n cs)"
    unfolding filter_append [symmetric] append_take_drop_id ..
  ultimately have count: "?nready = of_bool (listens r) + int (length (filter active cs))"
    using ps(4) idle by (simp add: poll_count_def)
  have nofail: "\<forall>fd\<in>?C. ready r fd \<noteq> Some Fail"
    using good by (simp add: poll_good_def C)
  show ?thesis
  proof (cases "listens r")
    case False
    have t: "table_ok lfd ?C {} r ?n cs"
      using ps lfd by (simp add: table_ok_def)
    have "poll_body slots full s r = Some (poll_clients slots s r ?nready l cs)"
      using ps(1,4) False lfd(1) by (simp add: poll_body_def Let_def)
    then show ?thesis
      using poll_clients_eq [where slots = slots and reply = reply and n = ?nready and l = l, OF t nofail _ slots] count False
        table_after [where reply = reply and answer = answer, OF t lfd(1,2) refl ps(2,3) reply]
      by (simp add: C spec_clients_def)
  next
    case True
    have conn: "0 \<le> accepted r" "accepted r \<notin> ?C" "accepted r \<noteq> lfd" "Suc (card ?C) < OPEN_MAX"
      using good True by (simp_all add: poll_good_def C)
    have "\<exists>p\<in>set cs. pfd p < 0"
      using ps(5,6) lfd(4,6) conn(4) by (intro free_slot) simp_all
    then obtain j cs' where place: "place (\<lambda>p. pfd p < 0) (\<lambda>p. p\<lparr>pfd := accepted r, pevents := True\<rparr>) cs = Some (j, cs')"
      using place_None [of "\<lambda>p. pfd p < 0" _ cs] by (cases "place (\<lambda>p. pfd p < 0) (\<lambda>p. p\<lparr>pfd := accepted r, pevents := True\<rparr>) cs") auto
    let ?s = "s\<lparr>maxfd := max ?n (j + 1)\<rparr>"
    note pl = place_settled [OF ps(7) place ps(8,9) _ conn(2,1) ps(10)]
    have t: "table_ok lfd ?C {accepted r} r (maxfd ?s) cs'"
      using pl ps lfd conn by (simp add: table_ok_def)
    have eq: "poll_body slots full s r = (if ?nready - 1 \<le> 0 then Some (Ret (?s\<lparr>fds := l # cs'\<rparr>, []))
        else Some (poll_clients slots ?s r (?nready - 1) l cs'))"
      using ps(1,4) True lfd(1) conn(1) place by (simp add: poll_body_def Let_def)
    have done_all: "map (after r) cs' = cs' \<and> concat (map (slot_effects reply r) cs') = []" if "?nready - 1 \<le> 0"
    proof (rule inactive_map)
      have "length (filter active cs') = 0"
        using that count True pl ps(6) by simp
      then show "\<forall>p\<in>set cs'. \<not> active p"
        by (simp add: filter_empty_conv)
    qed
    have "poll_body slots full s r = Some (Ret (?s\<lparr>fds := l # map (after r) cs'\<rparr>, concat (map (slot_effects reply r) cs')))"
      using eq done_all poll_clients_eq [where slots = slots and reply = reply and n = "?nready - 1" and l = l, OF t nofail _ slots] count True pl ps(6) by auto
    then show ?thesis
      using table_after [where reply = reply and answer = answer, OF t _ lfd(2) refl ps(2,3) reply] lfd(1) True
      by (simp add: C spec_clients_def)
  qed
qed

interpretation own_poll: multiplexer poll_round poll_watched "poll_ok lfd" hangs_up upper "poll_good lfd" for lfd
proof
  fix s r
  assume "poll_ok lfd s" and "poll_good lfd (poll_watched s) r"
  then show "\<exists>s' es. poll_round s r = Some (Ret (s', es)) \<and> poll_ok lfd s'
      \<and> poll_watched s' = spec_clients hangs_up (poll_watched s) r
      \<and> distinct (map fst (writes es)) \<and> set (writes es) = spec_writes upper (poll_watched s) r"
    unfolding poll_round_def
    by (rule poll_body_refines [where reply = "\<lambda>fd d. [Shown d, Wrote fd (upper d)]"]) (simp_all add: poll_slots_eq)
qed (simp_all add: upper_def)

interpretation unp_poll: multiplexer tcppoll_round poll_watched "poll_ok lfd" hangs_up "\<lambda>d. d" "poll_good lfd" for lfd
proof
  fix s r
  assume "poll_ok lfd s" and "poll_good lfd (poll_watched s) r"
  then show "\<exists>s' es. tcppoll_round s r = Some (Ret (s', es)) \<and> poll_ok lfd s'
      \<and> poll_watched s' = spec_clients hangs_up (poll_watched s) r
      \<and> distinct (map fst (writes es)) \<and> set (writes es) = spec_writes (\<lambda>d. d) (poll_watched s) r"
    unfolding tcppoll_round_def
    by (rule poll_body_refines [where reply = "\<lambda>fd d. [Wrote fd d]"]) (simp_all add: tcppoll_slots_eq)
qed simp_all

section \<open>Properties\<close>

text \<open>The servers start in a good state when the uninitialised array happens to show no events.\<close>

lemma poll_start_ok:
  assumes "length junk = OPEN_MAX" and "\<forall>p\<in>set junk. \<not> revents p" and "0 \<le> lfd"
  shows "\<exists>s. poll_start lfd True True junk = Ret s \<and> poll_ok lfd s \<and> poll_watched s = {}"
proof -
  obtain j js where junk: "junk = j # js"
    using assms(1) by (cases junk) (auto simp: OPEN_MAX_def)
  have "in_use (map (\<lambda>p. p\<lparr>pfd := -1\<rparr>) js) = []"
    by (simp add: in_use_def)
  then show ?thesis
    using assms junk by (auto simp: poll_start_def poll_ok_def poll_watched_def Let_def)
qed



text \<open>
  The \<^verbatim>\<open>revents\<close> of a slot that has never been polled is not initialised. If the memory happens to
  show an event there, a connection accepted while another client is ready makes \<^verbatim>\<open>poll.c\<close> read from the
  new connection at once, and the whole server blocks until that client sends something.
\<close>

theorem poll_round_uninitialised:
  "poll_round \<lparr>listener = 3, fds = \<lparr>pfd = 3, pevents = True, revents = x\<rparr> # \<lparr>pfd = 5, pevents = True, revents = y\<rparr>
        # \<lparr>pfd = -1, pevents = e, revents = True\<rparr> # rest, maxfd = 1\<rparr>
      \<lparr>listens = True, accepted = 6, ready = (\<lambda>fd. if fd = 5 then Some (Data d) else None), order = os\<rparr> = Some Blocks"
  by (simp add: poll_round_def poll_body_def poll_sys_def poll_one_def poll_count_def poll_clients_def Let_def)

end
