(* ===== verification/Mux_Select.thy ===== *)
theory Mux_Select
  imports Mux
begin

text \<open>
  The servers built on \<^verbatim>\<open>select\<close>: \<^verbatim>\<open>select.c\<close> of this repository, which looks at every descriptor up to
  the largest, its improved version with an array of clients, and \<^verbatim>\<open>tcpservselect01.c\<close>. An \<^verbatim>\<open>fd_set\<close> is
  a set of descriptors; \<^verbatim>\<open>FD_SET\<close> outside \<open>0 .. FD_SETSIZE - 1\<close> writes outside the bit array, which is
  \<^term>\<open>None\<close>.
\<close>

section \<open>\<^verbatim>\<open>select\<close>\<close>

definition FD_SETSIZE :: nat where
  "FD_SETSIZE = 1024"

definition fd_set :: "int \<Rightarrow> int set \<Rightarrow> int set option" where
  "fd_set fd s = (if 0 \<le> fd \<and> fd < int FD_SETSIZE then Some (insert fd s) else None)"

text \<open>\<^verbatim>\<open>select(maxfd + 1, &rset, ...)\<close> keeps the ready members of the set and returns their number.\<close>

definition select_sys :: "int \<Rightarrow> round \<Rightarrow> int \<Rightarrow> int set \<Rightarrow> int set" where
  "select_sys lfd r maxfd aset =
     Set.filter (\<lambda>fd. fd \<le> maxfd \<and> (if fd = lfd then listens r else ready r fd \<noteq> None)) aset"

record select_server =
  slistener :: int
  client :: "int list"
  maxi :: int
  smaxfd :: int
  allset :: "int set"

text \<open>The part before the loop. \<^verbatim>\<open>select.c\<close> has no array and no \<^verbatim>\<open>maxi\<close>.\<close>

definition select_start :: "int \<Rightarrow> bool \<Rightarrow> bool \<Rightarrow> select_server outcome option" where
  "select_start lfd bind_ok listen_ok =
     (if lfd = -1 then Some (Exits ''socket errno'')
      else if \<not> bind_ok then Some (Exits ''bind errno'')
      else if \<not> listen_ok then Some (Exits ''listenfd errno'')
      else map_option
        (\<lambda>s. Ret \<lparr>slistener = lfd, client = replicate FD_SETSIZE (-1), maxi = -1, smaxfd = lfd, allset = s\<rparr>)
        (fd_set lfd {}))"

section \<open>The improved \<^verbatim>\<open>select\<close> server\<close>

text \<open>The loop over \<^verbatim>\<open>client[0 .. maxi]\<close>: a failed read is ignored; the last event ends the loop.\<close>

fun selopt_slots ::
  "round \<Rightarrow> int set \<Rightarrow> int \<Rightarrow> int list \<Rightarrow> int set \<Rightarrow> (int list \<times> int set \<times> effect list) outcome" where
  "selopt_slots r rset nready [] aset = Ret ([], aset, [])"
| "selopt_slots r rset nready (c # cs) aset =
     (let handled = (\<lambda>c aset es.
            if nready - 1 = 0 then Ret (c # cs, aset, es)
            else bind_outcome (selopt_slots r rset (nready - 1) cs aset)
                   (\<lambda>(cs, aset, fs). Ret (c # cs, aset, es @ fs))) in
      if c < 0 \<or> c \<notin> rset
      then bind_outcome (selopt_slots r rset nready cs aset) (\<lambda>(cs, aset, fs). Ret (c # cs, aset, fs))
      else
        (case ready r c of
           None \<Rightarrow> Blocks
         | Some Fin \<Rightarrow> handled (-1) (aset - {c}) [Closed c]
         | Some (Data d) \<Rightarrow> handled c aset [Wrote c (upper d), Shown (upper d)]
         | Some Reset \<Rightarrow> handled c aset []
         | Some Fail \<Rightarrow> handled c aset []))"

definition selopt_clients ::
  "select_server \<Rightarrow> round \<Rightarrow> int set \<Rightarrow> int \<Rightarrow> (select_server \<times> effect list) outcome" where
  "selopt_clients s r rset nready =
     bind_outcome (selopt_slots r rset nready (take (nat (maxi s + 1)) (client s)) (allset s))
       (\<lambda>(visited, aset, es). Ret (s\<lparr>client := visited @ drop (nat (maxi s + 1)) (client s), allset := aset\<rparr>, es))"

definition selopt_round :: "select_server \<Rightarrow> round \<Rightarrow> (select_server \<times> effect list) outcome option" where
  "selopt_round s r =
     (let rset = select_sys (slistener s) r (smaxfd s) (allset s); nready = int (card rset) in
      if slistener s \<in> rset then
        if accepted r = -1 then Some (Exits ''accrept errno'')
        else
          (case fd_set (accepted r) (allset s) of
             None \<Rightarrow> None
           | Some aset \<Rightarrow>
               (case place (\<lambda>c. c < 0) (\<lambda>c. accepted r) (client s) of
                  None \<Rightarrow> Some (Exits ''too many clients'')
                | Some (i, cs) \<Rightarrow>
                    (let s = s\<lparr>allset := aset, client := cs, smaxfd := max (smaxfd s) (accepted r), maxi := max (maxi s) (int i)\<rparr> in
                     if nready - 1 = 0 then Some (Ret (s, []))
                     else Some (selopt_clients s r rset (nready - 1)))))
      else Some (selopt_clients s r rset nready))"

section \<open>\<^verbatim>\<open>tcpservselect01.c\<close>\<close>

fun tcpsel_slots ::
  "round \<Rightarrow> int set \<Rightarrow> int \<Rightarrow> int list \<Rightarrow> int set \<Rightarrow> (int list \<times> int set \<times> effect list) outcome" where
  "tcpsel_slots r rset nready [] aset = Ret ([], aset, [])"
| "tcpsel_slots r rset nready (c # cs) aset =
     (let handled = (\<lambda>c aset es.
            if nready - 1 \<le> 0 then Ret (c # cs, aset, es)
            else bind_outcome (tcpsel_slots r rset (nready - 1) cs aset)
                   (\<lambda>(cs, aset, fs). Ret (c # cs, aset, es @ fs))) in
      if c < 0 \<or> c \<notin> rset
      then bind_outcome (tcpsel_slots r rset nready cs aset) (\<lambda>(cs, aset, fs). Ret (c # cs, aset, fs))
      else
        (case ready r c of
           None \<Rightarrow> Blocks
         | Some Fin \<Rightarrow> handled (-1) (aset - {c}) [Closed c]
         | Some (Data d) \<Rightarrow> handled c aset [Wrote c d]
         | Some Reset \<Rightarrow> Exits ''read error''
         | Some Fail \<Rightarrow> Exits ''read error''))"

definition tcpsel_clients ::
  "select_server \<Rightarrow> round \<Rightarrow> int set \<Rightarrow> int \<Rightarrow> (select_server \<times> effect list) outcome" where
  "tcpsel_clients s r rset nready =
     bind_outcome (tcpsel_slots r rset nready (take (nat (maxi s + 1)) (client s)) (allset s))
       (\<lambda>(visited, aset, es). Ret (s\<lparr>client := visited @ drop (nat (maxi s + 1)) (client s), allset := aset\<rparr>, es))"

definition tcpsel_round :: "select_server \<Rightarrow> round \<Rightarrow> (select_server \<times> effect list) outcome option" where
  "tcpsel_round s r =
     (let rset = select_sys (slistener s) r (smaxfd s) (allset s); nready = int (card rset) in
      if slistener s \<in> rset then
        if accepted r < 0 then Some (Exits ''accept error'')
        else
          (case place (\<lambda>c. c < 0) (\<lambda>c. accepted r) (client s) of
             None \<Rightarrow> Some (Exits ''too many clients'')
           | Some (i, cs) \<Rightarrow>
               (case fd_set (accepted r) (allset s) of
                  None \<Rightarrow> None
                | Some aset \<Rightarrow>
                    (let s = s\<lparr>allset := aset, client := cs, smaxfd := max (smaxfd s) (accepted r), maxi := max (maxi s) (int i)\<rparr> in
                     if nready - 1 \<le> 0 then Some (Ret (s, []))
                     else Some (tcpsel_clients s r rset (nready - 1)))))
      else Some (tcpsel_clients s r rset nready))"

section \<open>\<^verbatim>\<open>select.c\<close>\<close>

text \<open>The loop over the descriptors \<^verbatim>\<open>listenfd + 1 .. maxfd\<close>. The answer of \<^verbatim>\<open>accept\<close> is not looked at.\<close>

fun select_fds :: "round \<Rightarrow> int set \<Rightarrow> int list \<Rightarrow> int set \<Rightarrow> (int set \<times> effect list) outcome" where
  "select_fds r rset [] aset = Ret (aset, [])"
| "select_fds r rset (i # is) aset =
     (let next_fd = (\<lambda>aset es. bind_outcome (select_fds r rset is aset) (\<lambda>(aset, fs). Ret (aset, es @ fs))) in
      if i \<notin> rset then next_fd aset []
      else
        (case ready r i of
           None \<Rightarrow> Blocks
         | Some Fin \<Rightarrow> next_fd (aset - {i}) [Closed i]
         | Some (Data d) \<Rightarrow> next_fd aset [Wrote i (upper d)]
         | Some Reset \<Rightarrow> next_fd aset []
         | Some Fail \<Rightarrow> next_fd aset []))"

definition select_clients ::
  "select_server \<Rightarrow> round \<Rightarrow> int set \<Rightarrow> (select_server \<times> effect list) outcome" where
  "select_clients s r rset =
     bind_outcome (select_fds r rset [slistener s + 1..smaxfd s] (allset s))
       (\<lambda>(aset, es). Ret (s\<lparr>allset := aset\<rparr>, es))"

definition select_round :: "select_server \<Rightarrow> round \<Rightarrow> (select_server \<times> effect list) outcome option" where
  "select_round s r =
     (let rset = select_sys (slistener s) r (smaxfd s) (allset s); nready = int (card rset) in
      if slistener s \<in> rset then
        (case fd_set (accepted r) (allset s) of
           None \<Rightarrow> None
         | Some aset \<Rightarrow>
             (let s = s\<lparr>allset := aset, smaxfd := max (smaxfd s) (accepted r)\<rparr> in
              if nready - 1 = 0 then Some (Ret (s, []))
              else Some (select_clients s r rset)))
      else Some (select_clients s r rset))"

section \<open>The loops in closed form\<close>

definition closes :: "rd \<Rightarrow> bool" where
  "closes a \<longleftrightarrow> a = Fin"

definition leaves :: "round \<Rightarrow> int set \<Rightarrow> int \<Rightarrow> bool" where
  "leaves r R c \<longleftrightarrow> c \<in> R \<and> ready r c = Some Fin"

definition slot_after :: "round \<Rightarrow> int set \<Rightarrow> int \<Rightarrow> int" where
  "slot_after r R c = (if 0 \<le> c \<and> leaves r R c then -1 else c)"

definition fd_effects :: "(int \<Rightarrow> u8 list \<Rightarrow> effect list) \<Rightarrow> round \<Rightarrow> int set \<Rightarrow> int \<Rightarrow> effect list" where
  "fd_effects reply r R c =
     (if 0 \<le> c \<and> c \<in> R then
        (case ready r c of Some (Data d) \<Rightarrow> reply c d | Some Fin \<Rightarrow> [Closed c] | _ \<Rightarrow> [])
      else [])"

abbreviation effects_of :: "(int \<Rightarrow> u8 list \<Rightarrow> effect list) \<Rightarrow> round \<Rightarrow> int set \<Rightarrow> int list \<Rightarrow> effect list" where
  "effects_of reply r R cs \<equiv> concat (map (fd_effects reply r R) cs)"

definition in_slots :: "int list \<Rightarrow> int list" where
  "in_slots cs = filter (\<lambda>c. 0 \<le> c) cs"

definition left :: "round \<Rightarrow> int set \<Rightarrow> int list \<Rightarrow> int set" where
  "left r R cs = {c. c \<in> set (in_slots cs) \<and> leaves r R c}"

lemma left_simps [simp]:
  "left r R [] = {}" "left r R (c # cs) = (if 0 \<le> c \<and> leaves r R c then insert c (left r R cs) else left r R cs)"
  by (auto simp: left_def in_slots_def)

definition busy :: "int set \<Rightarrow> int list \<Rightarrow> int list" where
  "busy R cs = filter (\<lambda>c. 0 \<le> c \<and> c \<in> R) cs"

lemma idle_slots:
  "busy R cs = [] \<Longrightarrow> map (slot_after r R) cs = cs \<and> effects_of reply r R cs = [] \<and> left r R cs = {}"
  by (induction cs) (auto simp: busy_def slot_after_def fd_effects_def leaves_def split: if_splits)

lemma ready_slot:
  assumes "0 \<le> c" and "c \<in> R" and "ready r c = Some a"
  shows "slot_after r R c = (if a = Fin then -1 else c)"
    and "fd_effects reply r R c = (case a of Data d \<Rightarrow> reply c d | Fin \<Rightarrow> [Closed c] | _ \<Rightarrow> [])"
    and "left r R (c # cs) = (if a = Fin then insert c (left r R cs) else left r R cs)"
  using assms by (simp_all add: slot_after_def fd_effects_def leaves_def)

lemma other_slot:
  assumes "\<not> (0 \<le> c \<and> c \<in> R)"
  shows "slot_after r R c = c" and "fd_effects reply r R c = []" and "left r R (c # cs) = left r R cs"
  using assms by (auto simp: slot_after_def fd_effects_def leaves_def)

lemma busy_last:
  assumes "int (length (busy R cs)) \<le> n" and "n \<le> 0"
  shows "busy R cs = []"
proof -
  have "length (busy R cs) = 0"
    using assms by linarith
  then show ?thesis
    by simp
qed

lemma selopt_slots_eq:
  "\<forall>c\<in>set (busy R cs). ready r c \<noteq> None \<Longrightarrow> int (length (busy R cs)) \<le> n \<Longrightarrow>
    selopt_slots r R n cs S = Ret (map (slot_after r R) cs, S - left r R cs,
      effects_of (\<lambda>c d. [Wrote c (upper d), Shown (upper d)]) r R cs)"
proof (induction cs arbitrary: n S)
  case (Cons c cs)
  show ?case
  proof (cases "0 \<le> c \<and> c \<in> R")
    case False
    then show ?thesis
      using Cons other_slot [OF False] by (auto simp: busy_def)
  next
    case True
    then obtain a where a: "ready r c = Some a"
      using Cons.prems(1) by (auto simp: busy_def)
    have rest: "\<forall>c\<in>set (busy R cs). ready r c \<noteq> None"
      using Cons.prems(1) by (auto simp: busy_def)
    have n: "int (length (busy R cs)) \<le> n - 1"
      using Cons.prems(2) True by (simp add: busy_def)
    show ?thesis
    proof (cases "n - 1 = 0")
      case last: True
      then have "busy R cs = []"
        using busy_last [OF n] by simp
      note idle_slots [OF this, of r]
      then show ?thesis
        using True a last ready_slot [of c R r a] by (cases a) (simp_all del: left_simps(2))
    next
      case False
      then show ?thesis
        using True a Cons.IH [OF rest n]
          ready_slot [of c R r a]
        by (cases a) (simp_all add: Diff_insert2 [symmetric] del: left_simps(2))
    qed
  qed
qed simp

lemma tcpsel_slots_eq:
  "\<forall>c\<in>set (busy R cs). ready r c \<noteq> None \<and> ready r c \<noteq> Some Reset \<and> ready r c \<noteq> Some Fail \<Longrightarrow> int (length (busy R cs)) \<le> n \<Longrightarrow>
    tcpsel_slots r R n cs S = Ret (map (slot_after r R) cs, S - left r R cs, effects_of (\<lambda>c d. [Wrote c d]) r R cs)"
proof (induction cs arbitrary: n S)
  case (Cons c cs)
  show ?case
  proof (cases "0 \<le> c \<and> c \<in> R")
    case False
    then show ?thesis
      using Cons other_slot [OF False] by (auto simp: busy_def)
  next
    case True
    then obtain a where a: "ready r c = Some a" "a \<noteq> Reset" "a \<noteq> Fail"
      using Cons.prems(1) by (auto simp: busy_def)
    have rest: "\<forall>c\<in>set (busy R cs). ready r c \<noteq> None \<and> ready r c \<noteq> Some Reset \<and> ready r c \<noteq> Some Fail"
      using Cons.prems(1) by (auto simp: busy_def)
    have n: "int (length (busy R cs)) \<le> n - 1"
      using Cons.prems(2) True by (simp add: busy_def)
    show ?thesis
    proof (cases "n - 1 \<le> 0")
      case last: True
      then have "busy R cs = []"
        using busy_last [OF n] by simp
      note idle_slots [OF this, of r]
      then show ?thesis
        using True a last ready_slot [of c R r a] by (cases a) (simp_all del: left_simps(2))
    next
      case False
      then show ?thesis
        using True a Cons.IH [OF rest n]
          ready_slot [of c R r a]
        by (cases a) (simp_all add: Diff_insert2 [symmetric] del: left_simps(2))
    qed
  qed
qed simp

lemma select_fds_eq:
  "\<forall>c\<in>set cs. 0 \<le> c \<and> (c \<in> R \<longrightarrow> ready r c \<noteq> None) \<Longrightarrow>
    select_fds r R cs S = Ret (S - left r R cs, effects_of (\<lambda>c d. [Wrote c (upper d)]) r R cs)"
proof (induction cs arbitrary: S)
  case (Cons c cs)
  show ?case
  proof (cases "c \<in> R")
    case True
    then obtain a where a: "ready r c = Some a"
      using Cons.prems(1) by auto
    then show ?thesis
      using True Cons ready_slot [of c R r a] by (cases a) (simp_all add: Diff_insert2 [symmetric] del: left_simps(2))
  qed (use Cons other_slot [of c R] in \<open>simp del: left_simps(2)\<close>)
qed simp

section \<open>The contract\<close>

lemma in_slots_after: "in_slots (map (slot_after r R) cs) = filter (\<lambda>c. \<not> leaves r R c) (in_slots cs)"
  by (induction cs) (auto simp: in_slots_def slot_after_def)

lemma fd_writes:
  assumes "\<And>c d. writes (reply c d) = [(c, answer d)]"
  shows "writes (effects_of reply r R cs) =
    map (\<lambda>c. (c, answer (bytes_of r c))) (filter (\<lambda>c. c \<in> R \<and> (\<exists>d. ready r c = Some (Data d))) (in_slots cs))"
proof (induction cs)
  case (Cons c cs)
  have "writes (fd_effects reply r R c) =
      (if 0 \<le> c \<and> c \<in> R \<and> (\<exists>d. ready r c = Some (Data d)) then [(c, answer (bytes_of r c))] else [])"
  proof (cases "ready r c")
    case (Some a)
    then show ?thesis
      using assms by (cases a) (simp_all add: fd_effects_def bytes_of_def)
  qed (simp add: fd_effects_def)
  with Cons show ?case
    by (simp add: in_slots_def)
qed (simp add: in_slots_def)

text \<open>
  The loop over \<open>cs\<close> visits all clients \<open>C\<close>, and what it finds in \<open>R\<close> are the readable clients.
\<close>

definition round_ok :: "int set \<Rightarrow> round \<Rightarrow> int set \<Rightarrow> int list \<Rightarrow> bool" where
  "round_ok C r R cs \<longleftrightarrow> distinct (in_slots cs) \<and> C \<subseteq> set (in_slots cs)
     \<and> R \<inter> set (in_slots cs) = {c \<in> C. ready r c \<noteq> None}"

lemma round_ok_ready:
  assumes "round_ok C r R cs" and "c \<in> set (in_slots cs)"
  shows "c \<in> R \<longleftrightarrow> c \<in> C \<and> ready r c \<noteq> None"
  using assms unfolding round_ok_def by blast

lemma round_left:
  assumes "round_ok C r R cs"
  shows "left r R cs = {c \<in> C. ready r c = Some Fin}"
proof -
  have "leaves r R c \<longleftrightarrow> c \<in> C \<and> ready r c = Some Fin" if "c \<in> set (in_slots cs)" for c
    using round_ok_ready [OF assms that] by (auto simp: leaves_def)
  then show ?thesis
    using assms unfolding left_def round_ok_def by blast
qed

lemma round_writes:
  assumes "round_ok C r R cs" and "\<And>c d. writes (reply c d) = [(c, answer d)]"
  shows "set (writes (effects_of reply r R cs)) = spec_writes answer C r"
    and "distinct (map fst (writes (effects_of reply r R cs)))"
proof -
  note w = fd_writes [where reply = reply and answer = answer, OF assms(2), of r R cs]
  have "{c \<in> set (in_slots cs). c \<in> R \<and> (\<exists>d. ready r c = Some (Data d))} = {c \<in> C. \<exists>d. ready r c = Some (Data d)}"
    using assms(1) unfolding round_ok_def by blast
  then have "set (writes (effects_of reply r R cs)) = (\<lambda>c. (c, answer (bytes_of r c))) ` {c \<in> C. \<exists>d. ready r c = Some (Data d)}"
    unfolding w set_map set_filter by simp
  then show "set (writes (effects_of reply r R cs)) = spec_writes answer C r"
    by (auto simp: spec_writes_def bytes_of_def)
  show "distinct (map fst (writes (effects_of reply r R cs)))"
    unfolding w using assms(1) by (simp add: round_ok_def o_def)
qed

lemma length_busy:
  assumes "round_ok C r R cs"
  shows "set (busy R cs) = {c \<in> C. ready r c \<noteq> None}" and "length (busy R cs) = card {c \<in> C. ready r c \<noteq> None}"
proof -
  have busy: "busy R cs = filter (\<lambda>c. c \<in> R) (in_slots cs)"
    by (induction cs) (simp_all add: busy_def in_slots_def)
  then show set: "set (busy R cs) = {c \<in> C. ready r c \<noteq> None}"
    using assms by (auto simp: round_ok_def)
  have "distinct (busy R cs)"
    using assms by (simp add: busy round_ok_def)
  then show "length (busy R cs) = card {c \<in> C. ready r c \<noteq> None}"
    using distinct_card set by fastforce
qed

text \<open>The set \<^verbatim>\<open>select\<close> leaves, and its size.\<close>

lemma select_sys_eq:
  assumes "lfd \<notin> C" and "\<forall>c\<in>insert lfd C. c \<le> m"
  shows "select_sys lfd r m (insert lfd C) = (if listens r then {lfd} else {}) \<union> {c \<in> C. ready r c \<noteq> None}"
  using assms by (auto simp: select_sys_def)

lemma select_sys_card:
  assumes "lfd \<notin> C" and "\<forall>c\<in>insert lfd C. c \<le> m" and "finite C"
  shows "int (card (select_sys lfd r m (insert lfd C))) = of_bool (listens r) + int (card {c \<in> C. ready r c \<noteq> None})"
  unfolding select_sys_eq [OF assms(1,2)] using assms(1,3) by (simp add: card_insert_if)

section \<open>The array of clients\<close>

definition select_watched :: "select_server \<Rightarrow> int set" where
  "select_watched s = allset s - {slistener s}"

definition select_table :: "int \<Rightarrow> select_server \<Rightarrow> bool" where
  "select_table lfd s \<longleftrightarrow> slistener s = lfd \<and> 0 \<le> lfd \<and> lfd < int FD_SETSIZE \<and> length (client s) = FD_SETSIZE
     \<and> distinct (lfd # in_slots (client s)) \<and> allset s = insert lfd (set (in_slots (client s)))
     \<and> (\<forall>c\<in>allset s. c \<le> smaxfd s \<and> c < int FD_SETSIZE)
     \<and> -1 \<le> maxi s \<and> (\<forall>c\<in>set (drop (nat (maxi s + 1)) (client s)). c < 0)"

text \<open>A new connection has a new descriptor, of those an \<^verbatim>\<open>fd_set\<close> can hold.\<close>

definition select_good :: "int \<Rightarrow> int set \<Rightarrow> round \<Rightarrow> bool" where
  "select_good lfd C r \<longleftrightarrow> (listens r \<longrightarrow> 0 \<le> accepted r \<and> accepted r < int FD_SETSIZE \<and> accepted r \<notin> C \<and> accepted r \<noteq> lfd)"

lemma select_table_watched: "select_table lfd s \<Longrightarrow> select_watched s = set (in_slots (client s))"
  by (auto simp: select_table_def select_watched_def)

text \<open>There is always a free element: the listening socket has one of the \<^verbatim>\<open>FD_SETSIZE\<close> descriptors.\<close>

lemma select_table_free:
  assumes "select_table lfd s"
  shows "\<exists>c\<in>set (client s). c < 0"
proof (rule ccontr)
  assume full: "\<not> ?thesis"
  then have all: "in_slots (client s) = client s"
    by (auto simp: in_slots_def filter_id_conv)
  have "set (lfd # client s) \<subseteq> {0..<int FD_SETSIZE}"
    using assms all full by (auto simp: select_table_def)
  then have "card (set (lfd # client s)) \<le> FD_SETSIZE"
    using card_mono [of "{0..<int FD_SETSIZE}"] by fastforce
  moreover have "card (set (lfd # client s)) = Suc FD_SETSIZE"
    using assms all distinct_card [of "lfd # client s"] by (simp add: select_table_def)
  ultimately show False
    by simp
qed

abbreviation accept_in :: "round \<Rightarrow> nat \<Rightarrow> int list \<Rightarrow> select_server \<Rightarrow> select_server" where
  "accept_in r i cs s \<equiv> s\<lparr>allset := insert (accepted r) (allset s), client := cs,
     smaxfd := max (smaxfd s) (accepted r), maxi := max (maxi s) (int i)\<rparr>"

lemma select_accept:
  assumes "select_table lfd s" and "select_good lfd (select_watched s) r" and "listens r"
  shows "\<exists>i cs. place (\<lambda>c. c < 0) (\<lambda>c. accepted r) (client s) = Some (i, cs) \<and> select_table lfd (accept_in r i cs s)"
proof -
  obtain i cs where p: "place (\<lambda>c. c < 0) (\<lambda>c. accepted r) (client s) = Some (i, cs)"
    using select_table_free [OF assms(1)] place_None [of "\<lambda>c. c < 0" "\<lambda>c. accepted r" "client s"] by fastforce
  then obtain pre c post where split: "client s = pre @ c # post" "length pre = i" "c < 0" "cs = pre @ accepted r # post"
    using place_Some [OF p] by blast
  have new: "0 \<le> accepted r" "accepted r < int FD_SETSIZE" "accepted r \<notin> set (in_slots (client s))" "accepted r \<noteq> lfd"
    using assms select_table_watched [OF assms(1)] by (auto simp: select_good_def)
  have slots: "in_slots (client s) = in_slots pre @ in_slots post" "in_slots cs = in_slots pre @ accepted r # in_slots post"
    using split new(1) by (simp_all add: in_slots_def)
  have "\<forall>c\<in>set (drop (nat (max (maxi s) (int i) + 1)) cs). c < 0"
  proof -
    have "drop (nat (max (maxi s) (int i) + 1)) cs = drop (nat (max (maxi s) (int i) + 1)) (client s)"
    proof -
      have "nat (max (maxi s) (int i) + 1) = Suc (i + nat (max (maxi s) (int i) - int i))"
        by linarith
      then show ?thesis
        using split by simp
    qed
    moreover have "nat (maxi s + 1) \<le> nat (max (maxi s) (int i) + 1)"
      by linarith
    then have "set (drop (nat (max (maxi s) (int i) + 1)) (client s)) \<subseteq> set (drop (nat (maxi s + 1)) (client s))"
      by (rule set_drop_subset_set_drop)
    ultimately show ?thesis
      using assms(1) by (auto simp: select_table_def)
  qed
  moreover have "length cs = FD_SETSIZE" "distinct (lfd # in_slots cs)"
    using assms(1) new slots split by (auto simp: select_table_def)
  moreover have "insert (accepted r) (allset s) = insert lfd (set (in_slots cs))"
    using assms(1) slots by (auto simp: select_table_def)
  moreover have "\<forall>c\<in>insert (accepted r) (allset s). c \<le> max (smaxfd s) (accepted r) \<and> c < int FD_SETSIZE"
    using assms(1) new(2) by (auto simp: select_table_def le_max_iff_disj)
  moreover have "-1 \<le> max (maxi s) (int i)"
    by simp
  moreover have "slistener s = lfd" "0 \<le> lfd" "lfd < int FD_SETSIZE"
    using assms(1) by (simp_all add: select_table_def)
  ultimately have "select_table lfd (accept_in r i cs s)"
    by (simp add: select_table_def)
  then show ?thesis
    using p by blast
qed

text \<open>The loop over the array, in closed form on the whole state.\<close>

definition visit :: "(int \<Rightarrow> u8 list \<Rightarrow> effect list) \<Rightarrow> round \<Rightarrow> int set \<Rightarrow> select_server \<Rightarrow> select_server \<times> effect list" where
  "visit reply r R s =
     (s\<lparr>client := map (slot_after r R) (client s), allset := allset s - left r R (client s)\<rparr>,
      effects_of reply r R (client s))"

lemma unused_slots:
  assumes "\<forall>c\<in>set (drop n cs). c < 0"
  shows "map (slot_after r R) (take n cs) @ drop n cs = map (slot_after r R) cs"
    and "left r R (take n cs) = left r R cs"
    and "effects_of reply r R (take n cs) = effects_of reply r R cs"
    and "busy R (take n cs) = busy R cs"
proof -
  have idle: "busy R (drop n cs) = []" "in_slots (drop n cs) = []"
    using assms by (auto simp: busy_def in_slots_def filter_empty_conv)
  have cs: "f (take n cs) @ f (drop n cs) = f cs" if "\<And>xs ys. f (xs @ ys) = f xs @ f ys" for f :: "int list \<Rightarrow> 'a list"
    using that [of "take n cs" "drop n cs"] by simp
  show "map (slot_after r R) (take n cs) @ drop n cs = map (slot_after r R) cs"
    using cs [of "map (slot_after r R)"] idle_slots [OF idle(1), of r] by simp
  show "effects_of reply r R (take n cs) = effects_of reply r R cs"
    using cs [of "effects_of reply r R"] idle_slots [OF idle(1), of r] by simp
  show "busy R (take n cs) = busy R cs"
    using cs [of "busy R"] idle(1) by (simp add: busy_def)
  show "left r R (take n cs) = left r R cs"
    using cs [of in_slots] idle(2) by (simp add: in_slots_def left_def)
qed

lemma selopt_clients_eq:
  assumes "select_table lfd s" and "\<forall>c\<in>set (busy R (client s)). ready r c \<noteq> None" and "int (length (busy R (client s))) \<le> n"
  shows "selopt_clients s r R n = Ret (visit (\<lambda>c d. [Wrote c (upper d), Shown (upper d)]) r R s)"
proof -
  have unused: "\<forall>c\<in>set (drop (nat (maxi s + 1)) (client s)). c < 0"
    using assms(1) by (simp add: select_table_def)
  have "selopt_slots r R n (take (nat (maxi s + 1)) (client s)) (allset s) =
      Ret (map (slot_after r R) (take (nat (maxi s + 1)) (client s)), allset s - left r R (client s),
        effects_of (\<lambda>c d. [Wrote c (upper d), Shown (upper d)]) r R (client s))"
    using assms(2,3) selopt_slots_eq [of R "take (nat (maxi s + 1)) (client s)" r n "allset s"]
    unfolding unused_slots(2,3,4) [OF unused] by blast
  then show ?thesis
    by (simp add: selopt_clients_def visit_def unused_slots(1) [OF unused])
qed

lemma tcpsel_clients_eq:
  assumes "select_table lfd s"
    and "\<forall>c\<in>set (busy R (client s)). ready r c \<noteq> None \<and> ready r c \<noteq> Some Reset \<and> ready r c \<noteq> Some Fail"
    and "int (length (busy R (client s))) \<le> n"
  shows "tcpsel_clients s r R n = Ret (visit (\<lambda>c d. [Wrote c d]) r R s)"
proof -
  have unused: "\<forall>c\<in>set (drop (nat (maxi s + 1)) (client s)). c < 0"
    using assms(1) by (simp add: select_table_def)
  have "tcpsel_slots r R n (take (nat (maxi s + 1)) (client s)) (allset s) =
      Ret (map (slot_after r R) (take (nat (maxi s + 1)) (client s)), allset s - left r R (client s),
        effects_of (\<lambda>c d. [Wrote c d]) r R (client s))"
    using assms(2,3) tcpsel_slots_eq [of R "take (nat (maxi s + 1)) (client s)" r n "allset s"]
    unfolding unused_slots(2,3,4) [OF unused] by blast
  then show ?thesis
    by (simp add: tcpsel_clients_def visit_def unused_slots(1) [OF unused])
qed

lemma visit_table:
  assumes "select_table lfd s" and "round_ok C r R (client s)"
  shows "select_table lfd (fst (visit reply r R s))"
    and "select_watched (fst (visit reply r R s)) = select_watched s - {fd \<in> C. ready r fd = Some Fin}"
proof -
  let ?n = "nat (maxi s + 1)" and ?cs = "map (slot_after r R) (client s)"
  have slots: "set (in_slots ?cs) = set (in_slots (client s)) - {fd \<in> C. ready r fd = Some Fin}"
    unfolding in_slots_after round_left [OF assms(2), symmetric] by (auto simp: left_def)
  have C: "lfd \<notin> C"
    using assms unfolding round_ok_def select_table_def by auto
  have "drop ?n ?cs = map (slot_after r R) (drop ?n (client s))"
    by (rule drop_map)
  then have unused: "\<forall>c\<in>set (drop ?n ?cs). c < 0"
    using assms(1) by (auto simp: select_table_def slot_after_def)
  have all: "allset s - left r R (client s) = insert lfd (set (in_slots ?cs))"
    unfolding slots round_left [OF assms(2)] using assms(1) C by (auto simp: select_table_def)
  have "distinct (lfd # in_slots ?cs)"
    using assms(1) unfolding in_slots_after by (simp add: select_table_def)
  moreover have "\<forall>c\<in>insert lfd (set (in_slots ?cs)). c \<le> smaxfd s \<and> c < int FD_SETSIZE"
    using assms(1) unfolding all [symmetric] by (simp add: select_table_def)
  ultimately show table: "select_table lfd (fst (visit reply r R s))"
    using assms(1) unused all by (simp add: select_table_def visit_def)
  show "select_watched (fst (visit reply r R s)) = select_watched s - {fd \<in> C. ready r fd = Some Fin}"
    unfolding select_table_watched [OF table] select_table_watched [OF assms(1)] slots [symmetric] by (simp add: visit_def)
qed

section \<open>The rounds\<close>

text \<open>
  Where no error ends it, a round of both array servers accepts, then visits: the early return after
  the last event leaves out a loop that would do nothing.
\<close>

definition accept_if :: "round \<Rightarrow> select_server \<Rightarrow> select_server" where
  "accept_if r s =
     (if listens r then
        (case place (\<lambda>c. c < 0) (\<lambda>c. accepted r) (client s) of
           None \<Rightarrow> s
         | Some (i, cs) \<Rightarrow> accept_in r i cs s)
      else s)"

lemma accept_if_table:
  assumes "select_table lfd s" and "select_good lfd (select_watched s) r"
  shows "select_table lfd (accept_if r s)"
    and "select_watched (accept_if r s) = select_watched s \<union> (if listens r then {accepted r} else {})"
proof -
  have "\<exists>i cs. accept_if r s = accept_in r i cs s \<and> select_table lfd (accept_if r s)" if l: "listens r"
  proof -
    obtain i cs where "place (\<lambda>c. c < 0) (\<lambda>c. accepted r) (client s) = Some (i, cs)" "select_table lfd (accept_in r i cs s)"
      using select_accept [OF assms l] by blast
    then show ?thesis
      using l by (intro exI [of _ i] exI [of _ cs]) (simp add: accept_if_def)
  qed
  note yes = this
  have no: "accept_if r s = s" if "\<not> listens r"
    using that by (simp add: accept_if_def)
  have lfd: "slistener s = lfd" "listens r \<longrightarrow> accepted r \<noteq> lfd"
    using assms by (simp_all add: select_table_def select_good_def)
  show "select_table lfd (accept_if r s)"
    using assms(1) yes no by (cases "listens r") auto
  show "select_watched (accept_if r s) = select_watched s \<union> (if listens r then {accepted r} else {})"
  proof (cases "listens r")
    case True
    then obtain i cs where "accept_if r s = accept_in r i cs s"
      using yes by blast
    then show ?thesis
      using True lfd by (auto simp: select_watched_def)
  next
    case False
    then show ?thesis
      using no by simp
  qed
qed

abbreviation selected :: "select_server \<Rightarrow> round \<Rightarrow> int set" where
  "selected s r \<equiv> select_sys (slistener s) r (smaxfd s) (allset s)"

lemma selected_round:
  assumes "select_table lfd s" and "select_good lfd (select_watched s) r"
  shows "selected s r = (if listens r then {lfd} else {}) \<union> {c \<in> select_watched s. ready r c \<noteq> None}"
    and "int (card (selected s r)) = of_bool (listens r) + int (length (busy (selected s r) (client (accept_if r s))))"
    and "round_ok (select_watched s) r (selected s r) (client (accept_if r s))"
proof -
  let ?C = "select_watched s"
  have C: "slistener s = lfd" "allset s = insert lfd ?C" "lfd \<notin> ?C" "finite ?C" "\<forall>c\<in>insert lfd ?C. c \<le> smaxfd s"
    using assms(1) select_table_watched [OF assms(1)] by (auto simp: select_table_def)
  show R: "selected s r = (if listens r then {lfd} else {}) \<union> {c \<in> ?C. ready r c \<noteq> None}"
    unfolding C(1,2) by (rule select_sys_eq [OF C(3,5)])
  note table = accept_if_table [OF assms]
  have slots: "set (in_slots (client (accept_if r s))) = ?C \<union> (if listens r then {accepted r} else {})"
    using table(2) unfolding select_table_watched [OF table(1)] .
  have "listens r \<longrightarrow> accepted r \<notin> ?C \<and> accepted r \<noteq> lfd"
    using assms(2) by (simp add: select_good_def)
  then show ok: "round_ok ?C r (selected s r) (client (accept_if r s))"
    using table(1) C(3) unfolding round_ok_def slots R by (auto simp: select_table_def)
  show "int (card (selected s r)) = of_bool (listens r) + int (length (busy (selected s r) (client (accept_if r s))))"
    unfolding length_busy(2) [OF ok] using select_sys_card [OF C(3,5,4)] unfolding C(1,2) .
qed

lemma visit_refines:
  assumes "select_table lfd s" and "select_good lfd (select_watched s) r" and "\<And>c d. writes (reply c d) = [(c, answer d)]"
    and "rnd s r = Some (Ret (visit reply r (selected s r) (accept_if r s)))"
  shows "\<exists>s' es. rnd s r = Some (Ret (s', es)) \<and> select_table lfd s' \<and> select_watched s' = spec_clients closes (select_watched s) r
    \<and> distinct (map fst (writes es)) \<and> set (writes es) = spec_writes answer (select_watched s) r"
proof -
  let ?v = "visit reply r (selected s r) (accept_if r s)"
  note table = accept_if_table [OF assms(1,2)] and ok = selected_round(3) [OF assms(1,2)]
  have "listens r \<longrightarrow> accepted r \<notin> select_watched s"
    using assms(2) by (simp add: select_good_def)
  then have "select_watched (fst ?v) = spec_clients closes (select_watched s) r"
    unfolding visit_table(2) [OF table(1) ok] table(2) spec_clients_def closes_def by auto
  moreover have "set (writes (snd ?v)) = spec_writes answer (select_watched s) r" "distinct (map fst (writes (snd ?v)))"
    using round_writes [where reply = reply and answer = answer, OF ok assms(3)] by (simp_all add: visit_def)
  ultimately show ?thesis
    using visit_table(1) [OF table(1) ok] assms(4) by (intro exI [of _ "fst ?v"] exI [of _ "snd ?v"]) simp
qed

lemma visit_idle: "busy R (client s) = [] \<Longrightarrow> visit reply r R s = (s, [])"
  using idle_slots [of R "client s" r reply] by (simp add: visit_def)

lemma accept_round:
  assumes "select_table lfd s" and "select_good lfd (select_watched s) r" and "listens r"
  shows "\<exists>i cs. accept_if r s = accept_in r i cs s \<and> place (\<lambda>c. c < 0) (\<lambda>c. accepted r) (client s) = Some (i, cs)"
    and "fd_set (accepted r) (allset s) = Some (insert (accepted r) (allset s))" and "0 \<le> accepted r"
    and "slistener s \<in> selected s r" and "int (card (selected s r)) - 1 = int (length (busy (selected s r) (client (accept_if r s))))"
proof -
  obtain i cs where "place (\<lambda>c. c < 0) (\<lambda>c. accepted r) (client s) = Some (i, cs)"
    using select_accept [OF assms] by blast
  then show "\<exists>i cs. accept_if r s = accept_in r i cs s \<and> place (\<lambda>c. c < 0) (\<lambda>c. accepted r) (client s) = Some (i, cs)"
    using assms(3) by (intro exI [of _ i] exI [of _ cs]) (simp add: accept_if_def)
  show "0 \<le> accepted r" "fd_set (accepted r) (allset s) = Some (insert (accepted r) (allset s))"
    using assms(2,3) by (simp_all add: select_good_def fd_set_def)
  show "int (card (selected s r)) - 1 = int (length (busy (selected s r) (client (accept_if r s))))"
    using selected_round(2) [OF assms(1,2)] assms(3) by simp
  show "slistener s \<in> selected s r"
    using selected_round(1) [OF assms(1,2)] assms(1,3) by (simp add: select_table_def)
qed

lemma quiet_round:
  assumes "select_table lfd s" and "select_good lfd (select_watched s) r" and "\<not> listens r"
  shows "accept_if r s = s" and "slistener s \<notin> selected s r"
    and "int (card (selected s r)) = int (length (busy (selected s r) (client s)))"
  using selected_round(1,2) [OF assms(1,2)] assms by (auto simp: accept_if_def select_watched_def)

lemma selopt_round_eq:
  assumes "select_table lfd s" and "select_good lfd (select_watched s) r"
  shows "selopt_round s r =
    Some (Ret (visit (\<lambda>c d. [Wrote c (upper d), Shown (upper d)]) r (selected s r) (accept_if r s)))"
proof -
  have "\<forall>c\<in>set (busy (selected s r) (client (accept_if r s))). ready r c \<noteq> None"
    unfolding length_busy(1) [OF selected_round(3) [OF assms]] by simp
  note loop = selopt_clients_eq [OF accept_if_table(1) [OF assms] this]
  show ?thesis
  proof (cases "listens r")
    case True
    note a = accept_round [OF assms True]
    obtain i cs where i: "accept_if r s = accept_in r i cs s" "place (\<lambda>c. c < 0) (\<lambda>c. accepted r) (client s) = Some (i, cs)"
      using a(1) by blast
    have "selopt_round s r = Some (if int (card (selected s r)) - 1 = 0 then Ret (accept_if r s, [])
        else selopt_clients (accept_if r s) r (selected s r) (int (card (selected s r)) - 1))"
      unfolding selopt_round_def Let_def i(1) using i(2) a(2,3,4) by simp
    then show ?thesis
      using visit_idle [of "selected s r" "accept_if r s"] unfolding a(5) by (simp add: loop)
  next
    case False
    note q = quiet_round [OF assms False]
    have "selopt_round s r = Some (selopt_clients (accept_if r s) r (selected s r) (int (card (selected s r))))"
      unfolding selopt_round_def Let_def q(1) using q(2) by simp
    then show ?thesis
      using loop q(1,3) by simp
  qed
qed

text \<open>\<^verbatim>\<open>tcpservselect01.c\<close> ends when a read fails, also after a reset.\<close>

definition tcpsel_good :: "int \<Rightarrow> int set \<Rightarrow> round \<Rightarrow> bool" where
  "tcpsel_good lfd C r \<longleftrightarrow> select_good lfd C r \<and> (\<forall>c\<in>C. ready r c \<noteq> Some Reset \<and> ready r c \<noteq> Some Fail)"

lemma tcpsel_round_eq:
  assumes "select_table lfd s" and "tcpsel_good lfd (select_watched s) r"
  shows "tcpsel_round s r = Some (Ret (visit (\<lambda>c d. [Wrote c d]) r (selected s r) (accept_if r s)))"
proof -
  have good: "select_good lfd (select_watched s) r"
    using assms(2) by (simp add: tcpsel_good_def)
  have "\<forall>c\<in>set (busy (selected s r) (client (accept_if r s))). ready r c \<noteq> None \<and> ready r c \<noteq> Some Reset \<and> ready r c \<noteq> Some Fail"
    unfolding length_busy(1) [OF selected_round(3) [OF assms(1) good]] using assms(2) by (simp add: tcpsel_good_def)
  note loop = tcpsel_clients_eq [OF accept_if_table(1) [OF assms(1) good] this]
  show ?thesis
  proof (cases "listens r")
    case True
    note a = accept_round [OF assms(1) good True]
    obtain i cs where i: "accept_if r s = accept_in r i cs s" "place (\<lambda>c. c < 0) (\<lambda>c. accepted r) (client s) = Some (i, cs)"
      using a(1) by blast
    have "tcpsel_round s r = Some (if int (card (selected s r)) - 1 \<le> 0 then Ret (accept_if r s, [])
        else tcpsel_clients (accept_if r s) r (selected s r) (int (card (selected s r)) - 1))"
      unfolding tcpsel_round_def Let_def i(1) using i(2) a(2,3,4) by simp
    then show ?thesis
      using visit_idle [of "selected s r" "accept_if r s"] unfolding a(5) by (simp add: loop)
  next
    case False
    note q = quiet_round [OF assms(1) good False]
    have "tcpsel_round s r = Some (tcpsel_clients (accept_if r s) r (selected s r) (int (card (selected s r))))"
      unfolding tcpsel_round_def Let_def q(1) using q(2) by simp
    then show ?thesis
      using loop q(1,3) by simp
  qed
qed

section \<open>Every descriptor up to the largest\<close>

text \<open>\<^verbatim>\<open>select.c\<close> looks above the listening socket only, so every client has a larger descriptor.\<close>

definition select_ok :: "int \<Rightarrow> select_server \<Rightarrow> bool" where
  "select_ok lfd s \<longleftrightarrow> slistener s = lfd \<and> 0 \<le> lfd \<and> lfd \<in> allset s
     \<and> (\<forall>c\<in>allset s. lfd \<le> c \<and> c \<le> smaxfd s \<and> c < int FD_SETSIZE)"

definition select_above :: "int \<Rightarrow> int set \<Rightarrow> round \<Rightarrow> bool" where
  "select_above lfd C r \<longleftrightarrow> select_good lfd C r \<and> (listens r \<longrightarrow> lfd < accepted r)"

lemma in_slots_upto: "0 \<le> lfd \<Longrightarrow> in_slots [lfd + 1..m] = [lfd + 1..m]"
  by (auto simp: in_slots_def filter_id_conv)

lemma select_selected:
  assumes "select_ok lfd s" and "select_above lfd (select_watched s) r"
    and "m = (if listens r then max (smaxfd s) (accepted r) else smaxfd s)"
  shows "selected s r = (if listens r then {lfd} else {}) \<union> {c \<in> select_watched s. ready r c \<noteq> None}"
    and "round_ok (select_watched s) r (selected s r) [lfd + 1..m]"
    and "int (card (selected s r)) = of_bool (listens r) + int (length (busy (selected s r) [lfd + 1..m]))"
proof -
  let ?C = "select_watched s"
  have C: "slistener s = lfd" "allset s = insert lfd ?C" "lfd \<notin> ?C" "\<forall>c\<in>insert lfd ?C. c \<le> smaxfd s" "\<forall>c\<in>?C. lfd < c"
    using assms(1) by (auto simp: select_ok_def select_watched_def less_le)
  have "?C \<subseteq> {lfd..smaxfd s}"
    using assms(1) by (auto simp: select_ok_def select_watched_def)
  then have fin: "finite ?C"
    using finite_subset by blast
  show R: "selected s r = (if listens r then {lfd} else {}) \<union> {c \<in> ?C. ready r c \<noteq> None}"
    unfolding C(1,2) by (rule select_sys_eq [OF C(3,4)])
  have sub: "?C \<subseteq> set [lfd + 1..m]"
    using C(4,5) assms(3) by (auto simp: zless_imp_add1_zle le_max_iff_disj)
  show ok: "round_ok ?C r (selected s r) [lfd + 1..m]"
    using assms(1) sub in_slots_upto [of lfd m] unfolding round_ok_def R by (auto simp: select_ok_def)
  show "int (card (selected s r)) = of_bool (listens r) + int (length (busy (selected s r) [lfd + 1..m]))"
    unfolding length_busy(2) [OF ok] using select_sys_card [OF C(3,4) fin] unfolding C(1,2) .
qed

lemma select_clients_eq:
  assumes "round_ok C r R [slistener s + 1..smaxfd s]" and "0 \<le> slistener s"
  shows "select_clients s r R = Ret (s\<lparr>allset := allset s - {c \<in> C. ready r c = Some Fin}\<rparr>,
    effects_of (\<lambda>c d. [Wrote c (upper d)]) r R [slistener s + 1..smaxfd s])"
proof -
  have "\<forall>c\<in>set [slistener s + 1..smaxfd s]. 0 \<le> c \<and> (c \<in> R \<longrightarrow> ready r c \<noteq> None)"
    using assms in_slots_upto [of "slistener s" "smaxfd s"] round_ok_ready [OF assms(1)] by auto
  from select_fds_eq [OF this] show ?thesis
    unfolding round_left [OF assms(1)] by (simp add: select_clients_def)
qed

text \<open>The state after a round: the descriptor that was accepted in, the closed ones out.\<close>

abbreviation after_select :: "round \<Rightarrow> select_server \<Rightarrow> select_server" where
  "after_select r s \<equiv> s\<lparr>
     allset := (allset s \<union> (if listens r then {accepted r} else {})) - {c \<in> select_watched s. ready r c = Some Fin},
     smaxfd := (if listens r then max (smaxfd s) (accepted r) else smaxfd s)\<rparr>"

lemma select_round_eq:
  assumes "select_ok lfd s" and "select_above lfd (select_watched s) r"
  shows "select_round s r = Some (Ret (after_select r s,
    effects_of (\<lambda>c d. [Wrote c (upper d)]) r (selected s r) [lfd + 1..smaxfd (after_select r s)]))"
proof -
  let ?m = "if listens r then max (smaxfd s) (accepted r) else smaxfd s"
  note sel = select_selected [OF assms refl]
  have lfd: "slistener s = lfd" "0 \<le> lfd"
    using assms(1) by (simp_all add: select_ok_def)
  show ?thesis
  proof (cases "listens r")
    case False
    then have "select_round s r = Some (select_clients s r (selected s r))"
      using sel(1) lfd(1) by (simp add: select_round_def select_watched_def Let_def)
    then show ?thesis
      using select_clients_eq [of "select_watched s" r "selected s r" s] sel(2) lfd False by simp
  next
    case True
    let ?s = "s\<lparr>allset := insert (accepted r) (allset s), smaxfd := max (smaxfd s) (accepted r)\<rparr>"
    have acc: "fd_set (accepted r) (allset s) = Some (insert (accepted r) (allset s))"
      using assms(2) True by (simp add: select_above_def select_good_def fd_set_def)
    have "slistener s \<in> selected s r"
      using sel(1) True lfd(1) by simp
    then have rnd: "select_round s r = Some (if int (card (selected s r)) - 1 = 0 then Ret (?s, []) else select_clients ?s r (selected s r))"
      using acc by (simp add: select_round_def Let_def)
    have loop: "select_clients ?s r (selected s r) = Ret (after_select r s,
        effects_of (\<lambda>c d. [Wrote c (upper d)]) r (selected s r) [lfd + 1..smaxfd (after_select r s)])"
      using select_clients_eq [of "select_watched s" r "selected s r" ?s] sel(2) lfd True by simp
    show ?thesis
    proof (cases "int (card (selected s r)) - 1 = 0")
      case last: True
      then have "busy (selected s r) [lfd + 1..?m] = []"
        using sel(3) True by simp
      note idle = idle_slots [OF this, of r]
      have none: "{c \<in> select_watched s. ready r c = Some Fin} = {}"
        using idle unfolding round_left [OF sel(2)] by blast
      have "after_select r s = ?s"
        unfolding none using True by simp
      then show ?thesis
        using rnd last idle True by simp
    next
      case False
      then show ?thesis
        using rnd loop by simp
    qed
  qed
qed

lemma select_round_refines:
  assumes "select_ok lfd s" and "select_above lfd (select_watched s) r"
  shows "\<exists>s' es. select_round s r = Some (Ret (s', es)) \<and> select_ok lfd s' \<and> select_watched s' = spec_clients closes (select_watched s) r
    \<and> distinct (map fst (writes es)) \<and> set (writes es) = spec_writes upper (select_watched s) r"
proof -
  have new: "listens r \<longrightarrow> accepted r \<notin> select_watched s \<and> lfd < accepted r \<and> accepted r < int FD_SETSIZE" and lfd: "slistener s = lfd"
    using assms by (simp_all add: select_above_def select_good_def select_ok_def)
  have "lfd \<notin> select_watched s"
    using lfd by (simp add: select_watched_def)
  then have "select_ok lfd (after_select r s)"
    using assms(1) new by (auto simp: select_ok_def le_max_iff_disj)
  moreover have "select_watched (after_select r s) = spec_clients closes (select_watched s) r"
    using new lfd by (auto simp: select_watched_def spec_clients_def closes_def)
  ultimately show ?thesis
    using round_writes [where reply = "\<lambda>c d. [Wrote c (upper d)]" and answer = upper, OF select_selected(2) [OF assms refl]]
      select_round_eq [OF assms] by simp
qed

section \<open>Properties\<close>

interpretation sel_all: multiplexer select_round select_watched "select_ok lfd" closes upper "select_above lfd" for lfd
  by unfold_locales (simp_all add: select_round_refines upper_def)

interpretation sel_array: multiplexer selopt_round select_watched "select_table lfd" closes upper "select_good lfd" for lfd
proof
  fix s r
  assume s: "select_table lfd s" "select_good lfd (select_watched s) r"
  show "\<exists>s' es. selopt_round s r = Some (Ret (s', es)) \<and> select_table lfd s'
      \<and> select_watched s' = spec_clients closes (select_watched s) r
      \<and> distinct (map fst (writes es)) \<and> set (writes es) = spec_writes upper (select_watched s) r"
    by (rule visit_refines [where rnd = selopt_round, OF s _ selopt_round_eq [OF s]]) simp
qed (simp_all add: upper_def)

interpretation unp_sel: multiplexer tcpsel_round select_watched "select_table lfd" closes "\<lambda>d. d" "tcpsel_good lfd" for lfd
proof
  fix s r
  assume s: "select_table lfd s" "tcpsel_good lfd (select_watched s) r"
  then have "select_good lfd (select_watched s) r"
    by (simp add: tcpsel_good_def)
  with s show "\<exists>s' es. tcpsel_round s r = Some (Ret (s', es)) \<and> select_table lfd s'
      \<and> select_watched s' = spec_clients closes (select_watched s) r
      \<and> distinct (map fst (writes es)) \<and> set (writes es) = spec_writes (\<lambda>d. d) (select_watched s) r"
    by (intro visit_refines [where reply = "\<lambda>c d. [Wrote c d]"]) (simp_all add: tcpsel_round_eq [of lfd])
qed simp_all

lemma select_start_ok:
  assumes "0 \<le> lfd" and "lfd < int FD_SETSIZE"
  shows "\<exists>s. select_start lfd True True = Some (Ret s) \<and> select_ok lfd s \<and> select_table lfd s \<and> select_watched s = {}"
proof -
  have "in_slots (replicate FD_SETSIZE (-1)) = []"
    by (simp add: in_slots_def filter_replicate)
  then show ?thesis
    using assms by (simp add: select_start_def fd_set_def select_ok_def select_table_def select_watched_def)
qed

text \<open>
  (C7) The three \<^verbatim>\<open>select\<close> servers refine the abstract server. Started on a descriptor an \<^verbatim>\<open>fd_set\<close> can
  hold and shown any sequence of rounds in which new connections have such descriptors, they neither
  stop nor block nor run out of slots, their sets hold exactly the clients that have connected and not
  hung up, and every client gets back what it sent, in order. \<^verbatim>\<open>select.c\<close> needs descriptors above that
  of the listening socket, \<^verbatim>\<open>tcpservselect01.c\<close> that no read fails.
\<close>

theorem select_servers_refine:
  assumes "0 \<le> lfd" and "lfd < int FD_SETSIZE"
    and "all_rounds closes (\<lambda>C r. select_above lfd C r \<and> tcpsel_good lfd C r) {} rs"
    and "all_rounds closes (\<lambda>C r. (select_above lfd C r \<and> tcpsel_good lfd C r) \<and> fd \<in> C) (clients_after closes {} rs) rs2"
  shows "\<exists>s. select_start lfd True True = Some (Ret s)
    \<and> serves select_round select_watched closes upper s {} rs fd rs2
    \<and> serves selopt_round select_watched closes upper s {} rs fd rs2
    \<and> serves tcpsel_round select_watched closes (\<lambda>d. d) s {} rs fd rs2"
proof -
  obtain s where s: "select_start lfd True True = Some (Ret s)" "select_ok lfd s" "select_table lfd s" "select_watched s = {}"
    using select_start_ok [OF assms(1,2)] by blast
  have mono: "all_rounds closes P C rs \<Longrightarrow> (\<And>C r. P C r \<Longrightarrow> Q C r) \<Longrightarrow> all_rounds closes Q C rs" for P Q C rs
    by (induction rs arbitrary: C) simp_all
  have good: "select_good lfd C r" if "select_above lfd C r" for C r
    using that by (simp add: select_above_def)
  have "serves select_round select_watched closes upper s {} rs fd rs2"
    by (rule sel_all.serve [OF s(2,4) mono [OF assms(3)] mono [OF assms(4)]]) simp_all
  moreover have "serves selopt_round select_watched closes upper s {} rs fd rs2"
    by (rule sel_array.serve [OF s(3,4) mono [OF assms(3)] mono [OF assms(4)]]) (simp_all add: good)
  moreover have "serves tcpsel_round select_watched closes (\<lambda>d. d) s {} rs fd rs2"
    by (rule unp_sel.serve [OF s(3,4) mono [OF assms(3)] mono [OF assms(4)]]) simp_all
  ultimately show ?thesis
    using s(1) by blast
qed

theorem select_servers_refine_witness:
  "\<exists>s. select_start 3 True True = Some (Ret s)
     \<and> serves select_round select_watched closes upper s {} [connect_round] 4 [data_round [104], data_round [105]]
     \<and> serves selopt_round select_watched closes upper s {} [connect_round] 4 [data_round [104], data_round [105]]
     \<and> serves tcpsel_round select_watched closes (\<lambda>d. d) s {} [connect_round] 4 [data_round [104], data_round [105]]"
proof (rule select_servers_refine)
  show "all_rounds closes (\<lambda>C r. select_above 3 C r \<and> tcpsel_good 3 C r) {} [connect_round]"
    by (simp add: select_above_def tcpsel_good_def select_good_def connect_round_def FD_SETSIZE_def)
  show "all_rounds closes (\<lambda>C r. (select_above 3 C r \<and> tcpsel_good 3 C r) \<and> 4 \<in> C) (clients_after closes {} [connect_round])
      [data_round [104], data_round [105]]"
    unfolding sample_rounds(1) by (simp add: sample_rounds(2) closes_def)
      (simp add: select_above_def tcpsel_good_def select_good_def data_round_def)
qed (simp_all add: FD_SETSIZE_def)

end
