(* ===== verification/Mux_Epoll.thy ===== *)
theory Mux_Epoll
  imports Mux
begin

text \<open>
  The server built on \<^verbatim>\<open>epoll\<close>, \<^verbatim>\<open>epoll.c\<close>. The kernel keeps the interest list; \<^verbatim>\<open>epoll_wait\<close> reports
  the ready descriptors of it in an order of its own. The open descriptors are part of the state,
  because the server takes a descriptor off the interest list without closing it.
\<close>

section \<open>The server\<close>

record epoll_server =
  elistener :: int
  interest :: "int set"
  eopen :: "int set"

text \<open>Before the loop. The answers of \<^verbatim>\<open>listen\<close>, \<^verbatim>\<open>epoll_create\<close> and \<^verbatim>\<open>epoll_ctl\<close> are not looked at.\<close>

definition epoll_start :: "int \<Rightarrow> bool \<Rightarrow> epoll_server outcome" where
  "epoll_start lfd bind_ok =
     (if lfd = -1 then Exits ''soclet error''
      else if \<not> bind_ok then Exits ''bind error''
      else Ret \<lparr>elistener = lfd, interest = {lfd}, eopen = {lfd}\<rparr>)"

text \<open>\<^verbatim>\<open>epoll_wait(epfd, ep, 1024, -1)\<close>.\<close>

definition EPOLLLEN :: nat where
  "EPOLLLEN = 1024"

definition epoll_wait :: "epoll_server \<Rightarrow> round \<Rightarrow> int list" where
  "epoll_wait s r =
     take EPOLLLEN
       (filter (\<lambda>fd. fd \<in> interest s \<and> (if fd = elistener s then listens r else ready r fd \<noteq> None)) (order r))"

definition epoll_event :: "round \<Rightarrow> int \<Rightarrow> epoll_server \<Rightarrow> (epoll_server \<times> effect list) outcome" where
  "epoll_event r fd s =
     (if fd = elistener s then
        if accepted r = -1 then Exits ''accept error''
        else Ret (s\<lparr>interest := insert (accepted r) (interest s), eopen := insert (accepted r) (eopen s)\<rparr>, [])
      else
        (case ready r fd of
           None \<Rightarrow> Blocks
         | Some Reset \<Rightarrow> Ret (s\<lparr>interest := interest s - {fd}\<rparr>, [])
         | Some Fail \<Rightarrow> Exits ''read error''
         | Some Fin \<Rightarrow> Ret (s\<lparr>interest := interest s - {fd}\<rparr>, [])
         | Some (Data d) \<Rightarrow> Ret (s, [Shown d, Wrote fd (upper d)])))"

fun epoll_events :: "round \<Rightarrow> int list \<Rightarrow> epoll_server \<Rightarrow> (epoll_server \<times> effect list) outcome" where
  "epoll_events r [] s = Ret (s, [])"
| "epoll_events r (fd # fds) s =
     bind_outcome (epoll_event r fd s)
       (\<lambda>(s, es). bind_outcome (epoll_events r fds s) (\<lambda>(s, fs). Ret (s, es @ fs)))"

definition epoll_round :: "epoll_server \<Rightarrow> round \<Rightarrow> (epoll_server \<times> effect list) outcome option" where
  "epoll_round s r = Some (epoll_events r (epoll_wait s r) s)"

section \<open>The loop in closed form\<close>

definition gone :: "epoll_server \<Rightarrow> round \<Rightarrow> int list \<Rightarrow> int set" where
  "gone s r fds = {fd \<in> set fds. fd \<noteq> elistener s \<and> (\<exists>a. ready r fd = Some a \<and> hangs_up a)}"

definition entered :: "epoll_server \<Rightarrow> round \<Rightarrow> int list \<Rightarrow> int set" where
  "entered s r fds = (if elistener s \<in> set fds then {accepted r} else {})"

definition event_effects :: "int \<Rightarrow> round \<Rightarrow> int \<Rightarrow> effect list" where
  "event_effects lfd r fd =
     (if fd = lfd then []
      else case ready r fd of Some (Data d) \<Rightarrow> [Shown d, Wrote fd (upper d)] | _ \<Rightarrow> [])"

abbreviation after_events :: "round \<Rightarrow> int list \<Rightarrow> epoll_server \<Rightarrow> epoll_server" where
  "after_events r fds s \<equiv> s\<lparr>interest := (interest s - gone s r fds) \<union> entered s r fds, eopen := eopen s \<union> entered s r fds\<rparr>"

lemma epoll_event_eq:
  assumes "fd \<noteq> elistener s \<longrightarrow> ready r fd \<noteq> None \<and> ready r fd \<noteq> Some Fail" and "fd = elistener s \<longrightarrow> accepted r \<noteq> -1"
  shows "epoll_event r fd s = Ret (after_events r [fd] s, event_effects (elistener s) r fd)"
proof (cases "fd = elistener s")
  case True
  then have "gone s r [fd] = {}" "entered s r [fd] = {accepted r}"
    by (auto simp: gone_def entered_def)
  then show ?thesis
    using True assms(2) by (simp add: epoll_event_def event_effects_def)
next
  case False
  then obtain a where a: "ready r fd = Some a" "a \<noteq> Fail"
    using assms(1) by auto
  have "gone s r [fd] = (if hangs_up a then {fd} else {})" "entered s r [fd] = {}"
    using False a(1) by (auto simp: gone_def entered_def)
  then show ?thesis
    using False a by (cases a) (simp_all add: epoll_event_def event_effects_def hangs_up_def)
qed

lemma epoll_events_eq:
  "distinct fds \<Longrightarrow> elistener s \<in> set fds \<longrightarrow> accepted r \<notin> set fds \<and> accepted r \<noteq> -1 \<Longrightarrow>
    \<forall>fd\<in>set fds. fd \<noteq> elistener s \<longrightarrow> ready r fd \<noteq> None \<and> ready r fd \<noteq> Some Fail \<Longrightarrow>
    epoll_events r fds s = Ret (after_events r fds s, concat (map (event_effects (elistener s) r) fds))"
proof (induction fds arbitrary: s)
  case (Cons fd fds)
  let ?s = "after_events r [fd] s"
  have one: "epoll_event r fd s = Ret (?s, event_effects (elistener s) r fd)"
    using Cons.prems by (intro epoll_event_eq) simp_all
  have rest: "epoll_events r fds ?s = Ret (after_events r fds ?s, concat (map (event_effects (elistener s) r) fds))"
    using Cons.IH [of ?s] Cons.prems by simp
  have gone: "gone s r (fd # fds) = gone s r [fd] \<union> gone s r fds" "entered s r (fd # fds) = entered s r [fd] \<union> entered s r fds"
    by (auto simp: gone_def entered_def)
  have "gone s r fds \<inter> entered s r [fd] = {}"
    using Cons.prems(2) by (auto simp: gone_def entered_def)
  then have "interest s - gone s r (fd # fds) \<union> entered s r (fd # fds)
      = (interest s - gone s r [fd] \<union> entered s r [fd]) - gone s r fds \<union> entered s r fds"
    unfolding gone by blast
  moreover have "gone ?s r fds = gone s r fds" "entered ?s r fds = entered s r fds"
    by (simp_all add: gone_def entered_def)
  ultimately have "after_events r fds ?s = after_events r (fd # fds) s"
    by (simp add: gone(2) Un_assoc)
  then show ?case
    using one rest by simp
qed (simp add: gone_def entered_def)

section \<open>The contract\<close>

definition epoll_watched :: "epoll_server \<Rightarrow> int set" where
  "epoll_watched s = interest s - {elistener s}"

definition epoll_ok :: "int \<Rightarrow> epoll_server \<Rightarrow> bool" where
  "epoll_ok lfd s \<longleftrightarrow> elistener s = lfd \<and> 0 \<le> lfd \<and> lfd \<in> interest s \<and> interest s \<subseteq> eopen s"

text \<open>The kernel reports every ready descriptor once; they fit into the array of the server.\<close>

definition epoll_good :: "int \<Rightarrow> int set \<Rightarrow> round \<Rightarrow> bool" where
  "epoll_good lfd C r \<longleftrightarrow> distinct (order r) \<and> length (order r) \<le> EPOLLLEN
     \<and> (\<forall>c\<in>C. ready r c \<noteq> None \<longrightarrow> c \<in> set (order r)) \<and> (listens r \<longrightarrow> lfd \<in> set (order r))
     \<and> (\<forall>c\<in>C. ready r c \<noteq> Some Fail)
     \<and> (listens r \<longrightarrow> 0 \<le> accepted r \<and> accepted r \<notin> C \<and> accepted r \<noteq> lfd)"

lemma epoll_wait_set:
  assumes "epoll_ok lfd s" and "epoll_good lfd (epoll_watched s) r"
  shows "set (epoll_wait s r) = {c \<in> epoll_watched s. ready r c \<noteq> None} \<union> (if listens r then {lfd} else {})"
    and "distinct (epoll_wait s r)"
proof -
  let ?P = "\<lambda>fd. fd \<in> interest s \<and> (if fd = elistener s then listens r else ready r fd \<noteq> None)"
  have "length (filter ?P (order r)) \<le> EPOLLLEN"
    using assms(2) order_trans [OF length_filter_le] unfolding epoll_good_def by blast
  then have wait: "epoll_wait s r = filter ?P (order r)"
    by (simp add: epoll_wait_def)
  show "distinct (epoll_wait s r)"
    unfolding wait using assms(2) by (simp add: epoll_good_def)
  show "set (epoll_wait s r) = {c \<in> epoll_watched s. ready r c \<noteq> None} \<union> (if listens r then {lfd} else {})"
    unfolding wait using assms by (auto simp: epoll_ok_def epoll_good_def epoll_watched_def)
qed

lemma epoll_round_eq:
  assumes "epoll_ok lfd s" and "epoll_good lfd (epoll_watched s) r"
  shows "epoll_round s r = Some (Ret
    (s\<lparr>interest := (interest s - {fd \<in> epoll_watched s. \<exists>a. ready r fd = Some a \<and> hangs_up a}) \<union> (if listens r then {accepted r} else {}),
       eopen := eopen s \<union> (if listens r then {accepted r} else {})\<rparr>,
     concat (map (event_effects lfd r) (epoll_wait s r))))"
proof -
  note w = epoll_wait_set [OF assms]
  have lfd: "elistener s = lfd" "lfd \<notin> epoll_watched s"
    using assms(1) by (auto simp: epoll_ok_def epoll_watched_def)
  have "gone s r (epoll_wait s r) = {fd \<in> epoll_watched s. \<exists>a. ready r fd = Some a \<and> hangs_up a}"
    using lfd unfolding gone_def w(1) by auto
  moreover have "entered s r (epoll_wait s r) = (if listens r then {accepted r} else {})"
    using lfd unfolding entered_def w(1) by auto
  moreover have "elistener s \<in> set (epoll_wait s r) \<longrightarrow> accepted r \<notin> set (epoll_wait s r) \<and> accepted r \<noteq> -1"
      "\<forall>fd\<in>set (epoll_wait s r). fd \<noteq> elistener s \<longrightarrow> ready r fd \<noteq> None \<and> ready r fd \<noteq> Some Fail"
    using assms(2) lfd unfolding w(1) by (auto simp: epoll_good_def)
  note epoll_events_eq [OF w(2) this]
  ultimately show ?thesis
    by (simp add: epoll_round_def lfd(1))
qed

lemma event_writes:
  "writes (concat (map (event_effects lfd r) fds)) =
    map (\<lambda>fd. (fd, upper (bytes_of r fd))) (filter (\<lambda>fd. fd \<noteq> lfd \<and> (\<exists>d. ready r fd = Some (Data d))) fds)"
proof (induction fds)
  case (Cons fd fds)
  have "writes (event_effects lfd r fd) =
      (if fd \<noteq> lfd \<and> (\<exists>d. ready r fd = Some (Data d)) then [(fd, upper (bytes_of r fd))] else [])"
    by (auto simp: event_effects_def bytes_of_def split: option.splits rd.splits)
  with Cons show ?case
    by simp
qed simp

interpretation own_epoll: multiplexer epoll_round epoll_watched "epoll_ok lfd" hangs_up upper "epoll_good lfd" for lfd
proof
  fix s r
  assume s: "epoll_ok lfd s" "epoll_good lfd (epoll_watched s) r"
  let ?es = "concat (map (event_effects lfd r) (epoll_wait s r))"
  note w = epoll_wait_set [OF s] and rnd = epoll_round_eq [OF s]
  have lfd: "elistener s = lfd" "lfd \<notin> epoll_watched s" "listens r \<longrightarrow> accepted r \<noteq> lfd \<and> accepted r \<notin> epoll_watched s"
    using s by (auto simp: epoll_ok_def epoll_good_def epoll_watched_def)
  let ?s = "s\<lparr>interest := (interest s - {fd \<in> epoll_watched s. \<exists>a. ready r fd = Some a \<and> hangs_up a}) \<union> (if listens r then {accepted r} else {}),
       eopen := eopen s \<union> (if listens r then {accepted r} else {})\<rparr>"
  have "epoll_ok lfd ?s"
    using s(1) lfd by (auto simp: epoll_ok_def)
  moreover have "epoll_watched ?s = spec_clients hangs_up (epoll_watched s) r"
    using lfd by (auto simp: epoll_watched_def spec_clients_def)
  moreover have "{fd \<in> set (epoll_wait s r). fd \<noteq> lfd \<and> (\<exists>d. ready r fd = Some (Data d))}
      = {fd \<in> epoll_watched s. \<exists>d. ready r fd = Some (Data d)}"
    unfolding w(1) using lfd(2) by auto
  then have "set (writes ?es) = spec_writes upper (epoll_watched s) r"
    unfolding event_writes set_map set_filter by (auto simp: spec_writes_def bytes_of_def)
  moreover have "distinct (map fst (writes ?es))"
    unfolding event_writes using w(2) by (simp add: o_def)
  ultimately show "\<exists>s' es. epoll_round s r = Some (Ret (s', es)) \<and> epoll_ok lfd s'
      \<and> epoll_watched s' = spec_clients hangs_up (epoll_watched s) r
      \<and> distinct (map fst (writes es)) \<and> set (writes es) = spec_writes upper (epoll_watched s) r"
    using rnd by blast
qed (simp_all add: upper_def)

section \<open>Properties\<close>

lemma epoll_open:
  "epoll_ok lfd s \<Longrightarrow> all_rounds hangs_up (epoll_good lfd) (epoll_watched s) rs \<Longrightarrow>
    rounds epoll_round s rs = Some (Ret (s', es)) \<Longrightarrow> eopen s' = eopen s \<union> {accepted r |r. r \<in> set rs \<and> listens r}"
proof (induction rs arbitrary: s es)
  case (Cons r rs)
  have good: "epoll_good lfd (epoll_watched s) r"
    using Cons.prems(2) by simp
  obtain s1 e where s1: "epoll_round s r = Some (Ret (s1, e))" "epoll_ok lfd s1" "epoll_watched s1 = spec_clients hangs_up (epoll_watched s) r"
    using own_epoll.refines [OF Cons.prems(1) good] by blast
  have "eopen s1 = eopen s \<union> (if listens r then {accepted r} else {})"
    using s1(1) epoll_round_eq [OF Cons.prems(1) good] by auto
  moreover obtain e2 where "rounds epoll_round s1 rs = Some (Ret (s', e2))"
    using Cons.prems(3) s1(1) by (auto split: option.splits outcome.splits)
  then have "eopen s' = eopen s1 \<union> {accepted r |r. r \<in> set rs \<and> listens r}"
    using Cons.IH [OF s1(2)] Cons.prems(2) s1(3) by simp
  ultimately show ?case
    by auto
qed simp

text \<open>
  (C9) The \<^verbatim>\<open>epoll\<close> server refines the abstract server in whatever order the kernel reports the events:
  it keeps serving, its interest list holds exactly the clients that have connected and not hung up,
  and every client gets back what it sent in upper case. But no descriptor is ever closed: after any
  run the process still has every connection open that it ever accepted.
\<close>

theorem epoll_server_refines:
  assumes "0 \<le> lfd" and "all_rounds hangs_up (epoll_good lfd) {} rs"
    and "all_rounds hangs_up (\<lambda>C r. epoll_good lfd C r \<and> fd \<in> C) (clients_after hangs_up {} rs) rs2"
  shows "\<exists>s. epoll_start lfd True = Ret s \<and> serves epoll_round epoll_watched hangs_up upper s {} rs fd rs2
    \<and> (\<exists>s' es. rounds epoll_round s rs = Some (Ret (s', es)) \<and> eopen s' = insert lfd {accepted r |r. r \<in> set rs \<and> listens r})"
proof -
  let ?s = "\<lparr>elistener = lfd, interest = {lfd}, eopen = {lfd}\<rparr>"
  have s: "epoll_start lfd True = Ret ?s" "epoll_ok lfd ?s" "epoll_watched ?s = {}"
    using assms(1) by (auto simp: epoll_start_def epoll_ok_def epoll_watched_def)
  have "serves epoll_round epoll_watched hangs_up upper ?s {} rs fd rs2"
    by (rule own_epoll.serve [OF s(2,3) assms(2,3)])
  moreover obtain s' es where run: "rounds epoll_round ?s rs = Some (Ret (s', es))"
    using own_epoll.session [OF s(2), of rs] assms(2) s(3) by auto
  moreover have "eopen s' = insert lfd {accepted r |r. r \<in> set rs \<and> listens r}"
    using epoll_open [OF s(2) _ run] assms(2) s(3) by simp
  ultimately show ?thesis
    using s(1) by blast
qed

theorem epoll_server_refines_witness:
  "\<exists>s. epoll_start 3 True = Ret s
     \<and> serves epoll_round epoll_watched hangs_up upper s {} [connect_round] 4 [data_round [104], data_round [105]]
     \<and> (\<exists>s' es. rounds epoll_round s [connect_round] = Some (Ret (s', es))
          \<and> eopen s' = insert 3 {accepted r |r. r \<in> set [connect_round] \<and> listens r})"
proof (rule epoll_server_refines)
  show "all_rounds hangs_up (epoll_good 3) {} [connect_round]"
    by (simp add: epoll_good_def connect_round_def EPOLLLEN_def)
  show "all_rounds hangs_up (\<lambda>C r. epoll_good 3 C r \<and> 4 \<in> C) (clients_after hangs_up {} [connect_round])
      [data_round [104], data_round [105]]"
    unfolding sample_rounds(1) by (simp add: sample_rounds(2) hangs_up_def) (simp add: epoll_good_def data_round_def EPOLLLEN_def)
qed simp

end
