(* ===== verification/Reactor.thy ===== *)
theory Reactor
  imports Mux "HOL-Library.Monad_Syntax"
begin

text \<open>
  The reactor server, \<^verbatim>\<open>epoll\<close> with a table of callbacks: \<^verbatim>\<open>struct myevent_s\<close>, the array \<^verbatim>\<open>g_events\<close>,
  the functions that change it, the callbacks and the dispatch loop. A pointer into \<^verbatim>\<open>g_events\<close> is an
  index. The interest list of the kernel maps a descriptor to the events asked for and the pointer
  stored with it. \<^term>\<open>None\<close> is undefined behaviour: a null or uninitialised value that is used, an index
  outside the table, an access outside the buffer of an entry. Of the messages to the terminal only the
  reads are kept: a buffer printed with \<^verbatim>\<open>%s\<close> must hold a zero.
\<close>

unbundle bit_operations_syntax

section \<open>Data\<close>

definition MAX_EVENTS :: nat where
  "MAX_EVENTS = 1024"

definition BUFLEN :: nat where
  "BUFLEN = 4096"

definition EPOLLIN :: u32 where
  "EPOLLIN = 1"

definition EPOLLOUT :: u32 where
  "EPOLLOUT = 4"

datatype callback = Recvdata | Senddata | Acceptconn

record myevent_s =
  efd :: int
  events :: u32
  arg :: "nat option"
  call_back :: "callback option"
  status :: int
  buf :: "u8 list"
  len :: int
  last_active :: int

record reactor =
  g_events :: "myevent_s list"
  watch :: "int \<Rightarrow> (u32 \<times> nat) option"

text \<open>What the kernel answers to the calls of one callback.\<close>

record answers =
  a_recv :: rd
  a_send :: int
  a_accept :: int
  a_fcntl :: bool
  a_ctl :: bool
  a_time :: int

abbreviation slot :: "reactor \<Rightarrow> nat \<Rightarrow> myevent_s" where
  "slot s i \<equiv> g_events s ! i"

definition upd :: "nat \<Rightarrow> (myevent_s \<Rightarrow> myevent_s) \<Rightarrow> reactor \<Rightarrow> reactor" where
  "upd i f s = s\<lparr>g_events := (g_events s)[i := f (slot s i)]\<rparr>"

text \<open>\<^verbatim>\<open>close\<close> takes the descriptor off the interest list.\<close>

definition close_fd :: "int \<Rightarrow> reactor \<Rightarrow> reactor" where
  "close_fd fd s = s\<lparr>watch := (watch s)(fd := None)\<rparr>"

section \<open>The table\<close>

definition eventset :: "nat \<Rightarrow> int \<Rightarrow> callback \<Rightarrow> nat \<Rightarrow> int \<Rightarrow> reactor \<Rightarrow> reactor" where
  "eventset i fd cb a now s =
     upd i (\<lambda>ev.
       (let ev = ev\<lparr>efd := fd, call_back := Some cb, events := 0, arg := Some a, status := 0\<rparr>;
            ev = (if len ev \<le> 0 then ev\<lparr>buf := replicate BUFLEN 0, len := 0\<rparr> else ev) in
        ev\<lparr>last_active := now\<rparr>)) s"

text \<open>
  \<^verbatim>\<open>op\<close> is not initialised when the entry is already registered. \<^verbatim>\<open>EPOLL_CTL_ADD\<close> of a descriptor that
  is on the interest list fails; otherwise \<open>ctl\<close> says whether it succeeds (it can fail with \<^verbatim>\<open>EBADF\<close>,
  \<^verbatim>\<open>ENOMEM\<close> or \<^verbatim>\<open>ENOSPC\<close>). The failure is only printed, and the entry keeps \<^verbatim>\<open>status\<close> 1.
\<close>

definition eventadd :: "bool \<Rightarrow> u32 \<Rightarrow> nat \<Rightarrow> reactor \<Rightarrow> reactor option" where
  "eventadd ctl evs i s =
     (let s = upd i (\<lambda>ev. ev\<lparr>events := evs\<rparr>) s in
      if status (slot s i) \<noteq> 0 then None
      else
        (let s = upd i (\<lambda>ev. ev\<lparr>status := 1\<rparr>) s; fd = efd (slot s i) in
         case watch s fd of
           Some _ \<Rightarrow> Some s
         | None \<Rightarrow> Some (if ctl then s\<lparr>watch := (watch s)(fd \<mapsto> (evs, i))\<rparr> else s)))"

definition eventdel :: "nat \<Rightarrow> reactor \<Rightarrow> reactor" where
  "eventdel i s =
     (if status (slot s i) \<noteq> 1 then s
      else
        (let s = upd i (\<lambda>ev. ev\<lparr>status := 0\<rparr>) s in
         s\<lparr>watch := (watch s)(efd (slot s i) := None)\<rparr>))"

section \<open>The callbacks\<close>

text \<open>
  \<^verbatim>\<open>send\<close> reads \<^verbatim>\<open>ev->len\<close> bytes of the buffer, which must lie inside it, and takes the first \<open>n\<close> of them;
  \<^verbatim>\<open>%s\<close> then reads up to a zero.
\<close>

definition senddata :: "int \<Rightarrow> nat \<Rightarrow> answers \<Rightarrow> reactor \<Rightarrow> (reactor \<times> effect list) option" where
  "senddata fd i w s =
     (let ev = slot s i; n = a_send w in
      if len ev < 0 \<or> int (length (buf ev)) < len ev then None
      else
        (let sent = take (nat n) (take (nat (len ev)) (buf ev)); s = eventdel i s in
         if 0 < n then
           if 0 \<notin> set (buf ev) then None
           else do {
             s \<leftarrow> eventadd (a_ctl w) EPOLLIN i (eventset i fd Recvdata i (a_time w) s);
             Some (s, [Wrote fd sent])
           }
         else Some (close_fd (efd (slot s i)) s, [Closed (efd (slot s i))])))"

text \<open>\<^verbatim>\<open>recv\<close> into the buffer of the entry; the terminating zero must still fit.\<close>

definition recvdata :: "int \<Rightarrow> nat \<Rightarrow> answers \<Rightarrow> reactor \<Rightarrow> (reactor \<times> effect list) option" where
  "recvdata fd i w s =
     (let d = (case a_recv w of Data d \<Rightarrow> d | _ \<Rightarrow> []);
          s = upd i (\<lambda>ev. ev\<lparr>buf := d @ drop (length d) (buf ev)\<rparr>) s;
          s = eventdel i s in
      if d \<noteq> [] then
        if length (buf (slot s i)) \<le> length d then None
        else
          (let s = upd i (\<lambda>ev. ev\<lparr>len := int (length d), buf := (buf ev)[length d := 0]\<rparr>) s in
           map_option (\<lambda>s. (s, [])) (eventadd (a_ctl w) EPOLLOUT i (eventset i fd Senddata i (a_time w) s)))
      else Some (close_fd (efd (slot s i)) s, [Closed (efd (slot s i))]))"

fun free_entry :: "myevent_s list \<Rightarrow> nat option" where
  "free_entry [] = None"
| "free_entry (ev # evs) = (if status ev = 0 then Some 0 else map_option Suc (free_entry evs))"

definition acceptconn :: "answers \<Rightarrow> reactor \<Rightarrow> (reactor \<times> effect list) option" where
  "acceptconn w s =
     (if a_accept w = -1 then Some (s, [])
      else
        (case free_entry (take MAX_EVENTS (g_events s)) of
           None \<Rightarrow> Some (s, [])
         | Some i \<Rightarrow>
             if \<not> a_fcntl w then Some (s, [])
             else map_option (\<lambda>s. (s, [])) (eventadd (a_ctl w) EPOLLIN i (eventset i (a_accept w) Recvdata 0 (a_time w) s))))"

section \<open>The start and the dispatch loop\<close>

text \<open>\<^verbatim>\<open>g_events\<close> is a global array, so it starts zeroed.\<close>

definition zero_event :: myevent_s where
  "zero_event = \<lparr>efd = 0, events = 0, arg = None, call_back = None, status = 0, buf = replicate BUFLEN 0, len = 0, last_active = 0\<rparr>"

definition reactor_zero :: reactor where
  "reactor_zero = \<lparr>g_events = replicate (MAX_EVENTS + 1) zero_event, watch = (\<lambda>fd. None)\<rparr>"

definition initlistensocket :: "int \<Rightarrow> bool \<Rightarrow> bool \<Rightarrow> int \<Rightarrow> reactor \<Rightarrow> reactor outcome option" where
  "initlistensocket lfd bind_ok ctl now s =
     (if lfd = -1 then Some (Exits ''socet error'')
      else if \<not> bind_ok then Some (Exits ''bind error'')
      else map_option Ret (eventadd ctl EPOLLIN MAX_EVENTS (eventset MAX_EVENTS lfd Acceptconn MAX_EVENTS now s)))"

text \<open>\<^verbatim>\<open>ev->call_back(ev->fd, events[i].events, ev->arg)\<close>: the two callbacks that use the argument follow it into the table.\<close>

definition call :: "nat \<Rightarrow> answers \<Rightarrow> reactor \<Rightarrow> (reactor \<times> effect list) option" where
  "call i w s =
     (case (call_back (slot s i), arg (slot s i)) of
        (Some Acceptconn, _) \<Rightarrow> acceptconn w s
      | (Some Recvdata, Some a) \<Rightarrow> if a < length (g_events s) then recvdata (efd (slot s i)) a w s else None
      | (Some Senddata, Some a) \<Rightarrow> if a < length (g_events s) then senddata (efd (slot s i)) a w s else None
      | _ \<Rightarrow> None)"

text \<open>
  One element of the array \<^verbatim>\<open>epoll_wait\<close> fills: the events and the pointer, and the kernel's answers to
  the two callbacks it may run.
\<close>

definition dispatch :: "u32 \<times> nat \<times> answers \<times> answers \<Rightarrow> reactor \<Rightarrow> (reactor \<times> effect list) option" where
  "dispatch e s =
     (case e of (evs, i, w1, w2) \<Rightarrow>
        if length (g_events s) \<le> i then None
        else do {
          (s, es) \<leftarrow> (if evs AND EPOLLIN \<noteq> 0 \<and> events (slot s i) AND EPOLLIN \<noteq> 0 then call i w1 s else Some (s, []));
          (s, fs) \<leftarrow> (if evs AND EPOLLOUT \<noteq> 0 \<and> events (slot s i) AND EPOLLOUT \<noteq> 0 then call i w2 s else Some (s, []));
          Some (s, es @ fs)
        })"

fun react :: "(u32 \<times> nat \<times> answers \<times> answers) list \<Rightarrow> reactor \<Rightarrow> (reactor \<times> effect list) option" where
  "react [] s = Some (s, [])"
| "react (e # es) s =
     do {
       (s, fs) \<leftarrow> dispatch e s;
       (s, gs) \<leftarrow> react es s;
       Some (s, fs @ gs)
     }"

section \<open>The invariant\<close>

text \<open>
  An entry of the table: an unused one is not registered, a used one serves a client. The callbacks of
  all clients get a pointer to the first entry.
\<close>

definition entry_ok :: "int \<Rightarrow> bool \<Rightarrow> myevent_s \<Rightarrow> bool" where
  "entry_ok lfd first ev \<longleftrightarrow> length (buf ev) = BUFLEN \<and> 0 \<le> len ev \<and> len ev < int BUFLEN \<and> 0 \<in> set (buf ev)
     \<and> (case call_back ev of
          None \<Rightarrow> status ev = 0
        | Some cb \<Rightarrow> cb \<noteq> Acceptconn \<and> arg ev = Some 0 \<and> efd ev \<noteq> lfd \<and> first)"

abbreviation used :: "reactor \<Rightarrow> nat \<Rightarrow> bool" where
  "used s i \<equiv> call_back (slot s i) \<noteq> None"

definition watch_ok :: "int \<Rightarrow> reactor \<Rightarrow> bool" where
  "watch_ok lfd s \<longleftrightarrow> watch s lfd = Some (EPOLLIN, MAX_EVENTS)
     \<and> (\<forall>fd e i. watch s fd = Some (e, i) \<longrightarrow> i \<le> MAX_EVENTS \<and> used s i)"

definition reactor_ok :: "int \<Rightarrow> reactor \<Rightarrow> bool" where
  "reactor_ok lfd s \<longleftrightarrow> length (g_events s) = MAX_EVENTS + 1
     \<and> call_back (slot s MAX_EVENTS) = Some Acceptconn \<and> events (slot s MAX_EVENTS) = EPOLLIN
     \<and> (\<forall>i<MAX_EVENTS. entry_ok lfd (used s 0) (slot s i)) \<and> watch_ok lfd s"

lemma slot_upd [simp]:
  "i < length (g_events s) \<Longrightarrow> slot (upd i f s) j = (if i = j then f (slot s i) else slot s j)"
  "length (g_events (upd i f s)) = length (g_events s)" "watch (upd i f s) = watch s"
  by (simp_all add: upd_def)

lemma entry_mono: "entry_ok lfd b ev \<Longrightarrow> b \<longrightarrow> b' \<Longrightarrow> entry_ok lfd b' ev"
  by (cases "call_back ev") (auto simp: entry_ok_def)

lemma upd_ok:
  assumes "reactor_ok lfd s" and "i < MAX_EVENTS" and "used s i \<longrightarrow> call_back (f (slot s i)) \<noteq> None"
    and "entry_ok lfd (i = 0 \<or> used s 0) (f (slot s i))"
  shows "reactor_ok lfd (upd i f s)"
proof -
  have i: "i < length (g_events s)"
    using assms(1,2) by (simp add: reactor_ok_def)
  have first: "used s 0 \<longrightarrow> used (upd i f s) 0"
    using assms(3) i by auto
  have "entry_ok lfd (used (upd i f s) 0) (slot (upd i f s) j)" if j: "j < MAX_EVENTS" for j
  proof (cases "i = j")
    case True
    have "entry_ok lfd (used (upd i f s) 0) (f (slot s i))"
    proof (cases "call_back (f (slot s i))")
      case None
      then show ?thesis
        using assms(4) by (simp add: entry_ok_def)
    next
      case Some
      then have "i = 0 \<or> used s 0 \<longrightarrow> used (upd i f s) 0"
        using first i by auto
      then show ?thesis
        by (rule entry_mono [OF assms(4)])
    qed
    then show ?thesis
      using True i by simp
  next
    case False
    have "entry_ok lfd (used s 0) (slot s j)"
      using assms(1) j by (simp add: reactor_ok_def)
    then have "entry_ok lfd (used (upd i f s) 0) (slot s j)"
      using first by (rule entry_mono)
    then show ?thesis
      using False i by simp
  qed
  moreover have "watch_ok lfd (upd i f s)"
    using assms(1,3) i by (auto simp: reactor_ok_def watch_ok_def)
  ultimately show ?thesis
    using assms(1,2) i unfolding reactor_ok_def by simp
qed

text \<open>A used entry below the last one belongs to a client.\<close>

lemma client_entry:
  assumes "reactor_ok lfd s" and "i < MAX_EVENTS" and "used s i"
  shows "efd (slot s i) \<noteq> lfd" and "arg (slot s i) = Some 0" and "call_back (slot s i) \<noteq> Some Acceptconn" and "used s 0"
proof -
  have "entry_ok lfd (used s 0) (slot s i)"
    using assms(1,2) by (simp add: reactor_ok_def)
  then show "efd (slot s i) \<noteq> lfd" and "arg (slot s i) = Some 0" and "call_back (slot s i) \<noteq> Some Acceptconn" and "used s 0"
    using assms(3) by (auto simp: entry_ok_def)
qed

text \<open>Taking another descriptor than the listening one off the interest list.\<close>

lemma unwatch_ok:
  assumes "reactor_ok lfd s" and "fd \<noteq> lfd"
  shows "reactor_ok lfd (s\<lparr>watch := (watch s)(fd := None)\<rparr>)"
  using assms by (auto simp: reactor_ok_def watch_ok_def)

lemma rewatch_ok:
  assumes "reactor_ok lfd s" and "fd \<noteq> lfd" and "i \<le> MAX_EVENTS" and "used s i"
  shows "reactor_ok lfd (s\<lparr>watch := (watch s)(fd \<mapsto> (evs, i))\<rparr>)"
  using assms by (auto simp: reactor_ok_def watch_ok_def)

lemma close_fd_ok: "reactor_ok lfd s \<Longrightarrow> fd \<noteq> lfd \<Longrightarrow> reactor_ok lfd (close_fd fd s)"
  unfolding close_fd_def by (rule unwatch_ok)

lemma eventdel_ok:
  assumes "reactor_ok lfd s" and "i < MAX_EVENTS" and "used s i"
  shows "reactor_ok lfd (eventdel i s)"
proof -
  have i: "i < length (g_events s)" "entry_ok lfd (used s 0) (slot s i)"
    using assms(1,2) by (simp_all add: reactor_ok_def)
  have "reactor_ok lfd (upd i (\<lambda>ev. ev\<lparr>status := 0\<rparr>) s)"
    using assms i(2) by (intro upd_ok) (auto simp: entry_ok_def)
  from unwatch_ok [OF this, of "efd (slot s i)"] show ?thesis
    using assms(1) client_entry(1) [OF assms] i(1) by (simp add: eventdel_def Let_def)
qed

lemma upd_field: "g (f (slot s i)) = g (slot s i) \<Longrightarrow> g (slot (upd i f s) j) = g (slot s j)"
  by (cases "i < length (g_events s)"; cases "i = j") (simp_all add: upd_def list_update_beyond)

lemma eventdel_simps [simp]:
  "call_back (slot (eventdel i s) j) = call_back (slot s j)" "efd (slot (eventdel i s) j) = efd (slot s j)"
  "length (g_events (eventdel i s)) = length (g_events s)"
  by (simp_all add: eventdel_def Let_def upd_field [where g = call_back] upd_field [where g = efd])

text \<open>Setting an entry and registering it: \<^verbatim>\<open>op\<close> is initialised because \<^verbatim>\<open>eventset\<close> clears \<^verbatim>\<open>status\<close>.\<close>

lemma set_add_ok:
  assumes "reactor_ok lfd s" and "i < MAX_EVENTS" and "i = 0 \<or> used s 0" and "fd \<noteq> lfd" and "cb \<noteq> Acceptconn"
  shows "\<exists>s'. eventadd ctl evs i (eventset i fd cb 0 now s) = Some s' \<and> reactor_ok lfd s' \<and> (\<forall>j. used s j \<longrightarrow> used s' j)"
proof -
  let ?s1 = "eventset i fd cb 0 now s"
  let ?s2 = "upd i (\<lambda>ev. ev\<lparr>status := 1\<rparr>) (upd i (\<lambda>ev. ev\<lparr>events := evs\<rparr>) ?s1)"
  have i: "i < length (g_events s)" "entry_ok lfd (used s 0) (slot s i)"
    using assms(1,2) by (simp_all add: reactor_ok_def)
  have len: "length (g_events ?s1) = length (g_events s)"
    by (simp add: eventset_def)
  have ok1: "reactor_ok lfd ?s1"
    unfolding eventset_def using assms i(2) by (intro upd_ok) (auto simp: entry_ok_def BUFLEN_def Let_def)
  have s1: "call_back (slot ?s1 i) = Some cb" "status (slot ?s1 i) = 0" "efd (slot ?s1 i) = fd" "\<forall>j. used s j \<longrightarrow> used ?s1 j"
    using i(1) by (auto simp: eventset_def Let_def)
  have e1: "entry_ok lfd (used ?s1 0) (slot ?s1 i)"
    using ok1 assms(2) by (simp add: reactor_ok_def)
  have ok2: "reactor_ok lfd (upd i (\<lambda>ev. ev\<lparr>events := evs\<rparr>) ?s1)"
    using ok1 assms(2) e1 s1(1) by (intro upd_ok) (auto simp: entry_ok_def)
  have "entry_ok lfd (used (upd i (\<lambda>ev. ev\<lparr>events := evs\<rparr>) ?s1) 0) (slot (upd i (\<lambda>ev. ev\<lparr>events := evs\<rparr>) ?s1) i)"
    using ok2 assms(2) unfolding reactor_ok_def by blast
  then have ok3: "reactor_ok lfd ?s2"
    using s1(1) i(1) len by (intro upd_ok [OF ok2 assms(2)]) (auto simp: entry_ok_def)
  have s2: "used ?s2 i" "efd (slot ?s2 i) = fd" "\<forall>j. used s j \<longrightarrow> used ?s2 j" "watch ?s2 = watch ?s1"
    using s1 i(1) len by auto
  have "reactor_ok lfd (?s2\<lparr>watch := (watch ?s2)(fd \<mapsto> (evs, i))\<rparr>)"
    using rewatch_ok [OF ok3 assms(4) _ s2(1)] assms(2) by simp
  moreover have "eventadd ctl evs i ?s1 =
      (case watch ?s2 fd of Some _ \<Rightarrow> Some ?s2 | None \<Rightarrow> Some (if ctl then ?s2\<lparr>watch := (watch ?s2)(fd \<mapsto> (evs, i))\<rparr> else ?s2))"
    using s1(2) i(1) len unfolding eventadd_def Let_def s2(2) by simp
  ultimately show ?thesis
    using ok3 s2(3) by (cases "watch ?s2 fd") simp_all
qed

section \<open>The callbacks keep it\<close>

text \<open>
  The kernel's answers: a new connection does not get the descriptor of the listening socket, and what
  is received leaves room for the terminating zero.
\<close>

definition answers_ok :: "int \<Rightarrow> answers \<Rightarrow> bool" where
  "answers_ok lfd w \<longleftrightarrow> (a_accept w \<noteq> -1 \<longrightarrow> a_accept w \<noteq> lfd) \<and> (\<forall>d. a_recv w = Data d \<longrightarrow> length d < BUFLEN)"

abbreviation goes_on :: "int \<Rightarrow> reactor \<Rightarrow> (reactor \<times> effect list) option \<Rightarrow> bool" where
  "goes_on lfd s x \<equiv> \<exists>s' es. x = Some (s', es) \<and> reactor_ok lfd s' \<and> (\<forall>j. used s j \<longrightarrow> used s' j)"

lemma hang_up_ok:
  assumes "reactor_ok lfd s" and "used s 0"
  shows "reactor_ok lfd (close_fd (efd (slot s 0)) (eventdel 0 s))"
  using eventdel_ok [of lfd s 0] client_entry(1) [of lfd s 0] assms by (simp add: close_fd_ok MAX_EVENTS_def)

lemma entry_in_bounds:
  assumes "reactor_ok lfd s"
  shows "\<not> (len (slot s 0) < 0 \<or> int (length (buf (slot s 0))) < len (slot s 0))" and "0 \<in> set (buf (slot s 0))"
proof -
  have "entry_ok lfd (used s 0) (slot s 0)"
    using assms by (simp add: reactor_ok_def MAX_EVENTS_def)
  then show "\<not> (len (slot s 0) < 0 \<or> int (length (buf (slot s 0))) < len (slot s 0))" and "0 \<in> set (buf (slot s 0))"
    by (simp_all add: entry_ok_def)
qed

lemma senddata_ok:
  assumes "reactor_ok lfd s" and "used s 0" and "fd \<noteq> lfd"
  shows "goes_on lfd s (senddata fd 0 w s)"
proof (cases "0 < a_send w")
  case True
  have "reactor_ok lfd (eventdel 0 s)"
    using assms by (intro eventdel_ok) (simp_all add: MAX_EVENTS_def)
  then obtain s' where "eventadd (a_ctl w) EPOLLIN 0 (eventset 0 fd Recvdata 0 (a_time w) (eventdel 0 s)) = Some s'" "reactor_ok lfd s'"
      "\<forall>j. used (eventdel 0 s) j \<longrightarrow> used s' j"
    using set_add_ok [of lfd "eventdel 0 s" 0 fd Recvdata "a_ctl w" EPOLLIN "a_time w"] assms(3) by (auto simp: MAX_EVENTS_def)
  then show ?thesis
    using True entry_in_bounds [OF assms(1)] by (simp add: senddata_def Let_def)
next
  case False
  then show ?thesis
    using hang_up_ok [OF assms(1,2)] entry_in_bounds [OF assms(1)] by (simp add: senddata_def Let_def close_fd_def)
qed

lemma upd_upd: "i < length (g_events s) \<Longrightarrow> upd i f (upd i g s) = upd i (f \<circ> g) s"
  by (simp add: upd_def)

lemma eventdel_buf:
  "i < length (g_events s) \<Longrightarrow> eventdel i (upd i (\<lambda>ev. ev\<lparr>buf := f (buf ev)\<rparr>) s) = upd i (\<lambda>ev. ev\<lparr>buf := f (buf ev)\<rparr>) (eventdel i s)"
  by (cases s; cases "slot s i") (simp add: eventdel_def upd_def Let_def)

lemma recvdata_ok:
  assumes "reactor_ok lfd s" and "used s 0" and "fd \<noteq> lfd" and "answers_ok lfd w"
  shows "goes_on lfd s (recvdata fd 0 w s)"
proof -
  define d where "d = (case a_recv w of Data d \<Rightarrow> d | _ \<Rightarrow> [])"
  let ?s2 = "upd 0 (\<lambda>ev. ev\<lparr>len := int (length d), buf := (d @ drop (length d) (buf ev))[length d := 0]\<rparr>) (eventdel 0 s)"
  have d: "length d < BUFLEN"
    using assms(4) by (cases "a_recv w") (simp_all add: d_def answers_ok_def BUFLEN_def)
  have "0 < MAX_EVENTS"
    by (simp add: MAX_EVENTS_def)
  have len: "0 < length (g_events s)" and e: "entry_ok lfd (used s 0) (slot s 0)"
    using assms(1) \<open>0 < MAX_EVENTS\<close> by (simp_all add: reactor_ok_def)
  have len2: "0 < length (g_events (eventdel 0 s))"
    using len by simp
  show ?thesis
  proof (cases "d = []")
    case True
    then have "upd 0 (\<lambda>ev. ev\<lparr>buf := d @ drop (length d) (buf ev)\<rparr>) s = s"
      by (simp add: upd_def)
    then show ?thesis
      using True hang_up_ok [OF assms(1,2)] unfolding recvdata_def d_def [symmetric] Let_def by (simp add: close_fd_def)
  next
    case False
    have ok2: "reactor_ok lfd (eventdel 0 s)"
      by (rule eventdel_ok [OF assms(1) \<open>0 < MAX_EVENTS\<close> assms(2)])
    then have e2: "entry_ok lfd (used (eventdel 0 s) 0) (slot (eventdel 0 s) 0)"
      using \<open>0 < MAX_EVENTS\<close> by (simp add: reactor_ok_def)
    have ok3: "reactor_ok lfd ?s2"
      using d e2 by (intro upd_ok [OF ok2 \<open>0 < MAX_EVENTS\<close>])
        (auto simp: entry_ok_def set_update_memI split: option.splits)
    have "recvdata fd 0 w s = map_option (\<lambda>s. (s, [])) (eventadd (a_ctl w) EPOLLOUT 0 (eventset 0 fd Senddata 0 (a_time w) ?s2))"
      using False d e2 len2 unfolding recvdata_def d_def [symmetric] Let_def eventdel_buf [OF len, of "\<lambda>b. d @ drop (length d) b"]
      by (simp add: upd_upd comp_def entry_ok_def)
    moreover have "\<forall>j. used s j \<longrightarrow> used ?s2 j"
      using len2 by auto
    ultimately show ?thesis
      using set_add_ok [OF ok3 \<open>0 < MAX_EVENTS\<close> _ assms(3), of Senddata "a_ctl w" EPOLLOUT "a_time w"] by auto
  qed
qed

lemma free_entry_Some: "free_entry evs = Some i \<Longrightarrow> i < length evs \<and> status (evs ! i) = 0 \<and> (\<forall>j<i. status (evs ! j) \<noteq> 0)"
proof (induction evs arbitrary: i)
  case (Cons ev evs)
  then show ?case
    by (auto simp: less_Suc_eq_0_disj split: if_splits)
qed simp

text \<open>The first client gets the first entry.\<close>

lemma acceptconn_ok:
  assumes "reactor_ok lfd s" and "answers_ok lfd w"
  shows "goes_on lfd s (acceptconn w s)"
proof (cases "a_accept w = -1 \<or> free_entry (take MAX_EVENTS (g_events s)) = None \<or> \<not> a_fcntl w")
  case True
  then show ?thesis
    using assms(1) by (auto simp: acceptconn_def split: option.split)
next
  case False
  then obtain i where i: "free_entry (take MAX_EVENTS (g_events s)) = Some i"
    by auto
  have e: "entry_ok lfd (used s 0) (slot s 0)" "length (g_events s) = MAX_EVENTS + 1" "0 < MAX_EVENTS"
    using assms(1) by (simp_all add: reactor_ok_def MAX_EVENTS_def)
  have first: "i < MAX_EVENTS" "0 < i \<longrightarrow> status (slot s 0) \<noteq> 0"
    using free_entry_Some [OF i] e(2,3) by auto
  then have "i = 0 \<or> used s 0"
    using e(1) by (auto simp: entry_ok_def)
  then show ?thesis
    using set_add_ok [OF assms(1) first(1), of "a_accept w" Recvdata "a_ctl w" EPOLLIN "a_time w"] assms(2) i False
    by (auto simp: acceptconn_def answers_ok_def)
qed

lemma call_ok:
  assumes "reactor_ok lfd s" and "i \<le> MAX_EVENTS" and "used s i" and "answers_ok lfd w"
  shows "goes_on lfd s (call i w s)"
proof (cases "i = MAX_EVENTS")
  case True
  then have "call i w s = acceptconn w s"
    using assms(1) by (simp add: call_def reactor_ok_def)
  then show ?thesis
    using acceptconn_ok [OF assms(1,4)] by simp
next
  case False
  then have "i < MAX_EVENTS"
    using assms(2) by simp
  note c = client_entry [OF assms(1) this assms(3)]
  have "0 < length (g_events s)"
    using assms(1) by (simp add: reactor_ok_def)
  then have "call i w s = recvdata (efd (slot s i)) 0 w s \<or> call i w s = senddata (efd (slot s i)) 0 w s"
    using assms(3) c(2,3) by (auto simp: call_def split: callback.splits)
  then show ?thesis
    using senddata_ok [OF assms(1) c(4,1)] recvdata_ok [OF assms(1) c(4,1) assms(4)] by auto
qed

lemma dispatch_ok:
  assumes "reactor_ok lfd s" and "i \<le> MAX_EVENTS" and "used s i" and "answers_ok lfd w1" and "answers_ok lfd w2"
  shows "goes_on lfd s (dispatch (evs, i, w1, w2) s)"
proof -
  have "goes_on lfd s (if evs AND EPOLLIN \<noteq> 0 \<and> events (slot s i) AND EPOLLIN \<noteq> 0 then call i w1 s else Some (s, []))"
    using call_ok [OF assms(1-4)] assms(1) by simp
  then obtain s1 es where s1: "(if evs AND EPOLLIN \<noteq> 0 \<and> events (slot s i) AND EPOLLIN \<noteq> 0 then call i w1 s else Some (s, [])) = Some (s1, es)"
      "reactor_ok lfd s1" "\<forall>j. used s j \<longrightarrow> used s1 j"
    by blast
  have "goes_on lfd s1 (if evs AND EPOLLOUT \<noteq> 0 \<and> events (slot s1 i) AND EPOLLOUT \<noteq> 0 then call i w2 s1 else Some (s1, []))"
    using call_ok [OF s1(2) assms(2) _ assms(5)] s1(2,3) assms(3) by simp
  moreover have "\<not> length (g_events s) \<le> i"
    using assms(1,2) by (simp add: reactor_ok_def)
  ultimately show ?thesis
    using s1(3) unfolding dispatch_def prod.case s1(1) by auto
qed

type_synonym event = "u32 \<times> nat \<times> answers \<times> answers"

lemma react_ok:
  "reactor_ok lfd s \<Longrightarrow> \<forall>(evs, i, w1, w2)\<in>set es. i \<le> MAX_EVENTS \<and> used s i \<and> answers_ok lfd w1 \<and> answers_ok lfd w2 \<Longrightarrow>
    goes_on lfd s (react es s)"
proof (induction es arbitrary: s)
  case (Cons e es)
  obtain evs i w1 w2 where e: "e = (evs, i, w1, w2)"
    by (cases e)
  obtain s1 fs where s1: "dispatch e s = Some (s1, fs)" "reactor_ok lfd s1" "\<forall>j. used s j \<longrightarrow> used s1 j"
    using dispatch_ok [of lfd s i w1 w2 evs] Cons.prems e by auto
  then obtain s2 gs where "react es s1 = Some (s2, gs)" "reactor_ok lfd s2" "\<forall>j. used s1 j \<longrightarrow> used s2 j"
    using Cons.IH [OF s1(2)] Cons.prems(2) by fastforce
  then show ?case
    using s1 by auto
qed simp

section \<open>Reachable states\<close>

text \<open>What one \<^verbatim>\<open>epoll_wait\<close> reports: pointers that are on the interest list, with possible answers.\<close>

definition batch_ok :: "int \<Rightarrow> reactor \<Rightarrow> event list \<Rightarrow> bool" where
  "batch_ok lfd s es \<longleftrightarrow>
     (\<forall>(evs, i, w1, w2)\<in>set es. (\<exists>fd e. watch s fd = Some (e, i)) \<and> answers_ok lfd w1 \<and> answers_ok lfd w2)"

inductive served :: "int \<Rightarrow> reactor \<Rightarrow> bool" for lfd where
  start: "initlistensocket lfd bind_ok True now reactor_zero = Some (Ret s) \<Longrightarrow> served lfd s"
| batch: "served lfd s \<Longrightarrow> batch_ok lfd s es \<Longrightarrow> react es s = Some (s', fs) \<Longrightarrow> served lfd s'"

lemma zero_entry: "entry_ok lfd b zero_event"
  by (simp add: entry_ok_def zero_event_def BUFLEN_def)

lemma reactor_zero_slot [simp]: "i \<le> MAX_EVENTS \<Longrightarrow> slot reactor_zero i = zero_event" "length (g_events reactor_zero) = MAX_EVENTS + 1"
  by (simp_all add: reactor_zero_def del: replicate.simps)

definition listening :: "int \<Rightarrow> int \<Rightarrow> reactor" where
  "listening lfd now = \<lparr>g_events = (replicate (MAX_EVENTS + 1) zero_event)[MAX_EVENTS := zero_event\<lparr>efd := lfd,
     call_back := Some Acceptconn, events := EPOLLIN, arg := Some MAX_EVENTS, status := 1, last_active := now\<rparr>],
     watch = [lfd \<mapsto> (EPOLLIN, MAX_EVENTS)]\<rparr>"

lemma initlistensocket_eq:
  "initlistensocket lfd bind_ok True now reactor_zero =
    (if lfd = -1 then Some (Exits ''socet error'') else if \<not> bind_ok then Some (Exits ''bind error'')
     else Some (Ret (listening lfd now)))"
  by (simp add: initlistensocket_def eventset_def eventadd_def upd_def reactor_zero_def listening_def zero_event_def Let_def
      nth_append del: replicate.simps)

lemma listening_slot:
  "slot (listening lfd now) MAX_EVENTS = zero_event\<lparr>efd := lfd, call_back := Some Acceptconn, events := EPOLLIN,
     arg := Some MAX_EVENTS, status := 1, last_active := now\<rparr>"
  "i < MAX_EVENTS \<Longrightarrow> slot (listening lfd now) i = zero_event"
  "length (g_events (listening lfd now)) = MAX_EVENTS + 1"
  "watch (listening lfd now) = [lfd \<mapsto> (EPOLLIN, MAX_EVENTS)]"
  by (simp_all add: listening_def del: replicate.simps)

lemma listening_ok: "reactor_ok lfd (listening lfd now)"
  by (auto simp: reactor_ok_def watch_ok_def listening_slot zero_entry split: if_splits)

lemma batch_pointers:
  assumes "reactor_ok lfd s" and "batch_ok lfd s es"
  shows "goes_on lfd s (react es s)"
  using assms by (intro react_ok) (fastforce simp: batch_ok_def reactor_ok_def watch_ok_def)+

lemma served_ok: "served lfd s \<Longrightarrow> reactor_ok lfd s"
proof (induction rule: served.induct)
  case (start bind_ok now s)
  then show ?case
    using listening_ok [of lfd now] by (auto simp: initlistensocket_eq split: if_splits)
next
  case (batch s es s' fs)
  then show ?case
    using batch_pointers [of lfd s es] by auto
qed

text \<open>
  (C20) In every state the reactor can reach, whatever batch of events the kernel reports and however it
  answers the system calls, \<^verbatim>\<open>epoll_ctl\<close> included, the dispatch loop runs to its end as long as no \<^verbatim>\<open>recv\<close>
  fills the whole buffer and no new connection gets the descriptor of the listening socket: it never calls
  a null callback or follows a null argument, never hands \<^verbatim>\<open>epoll_ctl\<close> an uninitialised operation, and
  stays inside the table and the buffers, when it receives, when it sends and when it prints, also for
  events that an earlier event of the same batch has made stale. The listening socket, once
  registered, stays registered with its own callback, so new connections are always noticed.
\<close>

theorem reactor_safe:
  assumes "served lfd s" and "batch_ok lfd s es"
  shows "\<exists>s' fs. react es s = Some (s', fs) \<and> served lfd s' \<and> watch s' lfd = Some (EPOLLIN, MAX_EVENTS)
    \<and> call_back (slot s' MAX_EVENTS) = Some Acceptconn \<and> events (slot s' MAX_EVENTS) = EPOLLIN"
proof -
  obtain s' fs where s': "react es s = Some (s', fs)" "reactor_ok lfd s'"
    using batch_pointers [OF served_ok [OF assms(1)] assms(2)] by blast
  then have "served lfd s'"
    using served.batch assms by blast
  then show ?thesis
    using s' by (auto simp: reactor_ok_def watch_ok_def)
qed

definition no_answer :: answers where
  "no_answer = \<lparr>a_recv = Fin, a_send = 0, a_accept = -1, a_fcntl = True, a_ctl = True, a_time = 0\<rparr>"

abbreviation accepts :: "int \<Rightarrow> event" where
  "accepts c \<equiv> (EPOLLIN, MAX_EVENTS, no_answer\<lparr>a_accept := c\<rparr>, no_answer)"

theorem reactor_safe_witness:
  "\<exists>s' fs. react [accepts 5, accepts 6] (listening 3 0) = Some (s', fs) \<and> served 3 s' \<and> watch s' 3 = Some (EPOLLIN, MAX_EVENTS)
    \<and> call_back (slot s' MAX_EVENTS) = Some Acceptconn \<and> events (slot s' MAX_EVENTS) = EPOLLIN"
proof (rule reactor_safe)
  show "served 3 (listening 3 0)"
    by (rule served.start [of 3 True 0]) (simp add: initlistensocket_eq)
  show "batch_ok 3 (listening 3 0) [accepts 5, accepts 6]"
    by (auto simp: batch_ok_def answers_ok_def no_answer_def listening_slot intro: exI [of _ 3])
qed

section \<open>One client\<close>

text \<open>An entry that is registered for a client, and what setting and registering gives.\<close>

definition serving :: "int \<Rightarrow> callback \<Rightarrow> u32 \<Rightarrow> myevent_s \<Rightarrow> bool" where
  "serving c cb evs ev \<longleftrightarrow> efd ev = c \<and> call_back ev = Some cb \<and> events ev = evs \<and> arg ev = Some 0 \<and> status ev = 1"

lemma set_add_slot:
  assumes "i < length (g_events s)"
  shows "\<exists>s'. eventadd True evs i (eventset i fd cb 0 now s) = Some s' \<and> serving fd cb evs (slot s' i)
    \<and> (0 < len (slot s i) \<longrightarrow> buf (slot s' i) = buf (slot s i) \<and> len (slot s' i) = len (slot s i))
    \<and> (\<forall>j. j \<noteq> i \<longrightarrow> slot s' j = slot s j) \<and> length (g_events s') = length (g_events s)
    \<and> watch s' = (watch s)(fd \<mapsto> (case watch s fd of None \<Rightarrow> (evs, i) | Some p \<Rightarrow> p))"
proof -
  let ?s1 = "eventset i fd cb 0 now s"
  let ?s2 = "upd i (\<lambda>ev. ev\<lparr>status := 1\<rparr>) (upd i (\<lambda>ev. ev\<lparr>events := evs\<rparr>) ?s1)"
  have s1: "length (g_events ?s1) = length (g_events s)" "watch ?s1 = watch s" "status (slot ?s1 i) = 0" "\<forall>j. j \<noteq> i \<longrightarrow> slot ?s1 j = slot s j"
    using assms by (simp_all add: eventset_def Let_def)
  have s2: "efd (slot ?s2 i) = fd" "serving fd cb evs (slot ?s2 i)"
      "0 < len (slot s i) \<longrightarrow> buf (slot ?s2 i) = buf (slot s i) \<and> len (slot ?s2 i) = len (slot s i)"
    using assms by (simp_all add: eventset_def Let_def serving_def)
  have "eventadd True evs i ?s1 =
      (case watch ?s2 fd of Some _ \<Rightarrow> Some ?s2 | None \<Rightarrow> Some (?s2\<lparr>watch := (watch ?s2)(fd \<mapsto> (evs, i))\<rparr>))"
    using s1(1,3) assms unfolding eventadd_def Let_def s2(1) by simp
  moreover have "\<forall>j. j \<noteq> i \<longrightarrow> slot ?s2 j = slot s j" "length (g_events ?s2) = length (g_events s)" "watch ?s2 = watch s"
    using assms s1 by simp_all
  moreover have "(watch s)(fd \<mapsto> p) = watch s" if "watch s fd = Some p" for p
    using that by (rule map_upd_triv)
  ultimately show ?thesis
    using s2(2,3) by (cases "watch s fd") simp_all
qed

text \<open>Data for the entry \<open>0\<close> makes it wait for room to send; sending makes it wait for data again.\<close>

lemma recvdata_first:
  assumes "0 < length (g_events s)" and "serving c Recvdata EPOLLIN (slot s 0)" and "length (buf (slot s 0)) = BUFLEN"
    and "a_recv w = Data d" and "0 < length d" and "length d < BUFLEN" and "a_ctl w"
  shows "\<exists>s'. recvdata fd 0 w s = Some (s', []) \<and> serving fd Senddata EPOLLOUT (slot s' 0) \<and> 0 \<in> set (buf (slot s' 0))
    \<and> length (buf (slot s' 0)) = BUFLEN \<and> len (slot s' 0) = int (length d) \<and> take (length d) (buf (slot s' 0)) = d
    \<and> (\<forall>j. j \<noteq> 0 \<longrightarrow> slot s' j = slot s j) \<and> length (g_events s') = length (g_events s)
    \<and> watch s' = (watch s)(c := None, fd \<mapsto> (case ((watch s)(c := None)) fd of None \<Rightarrow> (EPOLLOUT, 0) | Some p \<Rightarrow> p))"
proof -
  let ?s1 = "eventdel 0 (upd 0 (\<lambda>ev. ev\<lparr>buf := d @ drop (length d) (buf ev)\<rparr>) s)"
  let ?s2 = "upd 0 (\<lambda>ev. ev\<lparr>len := int (length d), buf := (buf ev)[length d := 0]\<rparr>) ?s1"
  have s1: "watch ?s1 = (watch s)(c := None)" "buf (slot ?s1 0) = d @ drop (length d) (buf (slot s 0))"
      "\<forall>j. j \<noteq> 0 \<longrightarrow> slot ?s1 j = slot s j"
    using assms(1,2) by (simp_all add: eventdel_def Let_def serving_def)
  have s2: "watch ?s2 = (watch s)(c := None)" "length (g_events ?s2) = length (g_events s)" "0 < length (g_events ?s2)"
      "len (slot ?s2 0) = int (length d)" "\<forall>j. j \<noteq> 0 \<longrightarrow> slot ?s2 j = slot s j"
      "length (buf (slot ?s2 0)) = BUFLEN" "take (length d) (buf (slot ?s2 0)) = d" "0 \<in> set (buf (slot ?s2 0))"
    using assms(1,3,6) s1 by (simp_all add: set_update_memI)
  have "recvdata fd 0 w s = map_option (\<lambda>s. (s, [])) (eventadd True EPOLLOUT 0 (eventset 0 fd Senddata 0 (a_time w) ?s2))"
    using assms(3-7) s1(2) by (simp add: recvdata_def Let_def)
  then show ?thesis
    using set_add_slot [OF s2(3), of EPOLLOUT fd Senddata "a_time w"] s2 assms(5) by auto
qed

lemma senddata_first:
  assumes "0 < length (g_events s)" and "serving c Senddata EPOLLOUT (slot s 0)" and "length (buf (slot s 0)) = BUFLEN"
    and "len (slot s 0) = int (length d)" and "take (length d) (buf (slot s 0)) = d"
    and "a_send w = int n" and "0 < n" and "n \<le> length d" and "length d < BUFLEN" and "0 \<in> set (buf (slot s 0))" and "a_ctl w"
  shows "\<exists>s'. senddata c 0 w s = Some (s', [Wrote c (take n d)]) \<and> serving c Recvdata EPOLLIN (slot s' 0)
    \<and> length (buf (slot s' 0)) = BUFLEN
    \<and> (\<forall>j. j \<noteq> 0 \<longrightarrow> slot s' j = slot s j) \<and> length (g_events s') = length (g_events s)
    \<and> watch s' = (watch s)(c \<mapsto> (EPOLLIN, 0))"
proof -
  let ?s1 = "eventdel 0 s"
  have "d \<noteq> []"
    using assms(7,8) by auto
  then have s1: "watch ?s1 = (watch s)(c := None)" "0 < length (g_events ?s1)" "0 < len (slot ?s1 0)"
      "buf (slot ?s1 0) = buf (slot s 0)" "\<forall>j. j \<noteq> 0 \<longrightarrow> slot ?s1 j = slot s j"
    using assms by (simp_all add: eventdel_def Let_def serving_def)
  have eq: "senddata c 0 w s = map_option (\<lambda>s. (s, [Wrote c (take n d)])) (eventadd True EPOLLIN 0 (eventset 0 c Recvdata 0 (a_time w) ?s1))"
    using assms(3-11) by (cases "eventadd True EPOLLIN 0 (eventset 0 c Recvdata 0 (a_time w) ?s1)") (simp_all add: senddata_def Let_def)
  obtain s' where "eventadd True EPOLLIN 0 (eventset 0 c Recvdata 0 (a_time w) ?s1) = Some s'" "serving c Recvdata EPOLLIN (slot s' 0)"
      "buf (slot s' 0) = buf (slot s 0)" "\<forall>j. j \<noteq> 0 \<longrightarrow> slot s' j = slot s j" "length (g_events s') = length (g_events s)"
      "watch s' = (watch s)(c \<mapsto> (EPOLLIN, 0))"
    using set_add_slot [OF s1(2), of EPOLLIN c Recvdata "a_time w"] s1 by auto
  then show ?thesis
    using eq assms(3) by simp
qed

text \<open>A table with one client that waits for data, and the two events of an exchange with it.\<close>

definition waits :: "int \<Rightarrow> int \<Rightarrow> reactor \<Rightarrow> bool" where
  "waits lfd c s \<longleftrightarrow> length (g_events s) = MAX_EVENTS + 1 \<and> serving c Recvdata EPOLLIN (slot s 0) \<and> length (buf (slot s 0)) = BUFLEN
     \<and> watch s = [lfd \<mapsto> (EPOLLIN, MAX_EVENTS), c \<mapsto> (EPOLLIN, 0)]"

abbreviation receives :: "u8 list \<Rightarrow> event list" where
  "receives d \<equiv> [(EPOLLIN, 0, no_answer\<lparr>a_recv := Data d\<rparr>, no_answer)]"

definition exchange :: "u8 list \<times> nat \<Rightarrow> event list" where
  "exchange m = [(EPOLLIN, 0, no_answer\<lparr>a_recv := Data (fst m)\<rparr>, no_answer), (EPOLLOUT, 0, no_answer, no_answer\<lparr>a_send := int (snd m)\<rparr>)]"

lemma event_bits: "EPOLLIN AND EPOLLIN \<noteq> 0" "EPOLLIN AND EPOLLOUT = 0" "EPOLLOUT AND EPOLLIN = 0" "EPOLLOUT AND EPOLLOUT \<noteq> 0"
  "EPOLLIN \<noteq> 0" "EPOLLOUT \<noteq> 0"
  by (simp_all add: EPOLLIN_def EPOLLOUT_def)

lemma react_append:
  "react (es @ fs) s = do { (s, xs) \<leftarrow> react es s; (s, ys) \<leftarrow> react fs s; Some (s, xs @ ys) }"
proof (induction es arbitrary: s)
  case Nil
  then show ?case
    by (cases "react fs s") auto
next
  case (Cons e es)
  then show ?case
    by (auto simp: split_def split: Option.bind_splits)
qed

lemma exchange_waits:
  assumes "waits lfd c s" and "c \<noteq> lfd" and "0 < n" and "n \<le> length d" and "length d < BUFLEN"
  shows "\<exists>s'. react (exchange (d, n)) s = Some (s', [Wrote c (take n d)]) \<and> waits lfd c s'"
proof -
  let ?w1 = "no_answer\<lparr>a_recv := Data d\<rparr>" and ?w2 = "no_answer\<lparr>a_send := int n\<rparr>"
  have s: "0 < length (g_events s)" "serving c Recvdata EPOLLIN (slot s 0)" "length (buf (slot s 0)) = BUFLEN"
      "watch s = [lfd \<mapsto> (EPOLLIN, MAX_EVENTS), c \<mapsto> (EPOLLIN, 0)]" "length (g_events s) = MAX_EVENTS + 1"
    using assms(1) by (auto simp: waits_def)
  have "0 < length d"
    using assms(3,4) by linarith
  from recvdata_first [OF s(1-3) _ this assms(5), of ?w1 c]
  obtain s1 where zero: "0 \<in> set (buf (slot s1 0))"
    and s1: "recvdata c 0 ?w1 s = Some (s1, [])" "serving c Senddata EPOLLOUT (slot s1 0)"
      "length (buf (slot s1 0)) = BUFLEN" "len (slot s1 0) = int (length d)" "take (length d) (buf (slot s1 0)) = d"
      "length (g_events s1) = length (g_events s)" "watch s1 = (watch s)(c := None, c \<mapsto> (EPOLLOUT, 0))"
    by (auto simp: no_answer_def)
  have "0 < length (g_events s1)"
    using s(1) s1(6) by simp
  from senddata_first [OF this s1(2-5) _ assms(3,4,5) zero, of ?w2]
  obtain s2 where s2: "senddata c 0 ?w2 s1 = Some (s2, [Wrote c (take n d)])" "serving c Recvdata EPOLLIN (slot s2 0)"
      "length (buf (slot s2 0)) = BUFLEN" "length (g_events s2) = length (g_events s1)" "watch s2 = (watch s1)(c \<mapsto> (EPOLLIN, 0))"
    by (auto simp: no_answer_def)
  have "dispatch (EPOLLIN, 0, ?w1, no_answer) s = Some (s1, [])"
    using s(1,2) s1(1) by (simp add: dispatch_def call_def serving_def event_bits)
  moreover have "dispatch (EPOLLOUT, 0, no_answer, ?w2) s1 = Some (s2, [Wrote c (take n d)])"
    using s(1) s1(2,6) s2(1) by (simp add: dispatch_def call_def serving_def event_bits)
  moreover have "waits lfd c s2"
    using s2 s1(6,7) s(4,5) assms(2) by (simp add: waits_def)
  ultimately show ?thesis
    by (simp add: exchange_def)
qed

lemma full_buffer:
  assumes "waits lfd c s" and "length d = BUFLEN"
  shows "react (receives d) s = None"
proof -
  have "d \<noteq> []"
    using assms(2) by (auto simp: BUFLEN_def)
  moreover have "serving c Recvdata EPOLLIN (slot s 0)" "0 < length (g_events s)" "length (buf (slot s 0)) = BUFLEN"
    using assms(1) by (auto simp: waits_def)
  ultimately show ?thesis
    using assms(2) by (simp add: dispatch_def call_def serving_def event_bits recvdata_def eventdel_def Let_def)
qed

lemma refused_waits:
  assumes "waits lfd c s" and "c \<noteq> lfd" and "0 < length d" and "length d < BUFLEN" and "n \<le> 0"
  shows "\<exists>s'. react (receives d @ [(EPOLLOUT, 0, no_answer, no_answer\<lparr>a_send := n\<rparr>)]) s = Some (s', [Closed c])
    \<and> watch s' = [lfd \<mapsto> (EPOLLIN, MAX_EVENTS)]"
proof -
  have s: "0 < length (g_events s)" "serving c Recvdata EPOLLIN (slot s 0)" "length (buf (slot s 0)) = BUFLEN"
      "watch s = [lfd \<mapsto> (EPOLLIN, MAX_EVENTS), c \<mapsto> (EPOLLIN, 0)]"
    using assms(1) by (auto simp: waits_def)
  from recvdata_first [OF s(1-3) _ assms(3,4), of "no_answer\<lparr>a_recv := Data d\<rparr>" c]
  obtain s1 where s1: "recvdata c 0 (no_answer\<lparr>a_recv := Data d\<rparr>) s = Some (s1, [])" "serving c Senddata EPOLLOUT (slot s1 0)"
      "length (buf (slot s1 0)) = BUFLEN" "len (slot s1 0) = int (length d)"
      "length (g_events s1) = length (g_events s)" "watch s1 = (watch s)(c := None, c \<mapsto> (EPOLLOUT, 0))"
    by (auto simp: no_answer_def)
  have "dispatch (EPOLLIN, 0, no_answer\<lparr>a_recv := Data d\<rparr>, no_answer) s = Some (s1, [])"
    using s(1,2) s1(1) by (simp add: dispatch_def call_def serving_def event_bits)
  moreover have "senddata c 0 (no_answer\<lparr>a_send := n\<rparr>) s1 = Some (close_fd c (eventdel 0 s1), [Closed c])"
    using assms(4,5) s1(2-4) by (simp add: senddata_def serving_def Let_def)
  then have "dispatch (EPOLLOUT, 0, no_answer, no_answer\<lparr>a_send := n\<rparr>) s1 = Some (close_fd c (eventdel 0 s1), [Closed c])"
    using s(1) s1(2,5) by (simp add: dispatch_def call_def serving_def event_bits)
  moreover have "watch (close_fd c (eventdel 0 s1)) = [lfd \<mapsto> (EPOLLIN, MAX_EVENTS)]"
    using s(1,4) s1(2,5,6) assms(2) by (auto simp: close_fd_def eventdel_def Let_def serving_def fun_eq_iff)
  ultimately show ?thesis
    by simp
qed

lemma exchanges_wait:
  "waits lfd c s \<Longrightarrow> c \<noteq> lfd \<Longrightarrow> \<forall>(d, n)\<in>set ms. 0 < n \<and> n \<le> length d \<and> length d < BUFLEN \<Longrightarrow>
    \<exists>s'. react (concat (map exchange ms)) s = Some (s', map (\<lambda>(d, n). Wrote c (take n d)) ms) \<and> waits lfd c s'"
proof (induction ms arbitrary: s)
  case (Cons m ms)
  obtain d n where m: "m = (d, n)"
    by (cases m)
  obtain s1 where s1: "react (exchange (d, n)) s = Some (s1, [Wrote c (take n d)])" "waits lfd c s1"
    using exchange_waits [OF Cons.prems(1,2), of n d] Cons.prems(3) m by auto
  obtain s2 where "react (concat (map exchange ms)) s1 = Some (s2, map (\<lambda>(d, n). Wrote c (take n d)) ms)" "waits lfd c s2"
    using Cons.IH [OF s1(2) Cons.prems(2)] Cons.prems(3) by auto
  then show ?case
    using s1(1) m by (simp add: react_append)
qed simp

lemma accept_first:
  assumes "c \<noteq> lfd" and "c \<noteq> -1"
  shows "\<exists>s'. dispatch (accepts c) (listening lfd now) = Some (s', []) \<and> waits lfd c s' \<and> (\<forall>j. j \<noteq> 0 \<longrightarrow> slot s' j = slot (listening lfd now) j)"
proof -
  let ?s = "listening lfd now"
  have max: "0 < MAX_EVENTS" "Suc 0 < MAX_EVENTS"
    by (simp_all add: MAX_EVENTS_def)
  have "take MAX_EVENTS (g_events ?s) = zero_event # take (MAX_EVENTS - 1) (tl (g_events ?s))"
    using max listening_slot(2) [of 0 lfd now] listening_slot(3) [of lfd now] by (cases "g_events ?s") (simp_all add: take_Cons')
  then have free: "free_entry (take MAX_EVENTS (g_events ?s)) = Some 0"
    by (simp add: zero_event_def)
  have call: "dispatch (accepts c) ?s = map_option (\<lambda>s. (s, [])) (eventadd True EPOLLIN 0 (eventset 0 c Recvdata 0 0 ?s))"
    using assms(2) free by (cases "eventadd True EPOLLIN 0 (eventset 0 c Recvdata 0 0 ?s)")
      (simp_all add: dispatch_def call_def listening_slot acceptconn_def no_answer_def event_bits)
  have len: "0 < length (g_events ?s)"
    by (simp add: listening_slot)
  obtain s' where s': "eventadd True EPOLLIN 0 (eventset 0 c Recvdata 0 0 ?s) = Some s'" "serving c Recvdata EPOLLIN (slot s' 0)"
      "\<forall>j. j \<noteq> 0 \<longrightarrow> slot s' j = slot ?s j" "length (g_events s') = length (g_events ?s)"
      "watch s' = (watch ?s)(c \<mapsto> (case watch ?s c of None \<Rightarrow> (EPOLLIN, 0) | Some p \<Rightarrow> p))"
    using set_add_slot [OF len, of EPOLLIN c Recvdata 0] by blast
  have "goes_on lfd ?s (dispatch (accepts c) ?s)"
    using assms(1) by (intro dispatch_ok listening_ok) (simp_all add: listening_slot answers_ok_def no_answer_def BUFLEN_def)
  then have "reactor_ok lfd s'"
    using call s'(1) by simp
  then have "length (buf (slot s' 0)) = BUFLEN"
    using max(1) by (simp add: reactor_ok_def entry_ok_def)
  then show ?thesis
    using call s' assms(1) by (auto simp: waits_def listening_slot)
qed



section \<open>Two clients\<close>

lemma accept_second:
  assumes "waits lfd a s" and "\<forall>j. j \<noteq> 0 \<longrightarrow> slot s j = slot (listening lfd now) j"
    and "b \<noteq> lfd" and "b \<noteq> -1" and "b \<noteq> a"
  shows "\<exists>s'. dispatch (accepts b) s = Some (s', []) \<and> serving b Recvdata EPOLLIN (slot s' 1) \<and> slot s' 0 = slot s 0
    \<and> length (g_events s') = length (g_events s) \<and> watch s' = (watch s)(b \<mapsto> (EPOLLIN, 1))"
proof -
  have max: "1 < MAX_EVENTS" "MAX_EVENTS \<noteq> 0"
    by (simp_all add: MAX_EVENTS_def)
  have s: "length (g_events s) = MAX_EVENTS + 1" "status (slot s 0) = 1" "watch s = [lfd \<mapsto> (EPOLLIN, MAX_EVENTS), a \<mapsto> (EPOLLIN, 0)]"
      "status (slot s 1) = 0" "slot s MAX_EVENTS = slot (listening lfd now) MAX_EVENTS"
    using assms(1,2) max by (simp_all add: waits_def serving_def listening_slot zero_event_def)
  obtain x y zs where "g_events s = x # y # zs"
    using s(1) max(1) by (cases "g_events s"; cases "tl (g_events s)") auto
  then have "take MAX_EVENTS (g_events s) = x # y # take (MAX_EVENTS - Suc (Suc 0)) zs" "status x = 1" "status y = 0"
    using max s(2,4) by (simp_all add: take_Cons')
  then have free: "free_entry (take MAX_EVENTS (g_events s)) = Some 1"
    by simp
  have call: "dispatch (accepts b) s = map_option (\<lambda>s. (s, [])) (eventadd True EPOLLIN 1 (eventset 1 b Recvdata 0 0 s))"
    using assms(4) free s(1,5) by (cases "eventadd True EPOLLIN 1 (eventset 1 b Recvdata 0 0 s)")
      (simp_all add: dispatch_def call_def listening_slot acceptconn_def no_answer_def event_bits)
  have len: "1 < length (g_events s)"
    using s(1) max(1) by simp
  obtain s' where "eventadd True EPOLLIN 1 (eventset 1 b Recvdata 0 0 s) = Some s'" "serving b Recvdata EPOLLIN (slot s' 1)"
      "\<forall>j. j \<noteq> 1 \<longrightarrow> slot s' j = slot s j" "length (g_events s') = length (g_events s)"
      "watch s' = (watch s)(b \<mapsto> (case watch s b of None \<Rightarrow> (EPOLLIN, 1) | Some p \<Rightarrow> p))"
    using set_add_slot [OF len, of EPOLLIN b Recvdata 0] by blast
  then show ?thesis
    using call s(3) assms(3,5) by simp
qed

text \<open>
  (C38) With a second client the reactor breaks, because \<^verbatim>\<open>acceptconn\<close> passes \<^verbatim>\<open>&g_events\<close> instead of
  \<^verbatim>\<open>&g_events[i]\<close>. When \<open>a\<close> and then \<open>b\<close> have connected and \<open>b\<close> sends a message, the first client is taken
  off the interest list for good although it is still connected, and \<open>b\<close>, registered for reading only,
  gets no answer. When instead \<open>b\<close> hangs up, the connection of \<open>a\<close> is closed and \<open>b\<close>'s stays open and
  registered.
\<close>

theorem reactor_second_client:
  assumes "a \<noteq> lfd" and "a \<noteq> -1" and "b \<noteq> lfd" and "b \<noteq> -1" and "b \<noteq> a" and "0 < length d" and "length d < BUFLEN"
  shows "\<exists>s. react [accepts a, accepts b] (listening lfd now) = Some (s, [])
    \<and> watch s = [lfd \<mapsto> (EPOLLIN, MAX_EVENTS), a \<mapsto> (EPOLLIN, 0), b \<mapsto> (EPOLLIN, 1)]
    \<and> (\<exists>s'. dispatch (EPOLLIN, 1, no_answer\<lparr>a_recv := Data d\<rparr>, no_answer) s = Some (s', [])
          \<and> watch s' = [lfd \<mapsto> (EPOLLIN, MAX_EVENTS), b \<mapsto> (EPOLLIN, 1)])
    \<and> (\<exists>s'. dispatch (EPOLLIN, 1, no_answer\<lparr>a_recv := Fin\<rparr>, no_answer) s = Some (s', [Closed a])
          \<and> watch s' = [lfd \<mapsto> (EPOLLIN, MAX_EVENTS), b \<mapsto> (EPOLLIN, 1)])"
proof -
  obtain s1 where s1: "dispatch (accepts a) (listening lfd now) = Some (s1, [])" "waits lfd a s1"
      "\<forall>j. j \<noteq> 0 \<longrightarrow> slot s1 j = slot (listening lfd now) j"
    using accept_first [OF assms(1,2)] by blast
  obtain s2 where s2: "dispatch (accepts b) s1 = Some (s2, [])" "serving b Recvdata EPOLLIN (slot s2 1)" "slot s2 0 = slot s1 0"
      "length (g_events s2) = length (g_events s1)" "watch s2 = (watch s1)(b \<mapsto> (EPOLLIN, 1))"
    using accept_second [OF s1(2,3) assms(3-5)] by blast
  have watch: "watch s2 = [lfd \<mapsto> (EPOLLIN, MAX_EVENTS), a \<mapsto> (EPOLLIN, 0), b \<mapsto> (EPOLLIN, 1)]"
    using s1(2) s2(5) by (simp add: waits_def)
  have first: "0 < length (g_events s2)" "serving a Recvdata EPOLLIN (slot s2 0)" "length (buf (slot s2 0)) = BUFLEN"
    using s1(2) s2(3,4) by (auto simp: waits_def)
  have off: "(watch s2)(a := None) = [lfd \<mapsto> (EPOLLIN, MAX_EVENTS), b \<mapsto> (EPOLLIN, 1)]"
    unfolding watch using assms(1,5) by (auto simp: fun_eq_iff)
  have call: "dispatch (EPOLLIN, 1, w, no_answer) s2 = map_option (\<lambda>(s, es). (s, es)) (recvdata b 0 w s2)" for w
    using s2(2,4) s1(2) by (cases "recvdata b 0 w s2") (auto simp: waits_def MAX_EVENTS_def dispatch_def call_def serving_def event_bits)
  have "\<exists>s'. recvdata b 0 (no_answer\<lparr>a_recv := Data d\<rparr>) s2 = Some (s', []) \<and> watch s' = [lfd \<mapsto> (EPOLLIN, MAX_EVENTS), b \<mapsto> (EPOLLIN, 1)]"
    using recvdata_first [OF first _ assms(6,7), of "no_answer\<lparr>a_recv := Data d\<rparr>" b] unfolding off by (auto simp: no_answer_def)
  moreover have "\<exists>s'. recvdata b 0 (no_answer\<lparr>a_recv := Fin\<rparr>) s2 = Some (s', [Closed a])
      \<and> watch s' = [lfd \<mapsto> (EPOLLIN, MAX_EVENTS), b \<mapsto> (EPOLLIN, 1)]"
    using first(1,2) off assms(1,5) by (simp add: recvdata_def Let_def close_fd_def eventdel_def serving_def fun_upd_twist)
  ultimately show ?thesis
    using s1(1) s2(1) watch call by auto
qed

theorem reactor_second_client_witness:
  "\<exists>s. react [accepts 5, accepts 6] (listening 3 0) = Some (s, [])
    \<and> watch s = [3 \<mapsto> (EPOLLIN, MAX_EVENTS), 5 \<mapsto> (EPOLLIN, 0), 6 \<mapsto> (EPOLLIN, 1)]
    \<and> (\<exists>s'. dispatch (EPOLLIN, 1, no_answer\<lparr>a_recv := Data [104]\<rparr>, no_answer) s = Some (s', [])
          \<and> watch s' = [3 \<mapsto> (EPOLLIN, MAX_EVENTS), 6 \<mapsto> (EPOLLIN, 1)])
    \<and> (\<exists>s'. dispatch (EPOLLIN, 1, no_answer\<lparr>a_recv := Fin\<rparr>, no_answer) s = Some (s', [Closed 5])
          \<and> watch s' = [3 \<mapsto> (EPOLLIN, MAX_EVENTS), 6 \<mapsto> (EPOLLIN, 1)])"
  by (rule reactor_second_client) (simp_all add: BUFLEN_def)

end
