(* ===== verification/Codec.thy ===== *)
theory Codec
  imports Bytes
begin

text \<open>
  \<^verbatim>\<open>LengthHeaderCodec\<close> of the chat example, built on the \<^verbatim>\<open>Buffer\<close> of the muduo library. The buffer is
  not part of this repository: it is the argument \<open>B\<close>, a record of its operations, and what the codec
  relies on is \<open>buffer_ok\<close>. The loop of \<^verbatim>\<open>onMessage\<close> may run forever, which is \<^term>\<open>None\<close>.
\<close>

section \<open>The buffer\<close>

record 'b buffer_ops =
  readableBytes :: "'b \<Rightarrow> nat"
  peek :: "'b \<Rightarrow> u8 list"
  retrieve :: "nat \<Rightarrow> 'b \<Rightarrow> 'b"
  append_bytes :: "u8 list \<Rightarrow> 'b \<Rightarrow> 'b"
  prepend_bytes :: "u8 list \<Rightarrow> 'b \<Rightarrow> 'b"
  new_buffer :: 'b

text \<open>
  Documented behaviour: \<^verbatim>\<open>peek\<close> points to the readable bytes, \<^verbatim>\<open>retrieve\<close> drops bytes in front, \<^verbatim>\<open>append\<close>
  adds behind; a new buffer is empty and has room for eight bytes in front.
\<close>

definition buffer_ok :: "'b buffer_ops \<Rightarrow> bool" where
  "buffer_ok B \<longleftrightarrow> (\<forall>b. readableBytes B b = length (peek B b))
     \<and> (\<forall>n b. n \<le> length (peek B b) \<longrightarrow> peek B (retrieve B n b) = drop n (peek B b))
     \<and> (\<forall>d b. peek B (append_bytes B d b) = peek B b @ d)
     \<and> peek B (new_buffer B) = []
     \<and> (\<forall>d h. length h \<le> 8 \<longrightarrow> peek B (prepend_bytes B h (append_bytes B d (new_buffer B))) = h @ d)"

section \<open>The codec\<close>

datatype event = Message "u8 list" | Shutdown

text \<open>The length of the message is converted to \<^verbatim>\<open>int32_t\<close>.\<close>

definition send :: "'b buffer_ops \<Rightarrow> u8 list \<Rightarrow> 'b" where
  "send B message =
     (let buf = append_bytes B message (new_buffer B); len = of_nat (length message) :: u32
      in prepend_bytes B (net_bytes 4 (unat len)) buf)"

definition frame_len :: "u8 list \<Rightarrow> int" where
  "frame_len d = sint (of_nat (net_val (take 4 d)) :: u32)"

partial_function (option) onMessage :: "'b buffer_ops \<Rightarrow> 'b \<Rightarrow> (event list \<times> 'b) option" where
  "onMessage B buf =
     (if readableBytes B buf \<ge> 4 then
        (let len = frame_len (peek B buf) in
         if len > 65536 \<or> len < 0 then Some ([Shutdown], buf)
         else if int (readableBytes B buf) \<ge> len + 4 then
           (let buf = retrieve B 4 buf; message = take (nat len) (peek B buf); buf = retrieve B (nat len) buf in
            Option.bind (onMessage B buf) (\<lambda>(es, buf). Some (Message message # es, buf)))
         else onMessage B buf)
      else Some ([], buf))"

section \<open>Lemmas\<close>

definition frame :: "u8 list \<Rightarrow> u8 list" where
  "frame m = net_bytes 4 (length m) @ m"

lemma frame_len_small:
  assumes "n < 2 ^ 31"
  shows "frame_len (net_bytes 4 n @ d) = int n"
proof -
  have "take 4 (net_bytes 4 n @ d) = net_bytes 4 n"
    by simp
  moreover have "n mod 256 ^ 4 = n"
    using assms by simp
  ultimately have "frame_len (net_bytes 4 n @ d) = sint (of_nat n :: u32)"
    by (simp add: frame_len_def host_val_bytes)
  also have "\<dots> = int n"
    using assms by (simp add: sint_uint signed_take_bit_int_eq_self take_bit_nat_eq_self unsigned_of_nat)
  finally show ?thesis .
qed

text \<open>A complete message in front of the buffer is delivered.\<close>

lemma onMessage_frame:
  assumes "buffer_ok B" and "peek B buf = frame m @ d" and "length m \<le> 65536"
  shows "\<exists>buf'. peek B buf' = d \<and> onMessage B buf = Option.bind (onMessage B buf') (\<lambda>(es, b). Some (Message m # es, b))"
proof -
  let ?b1 = "retrieve B 4 buf"
  let ?b2 = "retrieve B (length m) ?b1"
  have len: "frame_len (peek B buf) = int (length m)" "readableBytes B buf = length m + 4 + length d"
    using assms frame_len_small [of "length m" "m @ d"] by (simp_all add: frame_def buffer_ok_def)
  have b1: "peek B ?b1 = m @ d"
    using assms(1,2) by (simp add: buffer_ok_def frame_def)
  then have "peek B ?b2 = d"
    using assms(1) by (simp add: buffer_ok_def)
  moreover have "onMessage B buf = Option.bind (onMessage B ?b2) (\<lambda>(es, b). Some (Message m # es, b))"
    using len b1 assms(3) by (subst onMessage.simps) (simp add: Let_def)
  ultimately show ?thesis
    by blast
qed

lemma onMessage_short: "buffer_ok B \<Longrightarrow> length (peek B buf) < 4 \<Longrightarrow> onMessage B buf = Some ([], buf)"
  by (subst onMessage.simps) (simp add: buffer_ok_def)

lemma onMessage_bad:
  "buffer_ok B \<Longrightarrow> 4 \<le> length (peek B buf) \<Longrightarrow> frame_len (peek B buf) < 0 \<or> 65536 < frame_len (peek B buf) \<Longrightarrow>
    onMessage B buf = Some ([Shutdown], buf)"
  by (subst onMessage.simps) (auto simp: buffer_ok_def Let_def)

text \<open>A message of which the header has arrived, but not all of the rest.\<close>

definition partial_frame :: "u8 list \<Rightarrow> bool" where
  "partial_frame d \<longleftrightarrow> 4 \<le> length d \<and> 0 \<le> frame_len d \<and> frame_len d \<le> 65536 \<and> int (length d) < frame_len d + 4"

lemma onMessage_partial:
  assumes "buffer_ok B" and "partial_frame (peek B buf)"
  shows "onMessage B buf = None"
proof (rule ccontr)
  assume "onMessage B buf \<noteq> None"
  then obtain r where "onMessage B buf = Some r"
    by blast
  then have "buffer_ok B \<longrightarrow> \<not> partial_frame (peek B buf)"
  proof (rule onMessage.raw_induct [rotated])
    fix f :: "'b buffer_ops \<Rightarrow> 'b \<Rightarrow> (event list \<times> 'b) option" and C c y
    assume IH: "\<And>C c y. f C c = Some y \<Longrightarrow> buffer_ok C \<longrightarrow> \<not> partial_frame (peek C c)"
      and body: "(if 4 \<le> readableBytes C c then
          let len = frame_len (peek C c) in
          if 65536 < len \<or> len < 0 then Some ([Shutdown], c)
          else if len + 4 \<le> int (readableBytes C c) then
            let buf = retrieve C 4 c; message = take (nat len) (peek C buf); buf = retrieve C (nat len) buf in
            Option.bind (f C buf) (\<lambda>(es, buf). Some (Message message # es, buf))
          else f C c
        else Some ([], c)) = Some y"
    show "buffer_ok C \<longrightarrow> \<not> partial_frame (peek C c)"
    proof (intro impI notI)
      assume "buffer_ok C" and p: "partial_frame (peek C c)"
      then have "f C c = Some y"
        using body by (auto simp: partial_frame_def buffer_ok_def Let_def)
      then show False
        using IH \<open>buffer_ok C\<close> p by blast
    qed
  qed
  then show False
    using assms by simp
qed

lemma onMessage_frames:
  "buffer_ok B \<Longrightarrow> list_all (\<lambda>m. length m \<le> 65536) ms \<Longrightarrow> peek B buf = concat (map frame ms) @ d \<Longrightarrow>
    \<exists>buf'. peek B buf' = d \<and> onMessage B buf = Option.bind (onMessage B buf') (\<lambda>(es, b). Some (map Message ms @ es, b))"
proof (induction ms arbitrary: buf)
  case Nil
  then show ?case
    by (intro exI [of _ buf]) (cases "onMessage B buf"; auto)
next
  case (Cons m ms)
  obtain b1 where b1: "peek B b1 = concat (map frame ms) @ d"
      "onMessage B buf = Option.bind (onMessage B b1) (\<lambda>(es, b). Some (Message m # es, b))"
    using onMessage_frame [OF Cons.prems(1), of buf m "concat (map frame ms) @ d"] Cons.prems by auto
  obtain b2 where "peek B b2 = d" "onMessage B b1 = Option.bind (onMessage B b2) (\<lambda>(es, b). Some (map Message ms @ es, b))"
    using Cons.IH [OF Cons.prems(1) _ b1(1)] Cons.prems(2) by auto
  then show ?case
    using b1(2) by (intro exI [of _ b2]) (cases "onMessage B b2"; auto)
qed

lemma send_frame:
  assumes "buffer_ok B" and "length m < 2 ^ 31"
  shows "peek B (send B m) = frame m"
proof -
  have "unat (of_nat (length m) :: u32) = length m"
    using assms(2) by (simp add: unsigned_of_nat take_bit_nat_eq_self)
  then show ?thesis
    using assms(1) by (simp add: send_def frame_def buffer_ok_def)
qed

section \<open>The chat server\<close>

text \<open>
  \<^verbatim>\<open>Chatserver\<close>: a connection is named by its address, and \<^verbatim>\<open>connections_\<close>, a \<^verbatim>\<open>std::set\<close> of them, is a
  sorted list without duplicates. The state is this list and, per connection, its input buffer and the
  bytes sent to it. The callbacks run one at a time; the server really has five threads that share
  \<^verbatim>\<open>connections_\<close> without a lock, and what happens when they overlap is not modelled.
\<close>

record 'b chat =
  connections :: "nat list"
  inbuf :: "nat \<Rightarrow> 'b"
  outbox :: "nat \<Rightarrow> u8 list"

definition Chatserver :: "'b buffer_ops \<Rightarrow> 'b chat" where
  "Chatserver B = \<lparr>connections = [], inbuf = (\<lambda>c. new_buffer B), outbox = (\<lambda>c. [])\<rparr>"

definition onConnection :: "nat \<Rightarrow> bool \<Rightarrow> 'b chat \<Rightarrow> 'b chat" where
  "onConnection c connected s =
     (if connected then s\<lparr>connections := insort_insert c (connections s)\<rparr>
      else s\<lparr>connections := removeAll c (connections s)\<rparr>)"

text \<open>The loop over \<^verbatim>\<open>connections_\<close>: \<^verbatim>\<open>codec_.send\<close> for each.\<close>

fun send_each :: "'b buffer_ops \<Rightarrow> u8 list \<Rightarrow> nat list \<Rightarrow> (nat \<Rightarrow> u8 list) \<Rightarrow> nat \<Rightarrow> u8 list" where
  "send_each B message [] out = out"
| "send_each B message (c # cs) out = send_each B message cs (out(c := out c @ peek B (send B message)))"

definition chat_message :: "'b buffer_ops \<Rightarrow> u8 list \<Rightarrow> 'b chat \<Rightarrow> 'b chat" where
  "chat_message B message s = s\<lparr>outbox := send_each B message (connections s) (outbox s)\<rparr>"

text \<open>The callback of the server: the codec, with \<^verbatim>\<open>Chatserver::onMessage\<close> for each message.\<close>

fun chat_events :: "'b buffer_ops \<Rightarrow> event list \<Rightarrow> 'b chat \<Rightarrow> 'b chat" where
  "chat_events B [] s = s"
| "chat_events B (Message m # es) s = chat_events B es (chat_message B m s)"
| "chat_events B (Shutdown # es) s = chat_events B es s"

text \<open>Bytes that arrive are appended to the buffer of their connection, then the callback runs on it.\<close>

definition chat_receive :: "'b buffer_ops \<Rightarrow> nat \<Rightarrow> u8 list \<Rightarrow> 'b chat \<Rightarrow> 'b chat option" where
  "chat_receive B c d s =
     map_option (\<lambda>(es, buf). (chat_events B es s)\<lparr>inbuf := (inbuf s)(c := buf)\<rparr>) (onMessage B (append_bytes B d (inbuf s c)))"

datatype arrival = Connected nat | Disconnected nat | Received nat "u8 list"

fun chat_run :: "'b buffer_ops \<Rightarrow> arrival list \<Rightarrow> 'b chat \<Rightarrow> 'b chat option" where
  "chat_run B [] s = Some s"
| "chat_run B (Connected c # as) s = chat_run B as (onConnection c True s)"
| "chat_run B (Disconnected c # as) s = chat_run B as (onConnection c False s)"
| "chat_run B (Received c d # as) s = Option.bind (chat_receive B c d s) (chat_run B as)"

section \<open>What the chat server should do\<close>

text \<open>
  What the clients do, and which messages each of them should get: \<open>present\<close> are the clients that are
  connected.
\<close>

datatype act = Joins nat | Leaves nat | Says "u8 list list"

fun gets :: "act list \<Rightarrow> nat set \<Rightarrow> nat \<Rightarrow> u8 list list" where
  "gets [] present c = []"
| "gets (Joins d # acts) present c = gets acts (insert d present) c"
| "gets (Leaves d # acts) present c = gets acts (present - {d}) c"
| "gets (Says ms # acts) present c = (if c \<in> present then ms else []) @ gets acts present c"

text \<open>
  How this arrives: each time complete messages, in any number, and up to three bytes of the next
  header. \<open>pend\<close> are the bytes of each client that wait for more.
\<close>

inductive heard :: "(nat \<Rightarrow> u8 list) \<Rightarrow> arrival list \<Rightarrow> act list \<Rightarrow> (nat \<Rightarrow> u8 list) \<Rightarrow> bool" where
  nothing: "heard pend [] [] pend"
| joins: "heard pend as acts pend' \<Longrightarrow> heard pend (Connected c # as) (Joins c # acts) pend'"
| leaves: "heard pend as acts pend' \<Longrightarrow> heard pend (Disconnected c # as) (Leaves c # acts) pend'"
| says: "pend c @ d = concat (map frame ms) @ rest \<Longrightarrow> list_all (\<lambda>m. length m \<le> 65536) ms \<Longrightarrow> length rest < 4 \<Longrightarrow>
    heard (pend(c := rest)) as acts pend' \<Longrightarrow> heard pend (Received c d # as) (Says ms # acts) pend'"

definition chat_ok :: "'b buffer_ops \<Rightarrow> nat set \<Rightarrow> (nat \<Rightarrow> u8 list) \<Rightarrow> 'b chat \<Rightarrow> bool" where
  "chat_ok B present pend s \<longleftrightarrow> distinct (connections s) \<and> set (connections s) = present \<and> (\<forall>c. peek B (inbuf s c) = pend c)"

lemma onConnection_ok:
  assumes "chat_ok B present pend s"
  shows "chat_ok B (insert c present) pend (onConnection c True s)" and "chat_ok B (present - {c}) pend (onConnection c False s)"
  using assms by (auto simp: chat_ok_def onConnection_def insort_insert_key_def set_insort_key distinct_insort distinct_removeAll)

lemma send_each_eq:
  "distinct cs \<Longrightarrow> send_each B m cs out c = (if c \<in> set cs then out c @ peek B (send B m) else out c)"
  by (induction cs arbitrary: out) auto

lemma chat_events_frames:
  "buffer_ok B \<Longrightarrow> distinct (connections s) \<Longrightarrow> list_all (\<lambda>m. length m \<le> 65536) ms \<Longrightarrow>
    connections (chat_events B (map Message ms) s) = connections s \<and> inbuf (chat_events B (map Message ms) s) = inbuf s
    \<and> (\<forall>c. outbox (chat_events B (map Message ms) s) c = outbox s c @ (if c \<in> set (connections s) then concat (map frame ms) else []))"
proof (induction ms arbitrary: s)
  case (Cons m ms)
  then have "peek B (send B m) = frame m"
    by (intro send_frame) auto
  then show ?case
    using Cons.IH [of "chat_message B m s"] Cons.prems by (simp add: chat_message_def send_each_eq)
qed simp

text \<open>What the codec does behind complete messages with less than a header.\<close>

lemma onMessage_complete:
  assumes "buffer_ok B" and "list_all (\<lambda>m. length m \<le> 65536) ms" and "peek B buf = concat (map frame ms) @ rest"
  shows "length rest < 4 \<Longrightarrow> \<exists>buf'. onMessage B buf = Some (map Message ms, buf') \<and> peek B buf' = rest"
    and "partial_frame rest \<Longrightarrow> onMessage B buf = None"
  using onMessage_frames [OF assms] onMessage_short [OF assms(1)] onMessage_partial [OF assms(1)] by force+

lemma chat_receive_ok:
  assumes "buffer_ok B" and "chat_ok B present pend s" and "pend c @ d = concat (map frame ms) @ rest"
    and "list_all (\<lambda>m. length m \<le> 65536) ms"
  shows "length rest < 4 \<Longrightarrow> \<exists>s'. chat_receive B c d s = Some s' \<and> chat_ok B present (pend(c := rest)) s'
      \<and> (\<forall>e. outbox s' e = outbox s e @ (if e \<in> present then concat (map frame ms) else []))"
    and "partial_frame rest \<Longrightarrow> chat_receive B c d s = None"
proof -
  have buf: "peek B (append_bytes B d (inbuf s c)) = concat (map frame ms) @ rest"
    using assms(1-3) by (simp add: buffer_ok_def chat_ok_def)
  note whole = onMessage_complete [OF assms(1,4) buf]
  have s: "distinct (connections s)" "set (connections s) = present"
    using assms(2) by (simp_all add: chat_ok_def)
  show "\<exists>s'. chat_receive B c d s = Some s' \<and> chat_ok B present (pend(c := rest)) s'
      \<and> (\<forall>e. outbox s' e = outbox s e @ (if e \<in> present then concat (map frame ms) else []))" if rest: "length rest < 4"
  proof -
    obtain buf' where "onMessage B (append_bytes B d (inbuf s c)) = Some (map Message ms, buf')" "peek B buf' = rest"
      using whole(1) [OF rest] by blast
    then show ?thesis
      using chat_events_frames [OF assms(1) s(1) assms(4)] s assms(2) by (simp add: chat_receive_def chat_ok_def)
  qed
  show "chat_receive B c d s = None" if "partial_frame rest"
    using whole(2) [OF that] by (simp add: chat_receive_def)
qed

lemma chat_run_ok:
  "heard pend as acts pend' \<Longrightarrow> buffer_ok B \<Longrightarrow> chat_ok B present pend s \<Longrightarrow>
    \<exists>s' present'. chat_run B as s = Some s' \<and> chat_ok B present' pend' s'
      \<and> (\<forall>c. outbox s' c = outbox s c @ concat (map frame (gets acts present c)))"
proof (induction arbitrary: present s rule: heard.induct)
  case (nothing pend)
  then show ?case
    by auto
next
  case (joins pend as acts pend' c)
  then show ?case
    using joins.IH [OF _ onConnection_ok(1) [OF joins.prems(2), of c]] by (simp add: onConnection_def)
next
  case (leaves pend as acts pend' c)
  then show ?case
    using leaves.IH [OF _ onConnection_ok(2) [OF leaves.prems(2), of c]] by (simp add: onConnection_def)
next
  case (says pend c d ms rest as acts pend')
  obtain s1 where s1: "chat_receive B c d s = Some s1" "chat_ok B present (pend(c := rest)) s1"
      "\<forall>e. outbox s1 e = outbox s e @ (if e \<in> present then concat (map frame ms) else [])"
    using chat_receive_ok(1) [OF says.prems says.hyps(1-3)] by blast
  then show ?case
    using says.IH [OF says.prems(1) s1(2)] by auto
qed

lemma heard_small: "heard pend as acts pend' \<Longrightarrow> list_all (\<lambda>m. length m \<le> 65536) (gets acts present c)"
  by (induction arbitrary: present rule: heard.induct) simp_all

lemma chat_run_append: "chat_run B (as @ bs) s = Option.bind (chat_run B as s) (chat_run B bs)"
  by (induction B as s rule: chat_run.induct) (auto simp: Option.bind_assoc split: Option.bind_splits)

section \<open>Properties\<close>

text \<open>
  (C22) What the codec does with any bytes, behind complete messages of up to 65536 bytes, which it
  delivers in order: it returns and keeps fewer than four bytes for the next call; it shuts the
  connection down for a length that is negative or too large; but when a header has arrived and its
  message has not completely, the loop neither consumes anything nor ends, so \<^verbatim>\<open>onMessage\<close> never returns.
\<close>

theorem codec_delivers:
  assumes "buffer_ok B" and "list_all (\<lambda>m. length m \<le> 65536) ms" and "peek B buf = concat (map frame ms) @ d"
  shows "(length d < 4 \<longrightarrow> (\<exists>buf'. onMessage B buf = Some (map Message ms, buf') \<and> peek B buf' = d))
    \<and> (4 \<le> length d \<and> (frame_len d < 0 \<or> 65536 < frame_len d) \<longrightarrow>
         (\<exists>buf'. onMessage B buf = Some (map Message ms @ [Shutdown], buf') \<and> peek B buf' = d))
    \<and> (partial_frame d \<longrightarrow> onMessage B buf = None)"
proof -
  obtain buf' where b: "peek B buf' = d" "onMessage B buf = Option.bind (onMessage B buf') (\<lambda>(es, b). Some (map Message ms @ es, b))"
    using onMessage_frames [OF assms] by blast
  then show ?thesis
    using onMessage_short [OF assms(1), of buf'] onMessage_bad [OF assms(1), of buf'] onMessage_partial [OF assms(1), of buf']
    by auto
qed

definition list_buffer :: "u8 list buffer_ops" where
  "list_buffer = \<lparr>readableBytes = length, peek = (\<lambda>b. b), retrieve = drop, append_bytes = (\<lambda>d b. b @ d),
     prepend_bytes = (@), new_buffer = []\<rparr>"

lemma list_buffer_ok: "buffer_ok list_buffer"
  by (simp add: buffer_ok_def list_buffer_def)

lemma a_frame: "frame [104, 105] = [0, 0, 0, 2, 104, 105]"
  by code_simp

theorem codec_delivers_witness:
  "onMessage list_buffer ([0, 0, 0, 2, 104, 105] @ [0, 0]) = Some ([Message [104, 105]], [0, 0])
    \<and> onMessage list_buffer ([0, 0, 0, 2, 104, 105] @ [0, 0, 0, 2, 104]) = None"
proof -
  have "partial_frame [0, 0, 0, 2, 104]"
    by (simp add: partial_frame_def frame_len_def host_val_def)
  moreover have p: "peek list_buffer b = b" for b
    by (simp add: list_buffer_def)
  ultimately show ?thesis
    using codec_delivers [OF list_buffer_ok, of "[[104, 105]]" "[0, 0, 0, 2, 104, 105] @ [0, 0]" "[0, 0]"]
      codec_delivers [OF list_buffer_ok, of "[[104, 105]]" "[0, 0, 0, 2, 104, 105] @ [0, 0, 0, 2, 104]" "[0, 0, 0, 2, 104]"]
    unfolding p by (simp add: a_frame)
qed



end
