(* ===== verification/Muduo_Loop.thy ===== *)
theory Muduo_Loop
  imports Prelude "HOL-Library.Product_Lexorder" "HOL-Library.Monad_Syntax"
begin

text \<open>
  The event loop of \<^verbatim>\<open>mymuduo\<close>: \<^verbatim>\<open>Channel\<close>, \<^verbatim>\<open>Poller\<close>, \<^verbatim>\<open>EventLoop\<close> and \<^verbatim>\<open>TimerQueue::getExpired\<close>. Channels
  are objects of the client, named by their address; \<open>chan\<close> is the store they live in. A failed
  \<^verbatim>\<open>assert\<close> and undefined behaviour are \<^term>\<open>None\<close>. The thread a function runs in is its argument.
\<close>

unbundle bit_operations_syntax

section \<open>Channels\<close>

definition POLLIN :: u16 where "POLLIN = 1"
definition POLLPRI :: u16 where "POLLPRI = 2"
definition POLLOUT :: u16 where "POLLOUT = 4"
definition POLLERR :: u16 where "POLLERR = 8"
definition POLLHUP :: u16 where "POLLHUP = 0x10"
definition POLLNVAL :: u16 where "POLLNVAL = 0x20"
definition POLLRDHUP :: u16 where "POLLRDHUP = 0x2000"

definition kNoneEvent :: u16 where "kNoneEvent = 0"
definition kReadEvent :: u16 where "kReadEvent = POLLIN OR POLLPRI"
definition kWriteEvent :: u16 where "kWriteEvent = POLLOUT"

lemmas poll_bits = POLLIN_def POLLPRI_def POLLOUT_def POLLERR_def POLLHUP_def POLLNVAL_def POLLRDHUP_def
  kNoneEvent_def kReadEvent_def kWriteEvent_def

datatype event_callback = ReadCallback | WriteCallback | ErrorCallback

text \<open>Of the three callbacks of a channel, which are set.\<close>

record channel =
  ch_fd :: int
  ch_events :: u16
  ch_revents :: u16
  ch_index :: int
  ch_callbacks :: "event_callback set"

definition Channel :: "int \<Rightarrow> channel" where
  "Channel fd = \<lparr>ch_fd = fd, ch_events = 0, ch_revents = 0, ch_index = -1, ch_callbacks = {}\<rparr>"

definition isNoneEvent :: "channel \<Rightarrow> bool" where
  "isNoneEvent c \<longleftrightarrow> ch_events c = kNoneEvent"

text \<open>The callbacks \<^verbatim>\<open>handleEvent\<close> runs, in order.\<close>

definition handleEvent :: "channel \<Rightarrow> event_callback list" where
  "handleEvent c =
     (let run = (\<lambda>m cb. if ch_revents c AND m \<noteq> 0 \<and> cb \<in> ch_callbacks c then [cb] else []) in
      run (POLLERR OR POLLNVAL) ErrorCallback @ run (POLLIN OR POLLPRI OR POLLRDHUP) ReadCallback @ run POLLOUT WriteCallback)"

section \<open>The poller\<close>

record pollfd =
  p_fd :: int
  p_events :: u16
  p_revents :: u16

record loop =
  threadId :: nat
  chan :: "nat \<Rightarrow> channel"
  pollfds :: "pollfd list"
  Channels :: "int \<Rightarrow> nat option"
  looping :: bool
  quit_flag :: bool
  pendingFunctors :: "nat list"

text \<open>\<^verbatim>\<open>assertInLoopThread\<close> aborts in another thread.\<close>

definition updateChannel :: "nat \<Rightarrow> nat \<Rightarrow> loop \<Rightarrow> loop option" where
  "updateChannel tid c s =
     (let ch = chan s c in
      if tid \<noteq> threadId s then None
      else if ch_index ch < 0 then
        Some (s\<lparr>pollfds := pollfds s @ [\<lparr>p_fd = ch_fd ch, p_events = ch_events ch, p_revents = 0\<rparr>],
                chan := (chan s)(c := ch\<lparr>ch_index := int (length (pollfds s))\<rparr>),
                Channels := (Channels s)(ch_fd ch \<mapsto> c)\<rparr>)
      else
        (let idx = nat (ch_index ch) in
         if Channels s (ch_fd ch) \<noteq> Some c \<or> \<not> idx < length (pollfds s)
            \<or> p_fd (pollfds s ! idx) \<noteq> ch_fd ch \<and> p_fd (pollfds s ! idx) \<noteq> -1
         then None
         else
           (let pfd = (pollfds s ! idx)\<lparr>p_revents := 0\<rparr>;
                pfd = (if isNoneEvent ch then pfd\<lparr>p_fd := -1\<rparr> else pfd) in
            Some (s\<lparr>pollfds := (pollfds s)[idx := pfd]\<rparr>))))"

text \<open>\<^verbatim>\<open>enableReading\<close> and \<^verbatim>\<open>enableWriting\<close> add to the events of the channel and update the poller.\<close>

definition enable :: "u16 \<Rightarrow> nat \<Rightarrow> nat \<Rightarrow> loop \<Rightarrow> loop option" where
  "enable evs tid c s =
     updateChannel tid c (s\<lparr>chan := (chan s)(c := (chan s c)\<lparr>ch_events := ch_events (chan s c) OR evs\<rparr>)\<rparr>)"

definition enableReading :: "nat \<Rightarrow> nat \<Rightarrow> loop \<Rightarrow> loop option" where
  "enableReading = enable kReadEvent"

definition enableWriting :: "nat \<Rightarrow> nat \<Rightarrow> loop \<Rightarrow> loop option" where
  "enableWriting = enable kWriteEvent"

text \<open>
  \<^verbatim>\<open>::poll\<close>: \<open>occurs fd\<close> are the conditions of a descriptor. Only those asked for are reported, and the
  errors and a hang-up always; an element with a negative descriptor gets 0.
\<close>

definition sys_poll :: "(int \<Rightarrow> u16) \<Rightarrow> pollfd list \<Rightarrow> pollfd list" where
  "sys_poll occurs ps =
     map (\<lambda>p. p\<lparr>p_revents := if p_fd p < 0 then 0 else occurs (p_fd p) AND (p_events p OR POLLERR OR POLLHUP OR POLLNVAL)\<rparr>) ps"

fun fillActiveChannels ::
  "(int \<Rightarrow> nat option) \<Rightarrow> nat \<Rightarrow> pollfd list \<Rightarrow> (nat \<Rightarrow> channel) \<Rightarrow> (nat list \<times> (nat \<Rightarrow> channel)) option" where
  "fillActiveChannels m n [] chs = Some ([], chs)"
| "fillActiveChannels m n (p # ps) chs =
     (if n = 0 then Some ([], chs)
      else if 0 < sint (p_revents p) then
        (case m (p_fd p) of
           None \<Rightarrow> None
         | Some c \<Rightarrow>
             if ch_fd (chs c) \<noteq> p_fd p then None
             else do {
               (active, chs) \<leftarrow> fillActiveChannels m (n - 1) ps (chs(c := (chs c)\<lparr>ch_revents := p_revents p\<rparr>));
               Some (c # active, chs)
             })
      else fillActiveChannels m n ps chs)"

text \<open>\<^verbatim>\<open>Poller::poll\<close> takes the address of the first element, also of an empty vector. The first argument is
  \<^term>\<open>None\<close> when the system call fails; the failure is only logged.\<close>

definition poller_poll :: "(int \<Rightarrow> u16) option \<Rightarrow> loop \<Rightarrow> (nat list \<times> loop) option" where
  "poller_poll answer s =
     (if pollfds s = [] then None
      else case answer of
        None \<Rightarrow> Some ([], s)
      | Some occurs \<Rightarrow>
          (let ps = sys_poll occurs (pollfds s); n = length (filter (\<lambda>p. p_revents p \<noteq> 0) ps) in
           do {
             (active, chs) \<leftarrow> fillActiveChannels (Channels s) n ps (chan s);
             Some (active, s\<lparr>pollfds := ps, chan := chs\<rparr>)
           }))"

section \<open>The loop\<close>

text \<open>One pass of \<^verbatim>\<open>EventLoop::loop\<close>: the callbacks that run, per channel.\<close>

definition loop_pass :: "(int \<Rightarrow> u16) option \<Rightarrow> loop \<Rightarrow> ((nat \<times> event_callback list) list \<times> loop) option" where
  "loop_pass answer s =
     do {
       (active, s) \<leftarrow> poller_poll answer s;
       Some (map (\<lambda>c. (c, handleEvent (chan s c))) active, s)
     }"

definition EventLoop :: "nat \<Rightarrow> loop" where
  "EventLoop tid = \<lparr>threadId = tid, chan = (\<lambda>c. Channel (-1)), pollfds = [], Channels = (\<lambda>fd. None), looping = False,
     quit_flag = False, pendingFunctors = []\<rparr>"

definition quit :: "loop \<Rightarrow> loop" where
  "quit s = s\<lparr>quit_flag := True\<rparr>"

text \<open>
  \<^verbatim>\<open>loop()\<close> over the answers of the successive polls, with each whether a callback calls \<^verbatim>\<open>quit\<close>.
  When there are no more answers the loop is still running.
\<close>

fun loop_while :: "((int \<Rightarrow> u16) option \<times> bool) list \<Rightarrow> loop \<Rightarrow> ((nat \<times> event_callback list) list list \<times> loop) option" where
  "loop_while [] s = Some ([], s)"
| "loop_while ((answer, q) # polls) s =
     (if quit_flag s then Some ([], s)
      else do {
        (r, s) \<leftarrow> loop_pass answer s;
        (rs, s) \<leftarrow> loop_while polls (if q then quit s else s);
        Some (r # rs, s)
      })"

definition loop_run :: "nat \<Rightarrow> ((int \<Rightarrow> u16) option \<times> bool) list \<Rightarrow> loop \<Rightarrow> ((nat \<times> event_callback list) list list \<times> loop) option" where
  "loop_run tid polls s =
     (if looping s \<or> tid \<noteq> threadId s then None
      else do {
        (rs, s) \<leftarrow> loop_while polls (s\<lparr>looping := True, quit_flag := False\<rparr>);
        Some (rs, if quit_flag s then s\<lparr>looping := False\<rparr> else s)
      })"

text \<open>\<^verbatim>\<open>runInLoop\<close>: in the thread of the loop the functor runs at once, otherwise it is queued.\<close>

definition queueInLoop :: "nat \<Rightarrow> loop \<Rightarrow> loop" where
  "queueInLoop cb s = s\<lparr>pendingFunctors := pendingFunctors s @ [cb]\<rparr>"

definition runInLoop :: "nat \<Rightarrow> nat \<Rightarrow> loop \<Rightarrow> nat list \<times> loop" where
  "runInLoop tid cb s = (if tid = threadId s then ([cb], s) else ([], queueInLoop cb s))"

section \<open>Timers\<close>

text \<open>\<^verbatim>\<open>timers_\<close> is a \<^verbatim>\<open>std::set\<close> of pairs, so a sorted list without duplicates.\<close>

definition getExpired :: "nat \<Rightarrow> int \<Rightarrow> (int \<times> nat) list \<Rightarrow> (int \<times> nat) list option" where
  "getExpired uintptr_max now timers =
     (let rest = dropWhile (\<lambda>e. e < (now, uintptr_max)) timers in
      if rest = [] \<or> now < fst (hd rest) then Some (takeWhile (\<lambda>e. e < (now, uintptr_max)) timers) else None)"

section \<open>The invariant\<close>

text \<open>
  A registered channel and its element of the poller agree, and the element asks for what the channel
  was first enabled for.
\<close>

definition linked :: "loop \<Rightarrow> nat \<Rightarrow> bool" where
  "linked s c \<longleftrightarrow> (let ch = chan s c; i = nat (ch_index ch) in
     i < length (pollfds s) \<and> p_fd (pollfds s ! i) = ch_fd ch \<and> 0 \<le> ch_fd ch \<and> Channels s (ch_fd ch) = Some c)"

definition loop_ok :: "loop \<Rightarrow> bool" where
  "loop_ok s \<longleftrightarrow> (\<forall>c. 0 \<le> ch_index (chan s c) \<longrightarrow> linked s c)
     \<and> (\<forall>fd c. Channels s fd = Some c \<longrightarrow> ch_fd (chan s c) = fd \<and> 0 \<le> ch_index (chan s c))
     \<and> (\<forall>i<length (pollfds s). \<exists>c. ch_index (chan s c) = int i)
     \<and> (\<forall>p\<in>set (pollfds s). p_events p = kReadEvent \<or> p_events p = kWriteEvent)
     \<and> (\<forall>c. ch_index (chan s c) < 0 \<longrightarrow> ch_events (chan s c) = 0)"

text \<open>What a client may do: enable a channel whose descriptor no other channel has.\<close>

definition may_enable :: "loop \<Rightarrow> nat \<Rightarrow> bool" where
  "may_enable s c \<longleftrightarrow> 0 \<le> ch_fd (chan s c) \<and> (ch_index (chan s c) < 0 \<longrightarrow> Channels s (ch_fd (chan s c)) = None)"

lemma loop_okI:
  assumes "\<And>c. 0 \<le> ch_index (chan s c) \<Longrightarrow> linked s c"
    and "\<And>fd c. Channels s fd = Some c \<Longrightarrow> ch_fd (chan s c) = fd \<and> 0 \<le> ch_index (chan s c)"
    and "\<And>i. i < length (pollfds s) \<Longrightarrow> \<exists>c. ch_index (chan s c) = int i"
    and "\<And>p. p \<in> set (pollfds s) \<Longrightarrow> p_events p = kReadEvent \<or> p_events p = kWriteEvent"
    and "\<And>c. ch_index (chan s c) < 0 \<Longrightarrow> ch_events (chan s c) = 0"
  shows "loop_ok s"
  unfolding loop_ok_def using assms by blast

lemma loop_okD:
  assumes "loop_ok s"
  shows "0 \<le> ch_index (chan s c) \<Longrightarrow> linked s c"
    and "Channels s fd = Some c \<Longrightarrow> ch_fd (chan s c) = fd \<and> 0 \<le> ch_index (chan s c)"
    and "i < length (pollfds s) \<Longrightarrow> \<exists>c. ch_index (chan s c) = int i"
    and "p \<in> set (pollfds s) \<Longrightarrow> p_events p = kReadEvent \<or> p_events p = kWriteEvent"
    and "ch_index (chan s c) < 0 \<Longrightarrow> ch_events (chan s c) = 0"
  using assms unfolding loop_ok_def by blast+

lemma event_nonzero: "x OR kReadEvent \<noteq> 0" "x OR kWriteEvent \<noteq> 0"
  by (simp_all add: poll_bits or_eq_0_iff)

text \<open>Changes of channels and elements that keep what links them.\<close>

lemma relink:
  assumes "loop_ok s" and "\<And>d. ch_fd (chs d) = ch_fd (chan s d) \<and> ch_index (chs d) = ch_index (chan s d)"
    and "\<And>d. ch_index (chan s d) < 0 \<Longrightarrow> ch_events (chs d) = ch_events (chan s d)"
    and "map p_fd ps = map p_fd (pollfds s)" and "map p_events ps = map p_events (pollfds s)"
  shows "loop_ok (s\<lparr>chan := chs, pollfds := ps\<rparr>)"
proof -
  have len: "length ps = length (pollfds s)"
    using assms(4) map_eq_imp_length_eq by blast
  have fd: "p_fd (ps ! i) = p_fd (pollfds s ! i)" if "i < length ps" for i
    using assms(4) len that by (metis nth_map)
  let ?s = "s\<lparr>chan := chs, pollfds := ps\<rparr>"
  have same: "ch_index (chan ?s d) = ch_index (chan s d)" "ch_fd (chan ?s d) = ch_fd (chan s d)" for d
    using assms(2) by simp_all
  show ?thesis
  proof (rule loop_okI)
    show "linked ?s d" if "0 \<le> ch_index (chan ?s d)" for d
      using loop_okD(1) [OF assms(1), of d] that fd len same unfolding linked_def Let_def by simp
    show "ch_fd (chan ?s d) = f \<and> 0 \<le> ch_index (chan ?s d)" if "Channels ?s f = Some d" for f d
      using loop_okD(2) [OF assms(1), of f d] that same by simp
    show "\<exists>d. ch_index (chan ?s d) = int i" if "i < length (pollfds ?s)" for i
      using loop_okD(3) [OF assms(1), of i] that len same by simp
    show "p_events p = kReadEvent \<or> p_events p = kWriteEvent" if "p \<in> set (pollfds ?s)" for p
    proof -
      have "p_events p \<in> set (map p_events (pollfds s))"
        using that assms(5) [symmetric] by simp
      then obtain q where "q \<in> set (pollfds s)" "p_events p = p_events q"
        by auto
      then show ?thesis
        using loop_okD(4) [OF assms(1), of q] by simp
    qed
    show "ch_events (chan ?s d) = 0" if "ch_index (chan ?s d) < 0" for d
      using loop_okD(5) [OF assms(1), of d] that assms(3) [of d] same by simp
  qed
qed

text \<open>A new channel.\<close>

lemma newly_linked:
  assumes "loop_ok s" and "ch_index (chan s c) < 0" and "may_enable s c" and "evs = kReadEvent \<or> evs = kWriteEvent"
  shows "loop_ok (s\<lparr>pollfds := pollfds s @ [\<lparr>p_fd = ch_fd (chan s c), p_events = evs, p_revents = 0\<rparr>],
      chan := (chan s)(c := (chan s c)\<lparr>ch_events := evs, ch_index := int (length (pollfds s))\<rparr>),
      Channels := (Channels s)(ch_fd (chan s c) \<mapsto> c)\<rparr>)" (is "loop_ok ?s")
proof -
  have new: "0 \<le> ch_fd (chan s c)" "Channels s (ch_fd (chan s c)) = None"
    using assms(2,3) by (simp_all add: may_enable_def)
  show ?thesis
  proof (rule loop_okI)
    fix d
    assume d: "0 \<le> ch_index (chan ?s d)"
    show "linked ?s d"
    proof (cases "d = c")
      case True
      then show ?thesis
        using new(1) by (simp add: linked_def Let_def)
    next
      case False
      then have "linked s d"
        using loop_okD(1) [OF assms(1)] d by simp
      moreover from this have "ch_fd (chan s d) \<noteq> ch_fd (chan s c)"
        using new(2) by (auto simp: linked_def Let_def)
      ultimately show ?thesis
        using False by (simp add: linked_def Let_def nth_append)
    qed
  next
    fix fd d
    assume "Channels ?s fd = Some d"
    then show "ch_fd (chan ?s d) = fd \<and> 0 \<le> ch_index (chan ?s d)"
      using loop_okD(2) [OF assms(1), of fd d] assms(2) by (cases "d = c") (auto split: if_splits)
  next
    fix i
    assume i: "i < length (pollfds ?s)"
    show "\<exists>d. ch_index (chan ?s d) = int i"
    proof (cases "i = length (pollfds s)")
      case True
      then show ?thesis
        by (intro exI [of _ c]) simp
    next
      case False
      then obtain d where "ch_index (chan s d) = int i"
        using loop_okD(3) [OF assms(1), of i] i by auto
      then show ?thesis
        using assms(2) by (intro exI [of _ d]) auto
    qed
  next
    fix p
    assume "p \<in> set (pollfds ?s)"
    then show "p_events p = kReadEvent \<or> p_events p = kWriteEvent"
      using loop_okD(4) [OF assms(1)] assms(4) by auto
  next
    fix d
    assume "ch_index (chan ?s d) < 0"
    then show "ch_events (chan ?s d) = 0"
      using loop_okD(5) [OF assms(1), of d] by (cases "d = c") simp_all
  qed
qed

lemma enable_ok:
  assumes "loop_ok s" and "may_enable s c" and "evs = kReadEvent \<or> evs = kWriteEvent"
  shows "\<exists>s'. enable evs (threadId s) c s = Some s' \<and> loop_ok s' \<and> threadId s' = threadId s
    \<and> (\<forall>d. ch_fd (chan s' d) = ch_fd (chan s d) \<and> ch_callbacks (chan s' d) = ch_callbacks (chan s d))
    \<and> 0 \<le> ch_index (chan s' c) \<and> (\<forall>d. 0 \<le> ch_index (chan s d) \<longrightarrow> ch_index (chan s' d) = ch_index (chan s d))
    \<and> (\<exists>es. map p_events (pollfds s') = map p_events (pollfds s) @ es)
    \<and> (ch_index (chan s c) < 0 \<longrightarrow> p_events (pollfds s' ! nat (ch_index (chan s' c))) = evs)"
proof (cases "ch_index (chan s c) < 0")
  case True
  then have "ch_events (chan s c) = 0"
    using assms(1) by (simp add: loop_ok_def)
  then have "enable evs (threadId s) c s = Some (s\<lparr>pollfds := pollfds s @ [\<lparr>p_fd = ch_fd (chan s c), p_events = evs, p_revents = 0\<rparr>],
      chan := (chan s)(c := (chan s c)\<lparr>ch_events := evs, ch_index := int (length (pollfds s))\<rparr>),
      Channels := (Channels s)(ch_fd (chan s c) \<mapsto> c)\<rparr>)"
    using True by (simp add: enable_def updateChannel_def Let_def)
  then show ?thesis
    using newly_linked [OF assms(1) True assms(2,3)] True by simp
next
  case False
  let ?ch = "(chan s c)\<lparr>ch_events := ch_events (chan s c) OR evs\<rparr>" and ?i = "nat (ch_index (chan s c))"
  let ?ps = "(pollfds s)[?i := (pollfds s ! ?i)\<lparr>p_revents := 0\<rparr>]"
  have l: "?i < length (pollfds s)" "p_fd (pollfds s ! ?i) = ch_fd (chan s c)" "Channels s (ch_fd (chan s c)) = Some c"
    using loop_okD(1) [OF assms(1), of c] False by (simp_all add: linked_def Let_def)
  have "\<not> isNoneEvent ?ch"
    using event_nonzero assms(3) by (auto simp: isNoneEvent_def kNoneEvent_def)
  then have "enable evs (threadId s) c s = Some (s\<lparr>chan := (chan s)(c := ?ch), pollfds := ?ps\<rparr>)"
    using False l by (simp add: enable_def updateChannel_def Let_def)
  moreover have ps: "map p_fd ?ps = map p_fd (pollfds s)" "map p_events ?ps = map p_events (pollfds s)"
    using l(1) by (simp_all add: map_update list_update_same_conv)
  moreover have "loop_ok (s\<lparr>chan := (chan s)(c := ?ch), pollfds := ?ps\<rparr>)"
    using False by (intro relink [OF assms(1) _ _ ps]) auto
  ultimately show ?thesis
    using False by simp
qed

section \<open>A pass of the loop\<close>

text \<open>What is reported for an element fits into the positive values of a \<^verbatim>\<open>short\<close>.\<close>

lemma reported_positive:
  assumes "m = kReadEvent \<or> m = kWriteEvent"
  shows "0 < sint (x AND (m OR POLLERR OR POLLHUP OR POLLNVAL)) \<longleftrightarrow> x AND (m OR POLLERR OR POLLHUP OR POLLNVAL) \<noteq> (0 :: u16)"
proof -
  let ?y = "x AND (m OR POLLERR OR POLLHUP OR POLLNVAL)"
  have m: "uint (m OR POLLERR OR POLLHUP OR POLLNVAL) \<le> 63"
    using assms by (auto simp: poll_bits)
  have "uint ?y \<le> uint (m OR POLLERR OR POLLHUP OR POLLNVAL)"
    unfolding uint_and by (rule AND_upper2') simp_all
  then have y: "uint ?y < 2 ^ 15"
    using m by simp
  then have "sint ?y = uint ?y"
    unfolding sint_uint by (intro signed_take_bit_int_eq_self) (simp_all add: order_trans [OF _ uint_ge_0])
  then show ?thesis
    using uint_ge_0 [of ?y] by (simp add: word_uint_eq_iff less_le)
qed

abbreviation busy :: "pollfd \<Rightarrow> bool" where
  "busy p \<equiv> p_revents p \<noteq> 0"

definition same_channel :: "channel \<Rightarrow> channel \<Rightarrow> bool" where
  "same_channel a b \<longleftrightarrow> ch_fd a = ch_fd b \<and> ch_events a = ch_events b \<and> ch_index a = ch_index b \<and> ch_callbacks a = ch_callbacks b"

lemma fill_eq:
  "distinct (map p_fd ps) \<Longrightarrow> \<forall>p\<in>set ps. (0 < sint (p_revents p) \<longleftrightarrow> busy p) \<and> (busy p \<longrightarrow> (\<exists>c. m (p_fd p) = Some c \<and> ch_fd (chs c) = p_fd p)) \<Longrightarrow>
    n = length (filter busy ps) \<Longrightarrow>
    \<exists>chs'. fillActiveChannels m n ps chs = Some (map (\<lambda>p. the (m (p_fd p))) (filter busy ps), chs')
      \<and> (\<forall>c. same_channel (chs' c) (chs c))
      \<and> (\<forall>c. (\<forall>p\<in>set ps. busy p \<longrightarrow> m (p_fd p) \<noteq> Some c) \<longrightarrow> chs' c = chs c)
      \<and> (\<forall>p\<in>set ps. busy p \<longrightarrow> ch_revents (chs' (the (m (p_fd p)))) = p_revents p)"
proof (induction ps arbitrary: n chs)
  case Nil
  then show ?case
    by (simp add: same_channel_def)
next
  case (Cons p ps)
  show ?case
  proof (cases "busy p")
    case False
    then show ?thesis
      using Cons.IH [of chs n] Cons.prems by (cases "n = 0") (auto simp: same_channel_def filter_empty_conv)
  next
    case True
    obtain c where c: "m (p_fd p) = Some c" "ch_fd (chs c) = p_fd p"
      using Cons.prems(2) True by auto
    let ?chs = "chs(c := (chs c)\<lparr>ch_revents := p_revents p\<rparr>)"
    have other: "m (p_fd q) \<noteq> Some c" if q: "q \<in> set ps" "busy q" for q
    proof
      assume "m (p_fd q) = Some c"
      then have "p_fd q = p_fd p"
        using Cons.prems(2) q c(2) by fastforce
      then show False
        using Cons.prems(1) q(1) by (auto simp: rev_image_eqI)
    qed
    have n: "n \<noteq> 0" "n - 1 = length (filter busy ps)"
      using Cons.prems(3) True by simp_all
    have ready: "\<forall>q\<in>set ps. (0 < sint (p_revents q) \<longleftrightarrow> busy q) \<and> (busy q \<longrightarrow> (\<exists>d. m (p_fd q) = Some d \<and> ch_fd (?chs d) = p_fd q))"
      using Cons.prems(2) by auto
    have distinct: "distinct (map p_fd ps)"
      using Cons.prems(1) by simp
    obtain chs' where chs': "fillActiveChannels m (n - 1) ps ?chs = Some (map (\<lambda>p. the (m (p_fd p))) (filter busy ps), chs')"
        "\<forall>d. same_channel (chs' d) (?chs d)" "\<forall>d. (\<forall>q\<in>set ps. busy q \<longrightarrow> m (p_fd q) \<noteq> Some d) \<longrightarrow> chs' d = ?chs d"
        "\<forall>q\<in>set ps. busy q \<longrightarrow> ch_revents (chs' (the (m (p_fd q)))) = p_revents q"
      using Cons.IH [OF distinct ready n(2)] by blast
    have "fillActiveChannels m n (p # ps) chs = Some (map (\<lambda>p. the (m (p_fd p))) (filter busy (p # ps)), chs')"
      using True n(1) c Cons.prems(2) chs'(1) by simp
    moreover have "\<forall>d. same_channel (chs' d) (chs d)"
      using chs'(2) by (simp add: same_channel_def)
    moreover have "chs' c = ?chs c"
      using chs'(3) other by blast
    then have "ch_revents (chs' (the (m (p_fd p)))) = p_revents p"
      by (simp add: c(1))
    moreover have "chs' d = chs d" if "\<forall>q\<in>set (p # ps). busy q \<longrightarrow> m (p_fd q) \<noteq> Some d" for d
      using chs'(3) that c(1) True by auto
    ultimately show ?thesis
      using chs'(4) by auto
  qed
qed

lemma distinct_fds:
  assumes "loop_ok s"
  shows "distinct (map p_fd (pollfds s))"
proof (rule distinct_conv_nth [THEN iffD2], intro allI impI)
  fix i j
  assume i: "i < length (map p_fd (pollfds s))" "j < length (map p_fd (pollfds s))" "i \<noteq> j"
  obtain c d where c: "ch_index (chan s c) = int i" "ch_index (chan s d) = int j"
    using loop_okD(3) [OF assms, of i] loop_okD(3) [OF assms, of j] i by auto
  have "linked s c" "linked s d"
    using loop_okD(1) [OF assms, of c] loop_okD(1) [OF assms, of d] c by simp_all
  then have fd: "p_fd (pollfds s ! i) = ch_fd (chan s c)" "Channels s (ch_fd (chan s c)) = Some c"
      "p_fd (pollfds s ! j) = ch_fd (chan s d)" "Channels s (ch_fd (chan s d)) = Some d"
    unfolding linked_def Let_def c nat_int by blast+
  show "map p_fd (pollfds s) ! i \<noteq> map p_fd (pollfds s) ! j"
  proof
    assume "map p_fd (pollfds s) ! i = map p_fd (pollfds s) ! j"
    then have "ch_fd (chan s c) = ch_fd (chan s d)"
      using fd(1,3) i(1,2) by simp
    then have "c = d"
      using fd(2,4) by (metis option.inject)
    then show False
      using c i(3) by simp
  qed
qed

lemma element_channel:
  assumes "loop_ok s" and "p \<in> set (pollfds s)"
  shows "\<exists>c. Channels s (p_fd p) = Some c \<and> ch_fd (chan s c) = p_fd p \<and> 0 \<le> p_fd p \<and> pollfds s ! nat (ch_index (chan s c)) = p
    \<and> nat (ch_index (chan s c)) < length (pollfds s)"
proof -
  obtain i where i: "i < length (pollfds s)" "pollfds s ! i = p"
    using assms(2) by (auto simp: in_set_conv_nth)
  obtain c where "ch_index (chan s c) = int i"
    using loop_okD(3) [OF assms(1) i(1)] by blast
  then show ?thesis
    using loop_okD(1) [OF assms(1), of c] i by (auto simp: linked_def Let_def)
qed

text \<open>What the kernel reports for a registered channel.\<close>

definition reported :: "(int \<Rightarrow> u16) \<Rightarrow> loop \<Rightarrow> nat \<Rightarrow> u16" where
  "reported occurs s c =
     occurs (ch_fd (chan s c)) AND (p_events (pollfds s ! nat (ch_index (chan s c))) OR POLLERR OR POLLHUP OR POLLNVAL)"

lemma sys_poll_element:
  assumes "loop_ok s" and "p \<in> set (sys_poll occurs (pollfds s))"
  shows "\<exists>c. Channels s (p_fd p) = Some c \<and> ch_fd (chan s c) = p_fd p \<and> p_revents p = reported occurs s c
    \<and> (0 < sint (p_revents p) \<longleftrightarrow> busy p) \<and> 0 \<le> ch_index (chan s c)"
proof -
  obtain q where q: "q \<in> set (pollfds s)"
      "p = q\<lparr>p_revents := if p_fd q < 0 then 0 else occurs (p_fd q) AND (p_events q OR POLLERR OR POLLHUP OR POLLNVAL)\<rparr>"
    using assms(2) by (auto simp: sys_poll_def)
  obtain c where c: "Channels s (p_fd q) = Some c" "ch_fd (chan s c) = p_fd q" "0 \<le> p_fd q" "pollfds s ! nat (ch_index (chan s c)) = q"
    using element_channel [OF assms(1) q(1)] by blast
  then show ?thesis
    using q reported_positive [of "p_events q" "occurs (p_fd q)"] loop_okD(4) [OF assms(1) q(1)] loop_okD(2) [OF assms(1) c(1)]
    by (auto simp: reported_def)
qed

text \<open>
  The callbacks a pass should run: one entry for each registered channel with something reported. Of the
  callbacks that are set, first the one for errors, if \<^verbatim>\<open>POLLERR\<close> (bit 3) or \<^verbatim>\<open>POLLNVAL\<close> (bit 5) is reported,
  then the one for reading, if \<^verbatim>\<open>POLLIN\<close> (bit 0), \<^verbatim>\<open>POLLPRI\<close> (bit 1) or \<^verbatim>\<open>POLLRDHUP\<close> (bit 13) is, then the
  one for writing, if \<^verbatim>\<open>POLLOUT\<close> (bit 2) is.
\<close>

fun wanted :: "u16 \<Rightarrow> event_callback \<Rightarrow> bool" where
  "wanted e ErrorCallback \<longleftrightarrow> bit e 3 \<or> bit e 5"
| "wanted e ReadCallback \<longleftrightarrow> bit e 0 \<or> bit e 1 \<or> bit e 13"
| "wanted e WriteCallback \<longleftrightarrow> bit e 2"

definition due :: "event_callback set \<Rightarrow> u16 \<Rightarrow> event_callback list" where
  "due cbs e = filter (\<lambda>cb. cb \<in> cbs \<and> wanted e cb) [ErrorCallback, ReadCallback, WriteCallback]"

lemma and_bit: "(x :: u16) AND push_bit n 1 = 0 \<longleftrightarrow> \<not> bit x n"
  by (simp add: bit_iff_and_push_bit_not_eq_0)

lemma mask_bits:
  "x AND (POLLERR OR POLLNVAL) \<noteq> 0 \<longleftrightarrow> bit x 3 \<or> bit x 5"
  "x AND (POLLIN OR POLLPRI OR POLLRDHUP) \<noteq> 0 \<longleftrightarrow> bit x 0 \<or> bit x 1 \<or> bit x 13"
  "x AND POLLOUT \<noteq> 0 \<longleftrightarrow> bit x 2"
proof -
  have masks: "POLLERR = push_bit 3 1" "POLLNVAL = push_bit 5 1" "POLLIN = push_bit 0 1" "POLLPRI = push_bit 1 1"
      "POLLRDHUP = push_bit 13 1" "POLLOUT = push_bit 2 1"
    by (simp_all add: poll_bits)
  show "x AND (POLLERR OR POLLNVAL) \<noteq> 0 \<longleftrightarrow> bit x 3 \<or> bit x 5"
    "x AND (POLLIN OR POLLPRI OR POLLRDHUP) \<noteq> 0 \<longleftrightarrow> bit x 0 \<or> bit x 1 \<or> bit x 13" "x AND POLLOUT \<noteq> 0 \<longleftrightarrow> bit x 2"
    unfolding bit.conj_disj_distrib or_eq_0_iff masks and_bit by blast+
qed

lemma handleEvent_due: "handleEvent c = due (ch_callbacks c) (ch_revents c)"
  unfolding handleEvent_def Let_def mask_bits due_def by simp

definition dispatched :: "(int \<Rightarrow> u16) \<Rightarrow> loop \<Rightarrow> (nat \<times> event_callback list) list \<Rightarrow> bool" where
  "dispatched occurs s r \<longleftrightarrow> distinct (map fst r)
     \<and> (\<forall>c cbs. (c, cbs) \<in> set r \<longleftrightarrow> 0 \<le> ch_index (chan s c) \<and> reported occurs s c \<noteq> 0
          \<and> cbs = due (ch_callbacks (chan s c)) (reported occurs s c))"

lemma handled:
  assumes "distinct act" and "\<And>c. c \<in> set act \<longleftrightarrow> A c \<and> B c" and "\<And>c. c \<in> set act \<Longrightarrow> h c = g c"
  shows "distinct (map fst (map (\<lambda>c. (c, h c)) act))"
    and "\<forall>c cbs. (c, cbs) \<in> set (map (\<lambda>c. (c, h c)) act) \<longleftrightarrow> A c \<and> B c \<and> cbs = g c"
  using assms by (auto simp: o_def)

lemma loop_pass_ok:
  assumes "loop_ok s" and "pollfds s \<noteq> []"
  shows "\<exists>r s'. loop_pass (Some occurs) s = Some (r, s') \<and> loop_ok s' \<and> threadId s' = threadId s \<and> dispatched occurs s r
    \<and> (\<forall>c. ch_index (chan s' c) = ch_index (chan s c)) \<and> map p_events (pollfds s') = map p_events (pollfds s)"
proof -
  let ?ps = "sys_poll occurs (pollfds s)" and ?m = "Channels s"
  have ps: "map p_fd ?ps = map p_fd (pollfds s)" "map p_events ?ps = map p_events (pollfds s)"
    by (simp_all add: sys_poll_def)
  have distinct: "distinct (map p_fd ?ps)"
    unfolding ps(1) by (rule distinct_fds [OF assms(1)])
  note element = sys_poll_element [OF assms(1), of _ occurs]
  have "\<forall>p\<in>set ?ps. (0 < sint (p_revents p) \<longleftrightarrow> busy p) \<and> (busy p \<longrightarrow> (\<exists>c. ?m (p_fd p) = Some c \<and> ch_fd (chan s c) = p_fd p))"
    using element by blast
  from fill_eq [OF distinct this refl] obtain chs' where chs':
      "fillActiveChannels ?m (length (filter busy ?ps)) ?ps (chan s) = Some (map (\<lambda>p. the (?m (p_fd p))) (filter busy ?ps), chs')"
      "\<forall>c. same_channel (chs' c) (chan s c)" "\<forall>p\<in>set ?ps. busy p \<longrightarrow> ch_revents (chs' (the (?m (p_fd p)))) = p_revents p"
    by blast
  let ?act = "map (\<lambda>p. the (?m (p_fd p))) (filter busy ?ps)" and ?s = "s\<lparr>chan := chs', pollfds := ?ps\<rparr>"
  have pass: "loop_pass (Some occurs) s = Some (map (\<lambda>c. (c, handleEvent (chs' c))) ?act, ?s)"
    using assms(2) chs'(1) by (simp add: loop_pass_def poller_poll_def Let_def)
  have ok: "loop_ok ?s"
    using chs'(2) by (intro relink [OF assms(1) _ _ ps]) (simp_all add: same_channel_def)
  have dist: "distinct ?act"
  proof -
    have "p_fd p = p_fd q" if "p \<in> set ?ps" "q \<in> set ?ps" "the (?m (p_fd p)) = the (?m (p_fd q))" for p q
      using element [OF that(1)] element [OF that(2)] that(3) by auto
    then have "inj_on (\<lambda>p. the (?m (p_fd p))) (set (filter busy ?ps))"
      using distinct unfolding distinct_map inj_on_def by auto
    then show ?thesis
      using distinct by (simp add: distinct_map)
  qed
  have act: "c \<in> set ?act \<longleftrightarrow> 0 \<le> ch_index (chan s c) \<and> reported occurs s c \<noteq> 0" for c
  proof
    assume "c \<in> set ?act"
    then obtain p where "p \<in> set ?ps" "busy p" "the (?m (p_fd p)) = c"
      by auto
    then show "0 \<le> ch_index (chan s c) \<and> reported occurs s c \<noteq> 0"
      using element [of p] by auto
  next
    assume c: "0 \<le> ch_index (chan s c) \<and> reported occurs s c \<noteq> 0"
    let ?i = "nat (ch_index (chan s c))"
    have l: "?i < length ?ps" "p_fd (?ps ! ?i) = ch_fd (chan s c)" "?m (ch_fd (chan s c)) = Some c"
      using loop_okD(1) [OF assms(1), of c] c by (simp_all add: linked_def Let_def sys_poll_def)
    then have "p_revents (?ps ! ?i) = reported occurs s c"
      using element [of "?ps ! ?i"] by auto
    then show "c \<in> set ?act"
      using c l by (auto intro!: image_eqI [of _ _ "?ps ! ?i"])
  qed
  have handle: "handleEvent (chs' c) = due (ch_callbacks (chan s c)) (reported occurs s c)" if c: "c \<in> set ?act" for c
  proof -
    obtain p where p: "p \<in> set ?ps" "busy p" "the (?m (p_fd p)) = c"
      using c by auto
    then have "ch_revents (chs' c) = reported occurs s c"
      using chs'(3) element [OF p(1)] by auto
    then show ?thesis
      using chs'(2) by (simp add: handleEvent_due same_channel_def)
  qed
  note r = handled [where A = "\<lambda>c. 0 \<le> ch_index (chan s c)" and B = "\<lambda>c. reported occurs s c \<noteq> 0" and h = "\<lambda>c. handleEvent (chs' c)"
      and g = "\<lambda>c. due (ch_callbacks (chan s c)) (reported occurs s c)", OF dist act handle]
  show ?thesis
  proof (intro exI conjI)
    show "loop_pass (Some occurs) s = Some (map (\<lambda>c. (c, handleEvent (chs' c))) ?act, ?s)"
      by (rule pass)
    show "loop_ok ?s" "threadId ?s = threadId s"
      using ok by simp_all
    show "dispatched occurs s (map (\<lambda>c. (c, handleEvent (chs' c))) ?act)"
      unfolding dispatched_def by (intro conjI r)
    show "\<forall>c. ch_index (chan ?s c) = ch_index (chan s c)" "map p_events (pollfds ?s) = map p_events (pollfds s)"
      using chs'(2) ps(2) by (simp_all add: same_channel_def)
  qed
qed

section \<open>Clients of the loop\<close>

text \<open>
  What a client does: create channels, enable them, run passes of the loop. What a callback does to the
  loop are steps that follow its pass.
\<close>

inductive client_step :: "nat \<Rightarrow> loop \<Rightarrow> loop \<Rightarrow> bool" for tid where
  new_channel: "ch_index (chan s c) < 0 \<Longrightarrow> client_step tid s (s\<lparr>chan := (chan s)(c := (Channel fd)\<lparr>ch_callbacks := cbs\<rparr>)\<rparr>)"
| reading: "may_enable s c \<Longrightarrow> enableReading tid c s = Some s' \<Longrightarrow> client_step tid s s'"
| writing: "may_enable s c \<Longrightarrow> enableWriting tid c s = Some s' \<Longrightarrow> client_step tid s s'"
| pass: "pollfds s \<noteq> [] \<Longrightarrow> loop_pass answer s = Some (r, s') \<Longrightarrow> client_step tid s s'"

abbreviation client_steps :: "nat \<Rightarrow> loop \<Rightarrow> loop \<Rightarrow> bool" where
  "client_steps tid \<equiv> (client_step tid)\<^sup>*\<^sup>*"

definition client :: "nat \<Rightarrow> loop \<Rightarrow> bool" where
  "client tid s \<longleftrightarrow> client_steps tid (EventLoop tid) s"

lemma client_step: "client tid s \<Longrightarrow> client_step tid s s' \<Longrightarrow> client tid s'"
  unfolding client_def by (rule rtranclp.rtrancl_into_rtrancl)

lemma new_channel_ok:
  assumes "loop_ok s" and "ch_index (chan s c) < 0"
  shows "loop_ok (s\<lparr>chan := (chan s)(c := (Channel fd)\<lparr>ch_callbacks := cbs\<rparr>)\<rparr>)" (is "loop_ok ?s")
proof (rule loop_okI)
  show "linked ?s d" if "0 \<le> ch_index (chan ?s d)" for d
  proof -
    have "d \<noteq> c" "linked s d"
      using that loop_okD(1) [OF assms(1), of d] by (auto simp: Channel_def split: if_splits)
    then show ?thesis
      by (simp add: linked_def)
  qed
  show "ch_fd (chan ?s d) = f \<and> 0 \<le> ch_index (chan ?s d)" if "Channels ?s f = Some d" for f d
    using that loop_okD(2) [OF assms(1), of f d] assms(2) by auto
  show "\<exists>d. ch_index (chan ?s d) = int i" if i: "i < length (pollfds ?s)" for i
  proof -
    obtain d where "ch_index (chan s d) = int i"
      using i loop_okD(3) [OF assms(1), of i] by auto
    then show ?thesis
      using assms(2) by (intro exI [of _ d]) auto
  qed
  show "p_events p = kReadEvent \<or> p_events p = kWriteEvent" if "p \<in> set (pollfds ?s)" for p
    using that loop_okD(4) [OF assms(1), of p] by simp
  show "ch_events (chan ?s d) = 0" if "ch_index (chan ?s d) < 0" for d
    using that loop_okD(5) [OF assms(1), of d] by (auto simp: Channel_def split: if_splits)
qed

text \<open>A step keeps the invariant, and what the kernel is asked for a registered channel.\<close>

definition asked :: "loop \<Rightarrow> nat \<Rightarrow> u16" where
  "asked s c = p_events (pollfds s ! nat (ch_index (chan s c)))"

lemma asked_same:
  assumes "loop_ok s" and "0 \<le> ch_index (chan s c)" and "ch_index (chan s' c) = ch_index (chan s c)"
    and "map p_events (pollfds s') = map p_events (pollfds s) @ es"
  shows "0 \<le> ch_index (chan s' c) \<and> asked s' c = asked s c"
proof -
  let ?i = "nat (ch_index (chan s c))"
  have i: "?i < length (pollfds s)"
    using loop_okD(1) [OF assms(1,2)] by (simp add: linked_def Let_def)
  moreover have "length (pollfds s') = length (pollfds s) + length es"
    using arg_cong [OF assms(4), of length] by simp
  ultimately have "map p_events (pollfds s') ! ?i = p_events (pollfds s' ! ?i)"
    by simp
  then show ?thesis
    using i assms(2,3) unfolding assms(4) by (simp add: asked_def nth_append)
qed

lemma enable_step:
  assumes "loop_ok s" and "threadId s = tid" and "may_enable s c" and "enable evs tid c s = Some s'" and "evs = kReadEvent \<or> evs = kWriteEvent"
  shows "loop_ok s' \<and> threadId s' = tid \<and> (\<forall>d. 0 \<le> ch_index (chan s d) \<longrightarrow> 0 \<le> ch_index (chan s' d) \<and> asked s' d = asked s d)"
proof -
  obtain es where s': "loop_ok s'" "threadId s' = tid" "\<forall>d. 0 \<le> ch_index (chan s d) \<longrightarrow> ch_index (chan s' d) = ch_index (chan s d)"
      "map p_events (pollfds s') = map p_events (pollfds s) @ es"
    using enable_ok [OF assms(1,3,5)] assms(2,4) by auto
  then show ?thesis
    using asked_same [OF assms(1)] by blast
qed

lemma client_step_ok:
  assumes "client_step tid s s'" and "loop_ok s" and "threadId s = tid"
  shows "loop_ok s' \<and> threadId s' = tid \<and> (\<forall>d. 0 \<le> ch_index (chan s d) \<longrightarrow> 0 \<le> ch_index (chan s' d) \<and> asked s' d = asked s d)"
  using assms
proof (cases rule: client_step.cases)
  case (new_channel c fd cbs)
  then show ?thesis
    using new_channel_ok [OF assms(2)] assms(3) by (auto simp: asked_def)
next
  case (reading c)
  then show ?thesis
    using enable_step [OF assms(2,3), of c kReadEvent s'] by (auto simp: enableReading_def)
next
  case (writing c)
  then show ?thesis
    using enable_step [OF assms(2,3), of c kWriteEvent s'] by (auto simp: enableWriting_def)
next
  case (pass answer r)
  show ?thesis
  proof (cases answer)
    case None
    then show ?thesis
      using pass assms(2,3) by (simp add: loop_pass_def poller_poll_def)
  next
    case (Some occurs)
    then show ?thesis
      using pass loop_pass_ok [OF assms(2), of occurs] asked_same [OF assms(2), of _ s' "[]"] assms(3) by auto
  qed
qed

lemma client_steps_ok:
  "client_steps tid s s' \<Longrightarrow> loop_ok s \<Longrightarrow> threadId s = tid \<Longrightarrow>
    loop_ok s' \<and> threadId s' = tid \<and> (\<forall>d. 0 \<le> ch_index (chan s d) \<longrightarrow> 0 \<le> ch_index (chan s' d) \<and> asked s' d = asked s d)"
proof (induction rule: rtranclp_induct)
  case (step s1 s2)
  then show ?case
    using client_step_ok [of tid s1 s2] by auto
qed simp

lemma client_ok: "client tid s \<Longrightarrow> loop_ok s \<and> threadId s = tid"
  using client_steps_ok [of tid "EventLoop tid" s] by (simp add: client_def loop_ok_def EventLoop_def Channel_def)

lemma asked_to_read:
  assumes "asked s c = kReadEvent"
  shows "WriteCallback \<notin> set (due cbs (reported occurs s c))"
proof -
  have "\<not> bit (kReadEvent OR POLLERR OR POLLHUP OR POLLNVAL) 2"
    by (simp add: poll_bits bit_or_iff)
  then have "\<not> bit (reported occurs s c) 2"
    using assms by (simp add: reported_def asked_def bit_and_iff)
  then show ?thesis
    by (simp add: due_def)
qed

section \<open>Properties\<close>

text \<open>
  (C23) In every state a well-behaved client can bring the event loop into, enabling a channel trips no
  assertion, and a pass of the loop with a poll that does not fail runs, once for each registered channel with
  something reported and for no other, exactly the callbacks that belong to what the kernel reported,
  errors before reading before writing. But what the kernel is asked for is only the kind of event a
  channel was first enabled for: once a channel has been enabled for reading, no later pass, whatever the
  client does before it and thus also after \<^verbatim>\<open>enableWriting\<close>, runs its write callback. The client enables only
  channels with a descriptor of their own, runs a pass only when some channel has been enabled, and all in the
  thread of the loop.
\<close>

theorem muduo_dispatch:
  assumes "client tid s"
  shows "(may_enable s c \<longrightarrow> (\<exists>s'. enableReading tid c s = Some s' \<and> client tid s') \<and> (\<exists>s'. enableWriting tid c s = Some s' \<and> client tid s'))
    \<and> (pollfds s \<noteq> [] \<longrightarrow> (\<exists>r s'. loop_pass (Some occurs) s = Some (r, s') \<and> client tid s' \<and> dispatched occurs s r))
    \<and> (\<forall>s1 s2 r s3 cbs. may_enable s c \<and> ch_index (chan s c) < 0 \<and> enableReading tid c s = Some s1 \<and> client_steps tid s1 s2
         \<and> loop_pass (Some occurs) s2 = Some (r, s3) \<and> (c, cbs) \<in> set r \<longrightarrow> WriteCallback \<notin> set cbs)"
proof (intro conjI impI allI)
  note ok = client_ok [OF assms]
  show "\<exists>s'. enableReading tid c s = Some s' \<and> client tid s'" "\<exists>s'. enableWriting tid c s = Some s' \<and> client tid s'" if "may_enable s c"
    using enable_ok [OF _ that, of kReadEvent] enable_ok [OF _ that, of kWriteEvent] ok client_step [OF assms] that
      client_step.reading client_step.writing by (fastforce simp: enableReading_def enableWriting_def)+
  show "\<exists>r s'. loop_pass (Some occurs) s = Some (r, s') \<and> client tid s' \<and> dispatched occurs s r" if "pollfds s \<noteq> []"
    using loop_pass_ok [OF _ that, of occurs] ok client_step [OF assms] client_step.pass [OF that] by blast
  fix s1 s2 r s3 cbs
  assume "may_enable s c \<and> ch_index (chan s c) < 0 \<and> enableReading tid c s = Some s1 \<and> client_steps tid s1 s2
      \<and> loop_pass (Some occurs) s2 = Some (r, s3) \<and> (c, cbs) \<in> set r"
  then have *: "may_enable s c" "ch_index (chan s c) < 0" "enableReading tid c s = Some s1" "client_steps tid s1 s2"
      "loop_pass (Some occurs) s2 = Some (r, s3)" "(c, cbs) \<in> set r"
    by blast+
  have s1: "loop_ok s1" "threadId s1 = tid" "0 \<le> ch_index (chan s1 c)" "asked s1 c = kReadEvent"
    using enable_ok [of s c kReadEvent] ok *(1-3) by (auto simp: enableReading_def asked_def)
  then have s2: "loop_ok s2" "asked s2 c = kReadEvent"
    using client_steps_ok [OF *(4)] by auto
  have "pollfds s2 \<noteq> []"
    using *(5) by (auto simp: loop_pass_def poller_poll_def)
  from loop_pass_ok [OF s2(1) this, of occurs] have "dispatched occurs s2 r"
    unfolding *(5) by blast
  then have "\<forall>cbs. (c, cbs) \<in> set r \<longrightarrow> cbs = due (ch_callbacks (chan s2 c)) (reported occurs s2 c)"
    unfolding dispatched_def by simp
  then have cbs: "cbs = due (ch_callbacks (chan s2 c)) (reported occurs s2 c)"
    using *(6) by blast
  show "WriteCallback \<notin> set cbs"
    unfolding cbs by (rule asked_to_read [OF s2(2)])
qed

definition sample_loop :: loop where
  "sample_loop = (EventLoop 1)\<lparr>chan := (chan (EventLoop 1))(7 := (Channel 5)\<lparr>ch_callbacks := {ReadCallback, WriteCallback}\<rparr>)\<rparr>"

theorem muduo_dispatch_witness:
  "\<exists>s1 s2. enableReading 1 7 sample_loop = Some s1 \<and> enableWriting 1 7 s1 = Some s2
    \<and> (\<exists>r s3. loop_pass (Some (\<lambda>fd. POLLOUT OR POLLIN)) s2 = Some (r, s3) \<and> r = [(7, [ReadCallback])]
         \<and> (\<forall>cbs. (7, cbs) \<in> set r \<longrightarrow> WriteCallback \<notin> set cbs))"
proof -
  have "client 1 (EventLoop 1)"
    by (simp add: client_def)
  then have client: "client 1 sample_loop"
    unfolding sample_loop_def by (rule client_step) (rule client_step.new_channel, simp add: EventLoop_def Channel_def)
  have may: "may_enable sample_loop 7" "ch_index (chan sample_loop 7) < 0"
    by (simp_all add: sample_loop_def may_enable_def EventLoop_def Channel_def)
  obtain s1 s2 r s3 where s: "enableReading 1 7 sample_loop = Some s1" "enableWriting 1 7 s1 = Some s2"
      "loop_pass (Some (\<lambda>fd. POLLOUT OR POLLIN)) s2 = Some (r, s3)" "may_enable s1 7" "r = [(7, [ReadCallback])]"
    by (simp add: sample_loop_def EventLoop_def Channel_def enableReading_def enableWriting_def enable_def updateChannel_def Let_def
        isNoneEvent_def may_enable_def loop_pass_def poller_poll_def sys_poll_def poll_bits handleEvent_def)
  then show ?thesis
    using muduo_dispatch [OF client, of 7 "\<lambda>fd. POLLOUT OR POLLIN"] may client_step.writing [of s1 7 1 s2] by blast
qed

lemma takeWhile_less: "sorted xs \<Longrightarrow> takeWhile (\<lambda>x. x < b) xs = filter (\<lambda>x. x < b) xs" for b :: "'a :: linorder"
proof (induction xs)
  case (Cons x xs)
  then have "\<not> x < b \<Longrightarrow> filter (\<lambda>y. y < b) xs = []"
    by (fastforce simp: filter_empty_conv not_less dest: order.strict_trans1)
  with Cons show ?case
    by simp
qed simp

text \<open>\<^verbatim>\<open>getExpired\<close> returns the entries that are due, in order, and its assertion holds.\<close>

lemma getExpired_due:
  assumes "sorted timers" and "\<forall>(t, a)\<in>set timers. a < uintptr_max"
  shows "getExpired uintptr_max now timers = Some (filter (\<lambda>e. fst e \<le> now) timers)"
proof -
  have due: "e < (now, uintptr_max) \<longleftrightarrow> fst e \<le> now" if "e \<in> set timers" for e
    using assms(2) that by (cases e) auto
  have "takeWhile (\<lambda>e. e < (now, uintptr_max)) timers = filter (\<lambda>e. e < (now, uintptr_max)) timers"
    by (rule takeWhile_less [OF assms(1)])
  also have "\<dots> = filter (\<lambda>e. fst e \<le> now) timers"
    using due by (intro filter_cong) simp_all
  finally have "takeWhile (\<lambda>e. e < (now, uintptr_max)) timers = filter (\<lambda>e. fst e \<le> now) timers" .
  moreover have "now < fst (hd (dropWhile (\<lambda>e. e < (now, uintptr_max)) timers))"
    if rest: "dropWhile (\<lambda>e. e < (now, uintptr_max)) timers \<noteq> []"
  proof -
    have "hd (dropWhile (\<lambda>e. e < (now, uintptr_max)) timers) \<in> set timers"
      using rest hd_in_set set_dropWhileD by metis
    then show ?thesis
      using due hd_dropWhile [OF rest] by auto
  qed
  ultimately show ?thesis
    by (auto simp: getExpired_def Let_def)
qed

end
