(* ===== verification/Nonblock.thy ===== *)
theory Nonblock
  imports Stream_IO
begin

text \<open>
  The non-blocking client \<^verbatim>\<open>str_cli\<close> of \<^verbatim>\<open>nonblock/strclinonb.c\<close>, which copies standard input to a
  socket and the socket to standard output through two buffers, and the non-blocking connect of
  \<^verbatim>\<open>lib/connect_nonb.c\<close>. A round of the client takes what \<^verbatim>\<open>select\<close> reports and what each of the
  calls answers, if it is made. A pointer into a buffer is its offset.
\<close>

section \<open>The buffers\<close>

datatype 'a step = Next 'a | Returns 'a | Dies string | Undefined

fun bind_step :: "'a step \<Rightarrow> ('a \<Rightarrow> 'b step) \<Rightarrow> ('a \<Rightarrow> 'b) \<Rightarrow> 'b step" where
  "bind_step (Next x) f g = f x"
| "bind_step (Returns x) f g = Returns (g x)"
| "bind_step (Dies m) f g = Dies m"
| "bind_step Undefined f g = Undefined"

text \<open>\<^verbatim>\<open>to\<close> with \<^verbatim>\<open>toiptr\<close> and \<^verbatim>\<open>tooptr\<close>, or \<^verbatim>\<open>fr\<close> with \<^verbatim>\<open>friptr\<close> and \<^verbatim>\<open>froptr\<close>.\<close>

record pipe =
  buf :: "u8 list"
  iptr :: nat
  optr :: nat

text \<open>What was read, \<open>Got []\<close> being the end of file, \<^verbatim>\<open>EWOULDBLOCK\<close>, or another error; likewise for \<^verbatim>\<open>write\<close>.\<close>

datatype nread = Got "u8 list" | Rblock | Rerror

datatype nwrite = Took nat | Wblock | Werror

fun sys_read :: "nat \<Rightarrow> nread \<Rightarrow> nread" where
  "sys_read n (Got bs) = Got (take n bs)"
| "sys_read n a = a"

fun sys_write :: "nat \<Rightarrow> nwrite \<Rightarrow> nwrite" where
  "sys_write n (Took k) = Took (min n k)"
| "sys_write n a = a"

definition room :: "pipe \<Rightarrow> nat" where
  "room p = MAXLINE - iptr p"

definition fill :: "u8 list \<Rightarrow> pipe \<Rightarrow> pipe step" where
  "fill bs p =
     (case memcpy_at (buf p) (iptr p) bs of
        None \<Rightarrow> Undefined
      | Some b \<Rightarrow> Next (p\<lparr>buf := b, iptr := iptr p + length bs\<rparr>))"

definition pending :: "pipe \<Rightarrow> u8 list" where
  "pending p = take (iptr p - optr p) (drop (optr p) (buf p))"

text \<open>After a write both pointers go back to the beginning of the buffer when it is empty.\<close>

definition drain :: "nat \<Rightarrow> pipe \<Rightarrow> pipe" where
  "drain n p =
     (if optr p + n = iptr p then p\<lparr>iptr := 0, optr := 0\<rparr> else p\<lparr>optr := optr p + n\<rparr>)"

section \<open>The client\<close>

text \<open>
  The variables of \<^verbatim>\<open>str_cli\<close>, and what went through each of the four descriptors: the bytes read from
  standard input and from the socket, the bytes written to the socket and to standard output, and how
  often the sending side of the socket was shut down.
\<close>

record cli =
  to_p :: pipe
  fr_p :: pipe
  stdineof :: bool
  typed :: "u8 list"
  sent :: "u8 list"
  received :: "u8 list"
  shown :: "u8 list"
  fins :: nat

record nround =
  rs_stdin :: bool
  rs_sock :: bool
  ws_sock :: bool
  ws_stdout :: bool
  a_stdin :: nread
  a_sock :: nread
  a_stdout :: nwrite
  a_write :: nwrite
  a_shutdown :: bool

definition Shutdown :: "bool \<Rightarrow> cli \<Rightarrow> cli step" where
  "Shutdown ok s = (if ok then Next (s\<lparr>fins := fins s + 1\<rparr>) else Dies ''shutdown error'')"

text \<open>Besides the state, the reads say whether the descriptor to write to is added to \<^verbatim>\<open>wset\<close>.\<close>

definition from_stdin :: "nround \<Rightarrow> cli \<Rightarrow> (bool \<times> cli) step" where
  "from_stdin r s =
     (case sys_read (room (to_p s)) (a_stdin r) of
        Rerror \<Rightarrow> Dies ''read error on stdin''
      | Rblock \<Rightarrow> Next (False, s)
      | Got bs \<Rightarrow>
          if bs = [] then
            (let s = s\<lparr>stdineof := True\<rparr> in
             if optr (to_p s) = iptr (to_p s) then bind_step (Shutdown (a_shutdown r) s) (\<lambda>s. Next (False, s)) (Pair False)
             else Next (False, s))
          else bind_step (fill bs (to_p s)) (\<lambda>p. Next (True, s\<lparr>to_p := p, typed := typed s @ bs\<rparr>)) (\<lambda>p. (False, s)))"

definition from_sock :: "nround \<Rightarrow> cli \<Rightarrow> (bool \<times> cli) step" where
  "from_sock r s =
     (case sys_read (room (fr_p s)) (a_sock r) of
        Rerror \<Rightarrow> Dies ''read error on socket''
      | Rblock \<Rightarrow> Next (False, s)
      | Got bs \<Rightarrow>
          if bs = [] then
            if stdineof s then Returns (False, s) else Dies ''str_cli: server terminated prematurely''
          else bind_step (fill bs (fr_p s)) (\<lambda>p. Next (True, s\<lparr>fr_p := p, received := received s @ bs\<rparr>)) (\<lambda>p. (False, s)))"

definition to_stdout :: "nround \<Rightarrow> cli \<Rightarrow> cli step" where
  "to_stdout r s =
     (let p = fr_p s; n = iptr p - optr p in
      if n > 0 then
        (case sys_write n (a_stdout r) of
           Werror \<Rightarrow> Dies ''write error to stdout''
         | Wblock \<Rightarrow> Next s
         | Took k \<Rightarrow> Next (s\<lparr>fr_p := drain k p, shown := shown s @ take k (pending p)\<rparr>))
      else Next s)"

definition to_sock :: "nround \<Rightarrow> cli \<Rightarrow> cli step" where
  "to_sock r s =
     (let p = to_p s; n = iptr p - optr p in
      if n > 0 then
        (case sys_write n (a_write r) of
           Werror \<Rightarrow> Dies ''write error to socket''
         | Wblock \<Rightarrow> Next s
         | Took k \<Rightarrow>
             (let s' = s\<lparr>to_p := drain k p, sent := sent s @ take k (pending p)\<rparr> in
              if optr p + k = iptr p \<and> stdineof s then Shutdown (a_shutdown r) s' else Next s'))
      else Next s)"

text \<open>The sets given to \<^verbatim>\<open>select\<close>.\<close>

definition wants_stdin :: "cli \<Rightarrow> bool" where
  "wants_stdin s \<longleftrightarrow> \<not> stdineof s \<and> iptr (to_p s) < MAXLINE"

definition wants_sock :: "cli \<Rightarrow> bool" where
  "wants_sock s \<longleftrightarrow> iptr (fr_p s) < MAXLINE"

definition holds_data :: "pipe \<Rightarrow> bool" where
  "holds_data p \<longleftrightarrow> optr p \<noteq> iptr p"

definition nb_round :: "nround \<Rightarrow> cli \<Rightarrow> cli step" where
  "nb_round r s =
     (let r_in = rs_stdin r \<and> wants_stdin s; r_sock = rs_sock r \<and> wants_sock s;
          w_sock = ws_sock r \<and> holds_data (to_p s); w_out = ws_stdout r \<and> holds_data (fr_p s) in
      bind_step (if r_in then from_stdin r s else Next (False, s)) (\<lambda>(more_sock, s).
      bind_step (if r_sock then from_sock r s else Next (False, s)) (\<lambda>(more_out, s).
      bind_step (if w_out \<or> more_out then to_stdout r s else Next s) (\<lambda>s.
      if w_sock \<or> more_sock then to_sock r s else Next s) id) snd) snd)"

fun nb_run :: "nround list \<Rightarrow> cli \<Rightarrow> cli step" where
  "nb_run [] s = Next s"
| "nb_run (r # rs) s = bind_step (nb_round r s) (nb_run rs) id"

text \<open>The arrays are not initialised; their contents are arguments.\<close>

definition nb_start :: "u8 list \<Rightarrow> u8 list \<Rightarrow> cli" where
  "nb_start to fr =
     \<lparr>to_p = \<lparr>buf = to, iptr = 0, optr = 0\<rparr>, fr_p = \<lparr>buf = fr, iptr = 0, optr = 0\<rparr>, stdineof = False,
      typed = [], sent = [], received = [], shown = [], fins = 0\<rparr>"

section \<open>Connecting\<close>

text \<open>
  The socket of a connect and what the kernel answers to the calls of \<^verbatim>\<open>connect_nonb\<close>: \<open>a_sockerr\<close> is the
  error of \<^verbatim>\<open>getsockopt\<close> itself or the pending error it reports.
\<close>

record conn_sock =
  is_open :: bool
  nonblock :: bool

datatype selected = Select_error | Timeout | Ready bool bool

record conn_answers =
  a_getfl :: bool
  a_setfl :: bool
  a_connect :: "errno option"
  a_select :: selected
  a_sockerr :: "errno + errno option"
  a_restore :: bool

definition connect_done :: "conn_answers \<Rightarrow> bool \<Rightarrow> errno option \<Rightarrow> conn_sock \<Rightarrow> (int \<times> errno option \<times> conn_sock) outcome" where
  "connect_done a flags error s =
     (if \<not> a_restore a then Exits ''fcntl error''
      else
        (let s = s\<lparr>nonblock := flags\<rparr> in
         case error of
           None \<Rightarrow> Ret (0, None, s)
         | Some e \<Rightarrow> Ret (-1, Some e, s\<lparr>is_open := False\<rparr>)))"

definition connect_nonb :: "conn_answers \<Rightarrow> conn_sock \<Rightarrow> (int \<times> errno option \<times> conn_sock) outcome" where
  "connect_nonb a s =
     (if \<not> a_getfl a \<or> \<not> a_setfl a then Exits ''fcntl error''
      else
        (let flags = nonblock s; s = s\<lparr>nonblock := True\<rparr> in
         case a_connect a of
           None \<Rightarrow> connect_done a flags None s
         | Some e \<Rightarrow>
             if e \<noteq> EINPROGRESS then Ret (-1, Some e, s)
             else
               (case a_select a of
                  Select_error \<Rightarrow> Exits ''select error''
                | Timeout \<Rightarrow> Ret (-1, Some ETIMEDOUT, s\<lparr>is_open := False\<rparr>)
                | Ready r w \<Rightarrow>
                    if r \<or> w then
                      (case a_sockerr a of
                         Inl e \<Rightarrow> Ret (-1, Some e, s)
                       | Inr error \<Rightarrow> connect_done a flags error s)
                    else Exits ''select error: sockfd not set'')))"

text \<open>
  \<^verbatim>\<open>connect_timeo\<close> installs a handler for the alarm, connects, and puts the old handler back. The third
  argument is the error of \<^verbatim>\<open>close\<close>, which \<^verbatim>\<open>errno\<close> then holds. The flag of the result says whether the
  alarm had already been set.
\<close>

record timed =
  handler :: nat
  alarm_left :: nat
  t_open :: bool

definition connect_timeo :: "nat \<Rightarrow> errno option \<Rightarrow> errno option \<Rightarrow> timed \<Rightarrow> int \<times> errno option \<times> bool \<times> timed" where
  "connect_timeo nsec answer close_error s =
     (let sigfunc = handler s; warned = alarm_left s \<noteq> 0; s = s\<lparr>alarm_left := nsec\<rparr>;
          (n, error, s) =
            (case answer of
               None \<Rightarrow> (0, None, s)
             | Some e \<Rightarrow>
                 (let e = (case close_error of None \<Rightarrow> e | Some e \<Rightarrow> e) in
                  (-1, Some (if e = EINTR then ETIMEDOUT else e), s\<lparr>t_open := False\<rparr>)))
      in (n, error, warned, s\<lparr>alarm_left := 0, handler := sigfunc\<rparr>))"

section \<open>The invariant\<close>

text \<open>A buffer is never left empty with its pointers behind the beginning.\<close>

definition pipe_ok :: "pipe \<Rightarrow> bool" where
  "pipe_ok p \<longleftrightarrow> length (buf p) = MAXLINE \<and> optr p \<le> iptr p \<and> iptr p \<le> MAXLINE \<and> (optr p = iptr p \<longrightarrow> iptr p = 0)"

definition relays :: "cli \<Rightarrow> bool" where
  "relays s \<longleftrightarrow> pipe_ok (to_p s) \<and> pipe_ok (fr_p s)
     \<and> typed s = sent s @ pending (to_p s) \<and> received s = shown s @ pending (fr_p s)
     \<and> fins s = (if stdineof s \<and> \<not> holds_data (to_p s) then 1 else 0)"

lemma relaysI:
  assumes "pipe_ok (to_p s)" and "pipe_ok (fr_p s)" and "typed s = sent s @ pending (to_p s)"
    and "received s = shown s @ pending (fr_p s)" and "fins s = (if stdineof s \<and> \<not> holds_data (to_p s) then 1 else 0)"
  shows "relays s"
  unfolding relays_def using assms by (intro conjI)

lemma relaysD:
  assumes "relays s"
  shows "pipe_ok (to_p s)" and "pipe_ok (fr_p s)" and "typed s = sent s @ pending (to_p s)"
    and "received s = shown s @ pending (fr_p s)" and "fins s = (if stdineof s \<and> \<not> holds_data (to_p s) then 1 else 0)"
  using assms unfolding relays_def by - (elim conjE, assumption)+

lemma fill_ok:
  assumes "pipe_ok p" and "length bs \<le> room p" and "bs \<noteq> []"
  shows "\<exists>p'. fill bs p = Next p' \<and> pipe_ok p' \<and> pending p' = pending p @ bs \<and> holds_data p'"
proof -
  have len: "iptr p + length bs \<le> length (buf p)" "optr p \<le> iptr p"
    using assms by (auto simp: pipe_ok_def room_def)
  let ?b = "take (iptr p) (buf p) @ bs @ drop (iptr p + length bs) (buf p)"
  have "fill bs p = Next (p\<lparr>buf := ?b, iptr := iptr p + length bs\<rparr>)"
    using len by (simp add: fill_def memcpy_at_def)
  moreover have "pending (p\<lparr>buf := ?b, iptr := iptr p + length bs\<rparr>) = pending p @ bs"
    using len by (simp add: pending_def drop_take)
  moreover have "pipe_ok (p\<lparr>buf := ?b, iptr := iptr p + length bs\<rparr>)" "holds_data (p\<lparr>buf := ?b, iptr := iptr p + length bs\<rparr>)"
    using assms len by (auto simp: pipe_ok_def holds_data_def)
  ultimately show ?thesis
    by blast
qed

lemma length_pending: "pipe_ok p \<Longrightarrow> length (pending p) = iptr p - optr p"
  by (auto simp: pending_def pipe_ok_def)

lemma pending_empty: "pipe_ok p \<Longrightarrow> \<not> holds_data p \<longleftrightarrow> pending p = []"
  using length_pending [of p] by (auto simp: holds_data_def pipe_ok_def)

lemma drain_ok:
  assumes "pipe_ok p" and "k \<le> iptr p - optr p"
  shows "pipe_ok (drain k p)" and "pending (drain k p) = drop k (pending p)"
    and "\<not> holds_data (drain k p) \<longleftrightarrow> optr p + k = iptr p"
  using assms by (auto simp: pipe_ok_def drain_def pending_def holds_data_def drop_take add.commute)

text \<open>A step is defined, and what it leads to or returns is as it should be.\<close>

fun ends_well :: "('a \<Rightarrow> bool) \<Rightarrow> ('a \<Rightarrow> bool) \<Rightarrow> 'a step \<Rightarrow> bool" where
  "ends_well P Q (Next x) \<longleftrightarrow> P x"
| "ends_well P Q (Returns x) \<longleftrightarrow> Q x"
| "ends_well P Q (Dies m) \<longleftrightarrow> True"
| "ends_well P Q Undefined \<longleftrightarrow> False"

lemma ends_well_bind:
  assumes "ends_well P Q m" and "\<And>x. P x \<Longrightarrow> ends_well P' Q' (f x)" and "\<And>x. Q x \<Longrightarrow> Q' (g x)"
  shows "ends_well P' Q' (bind_step m f g)"
  using assms by (cases m) auto

abbreviation returned :: "cli \<Rightarrow> bool" where
  "returned s \<equiv> relays s \<and> stdineof s"

abbreviation stays :: "cli step \<Rightarrow> bool" where
  "stays \<equiv> ends_well relays returned"

abbreviation stays_pair :: "(bool \<times> cli) step \<Rightarrow> bool" where
  "stays_pair \<equiv> ends_well (\<lambda>(b, s). relays s) (\<lambda>(b, s). returned s)"

lemma from_stdin_ok:
  assumes "relays s" and "wants_stdin s"
  shows "stays_pair (from_stdin r s)"
proof (cases "sys_read (room (to_p s)) (a_stdin r)")
  case (Got bs)
  note s = relaysD [OF assms(1)]
  have fins: "fins s = 0"
    using s(5) assms(2) by (simp add: wants_stdin_def)
  show ?thesis
  proof (cases "bs = []")
    case True
    have "relays (s\<lparr>stdineof := True, fins := 1\<rparr>)" if "\<not> holds_data (to_p s)"
      using s that by (intro relaysI) simp_all
    moreover have "relays (s\<lparr>stdineof := True\<rparr>)" if "holds_data (to_p s)"
      using s that fins by (intro relaysI) simp_all
    ultimately show ?thesis
      using Got True fins by (simp add: from_stdin_def Let_def Shutdown_def holds_data_def)
  next
    case False
    have "length bs \<le> room (to_p s)"
      using Got by (cases "a_stdin r") auto
    then obtain p where p: "fill bs (to_p s) = Next p" "pipe_ok p" "pending p = pending (to_p s) @ bs" "holds_data p"
      using fill_ok [OF s(1) _ False] by blast
    have "relays (s\<lparr>to_p := p, typed := typed s @ bs\<rparr>)"
      using s p fins by (intro relaysI) simp_all
    then show ?thesis
      using Got False p(1) by (simp add: from_stdin_def)
  qed
qed (use assms in \<open>simp_all add: from_stdin_def\<close>)

lemma from_sock_ok:
  assumes "relays s"
  shows "stays_pair (from_sock r s)"
proof (cases "sys_read (room (fr_p s)) (a_sock r)")
  case (Got bs)
  note s = relaysD [OF assms]
  show ?thesis
  proof (cases "bs = []")
    case False
    have "length bs \<le> room (fr_p s)"
      using Got by (cases "a_sock r") auto
    then obtain p where p: "fill bs (fr_p s) = Next p" "pipe_ok p" "pending p = pending (fr_p s) @ bs"
      using fill_ok [OF s(2) _ False] by blast
    have "relays (s\<lparr>fr_p := p, received := received s @ bs\<rparr>)"
      using s p by (intro relaysI) simp_all
    then show ?thesis
      using Got False p(1) by (simp add: from_sock_def)
  qed (use assms Got in \<open>simp add: from_sock_def\<close>)
qed (use assms in \<open>simp_all add: from_sock_def\<close>)

lemma to_stdout_ok:
  assumes "relays s"
  shows "stays (to_stdout r s)"
proof (cases "sys_write (iptr (fr_p s) - optr (fr_p s)) (a_stdout r)")
  case (Took k)
  note s = relaysD [OF assms]
  have k: "k \<le> iptr (fr_p s) - optr (fr_p s)"
    using Took by (cases "a_stdout r") auto
  have "relays (s\<lparr>fr_p := drain k (fr_p s), shown := shown s @ take k (pending (fr_p s))\<rparr>)"
    using s drain_ok(1,2) [OF s(2) k] by (intro relaysI) simp_all
  then show ?thesis
    using Took assms by (simp add: to_stdout_def Let_def)
qed (use assms in \<open>simp_all add: to_stdout_def Let_def\<close>)

lemma to_sock_ok:
  assumes "relays s"
  shows "stays (to_sock r s)"
proof (cases "sys_write (iptr (to_p s) - optr (to_p s)) (a_write r)")
  case (Took k)
  note s = relaysD [OF assms]
  let ?s = "s\<lparr>to_p := drain k (to_p s), sent := sent s @ take k (pending (to_p s))\<rparr>"
  have k: "k \<le> iptr (to_p s) - optr (to_p s)"
    using Took by (cases "a_write r") auto
  note d = drain_ok [OF s(1) k]
  have fins: "fins s = 0" if "optr (to_p s) < iptr (to_p s)"
    using that s(5) by (simp add: holds_data_def)
  have "relays (?s\<lparr>fins := 1\<rparr>)" if "optr (to_p s) + k = iptr (to_p s)" "stdineof s"
    using s d that by (intro relaysI) simp_all
  moreover have "relays ?s" if "optr (to_p s) < iptr (to_p s)" "\<not> (optr (to_p s) + k = iptr (to_p s) \<and> stdineof s)"
    using s(1-4) d fins that by (intro relaysI) auto
  ultimately show ?thesis
    using Took assms fins by (auto simp: to_sock_def Let_def Shutdown_def)
qed (use assms in \<open>simp_all add: to_sock_def Let_def\<close>)

lemma nb_round_ok:
  assumes "relays s"
  shows "stays (nb_round r s)"
  unfolding nb_round_def Let_def
proof (rule ends_well_bind [where P = "\<lambda>(b, s). relays s" and Q = "\<lambda>(b, s). returned s"], goal_cases)
  case 1
  show ?case
    using assms from_stdin_ok by simp
next
  case (2 x)
  then obtain b s1 where x: "x = (b, s1)" "relays s1"
    by (cases x) simp
  show ?case
    unfolding x(1) prod.case
  proof (rule ends_well_bind [where P = "\<lambda>(b, s). relays s" and Q = "\<lambda>(b, s). returned s"], goal_cases)
    case 1
    show ?case
      using x(2) from_sock_ok by simp
  next
    case (2 y)
    then obtain c s2 where y: "y = (c, s2)" "relays s2"
      by (cases y) simp
    show ?case
      unfolding y(1) prod.case
      by (rule ends_well_bind [where P = relays and Q = returned]) (use y(2) to_stdout_ok to_sock_ok in auto)
  qed auto
qed auto

lemma nb_run_ok: "relays s \<Longrightarrow> stays (nb_run rs s)"
proof (induction rs arbitrary: s)
  case (Cons r rs)
  show ?case
    unfolding nb_run.simps
    by (rule ends_well_bind [where P = relays and Q = returned]) (use Cons nb_round_ok in auto)
qed simp

lemma nb_start_ok: "length to = MAXLINE \<Longrightarrow> length fr = MAXLINE \<Longrightarrow> relays (nb_start to fr)"
  by (rule relaysI) (simp_all add: nb_start_def pipe_ok_def pending_def holds_data_def)

text \<open>A round in which nothing arrives and both descriptors take everything.\<close>

definition flushes :: "nround \<Rightarrow> bool" where
  "flushes r \<longleftrightarrow> \<not> rs_stdin r \<and> \<not> rs_sock r \<and> ws_sock r \<and> ws_stdout r \<and> a_stdout r = Took MAXLINE
     \<and> a_write r = Took MAXLINE \<and> a_shutdown r"

lemma drain_all:
  assumes "pipe_ok p" and "holds_data p"
  shows "min (iptr p - optr p) MAXLINE = iptr p - optr p" and "optr p + (iptr p - optr p) = iptr p"
    and "take (iptr p - optr p) (pending p) = pending p" and "optr p < iptr p"
  using assms length_pending [OF assms(1)] by (auto simp: pipe_ok_def holds_data_def)

lemma to_stdout_flushes:
  assumes "relays s" and "flushes r"
  shows "\<exists>s'. (if holds_data (fr_p s) then to_stdout r s else Next s) = Next s' \<and> shown s' = received s'
    \<and> received s' = received s \<and> to_p s' = to_p s \<and> typed s' = typed s \<and> stdineof s' = stdineof s"
proof (cases "holds_data (fr_p s)")
  case True
  note d = drain_all [OF relaysD(2) [OF assms(1)] True]
  then show ?thesis
    using True assms(2) relaysD(4) [OF assms(1)] by (simp add: to_stdout_def flushes_def Let_def)
next
  case False
  then show ?thesis
    using relaysD(4) [OF assms(1)] pending_empty [OF relaysD(2) [OF assms(1)]] by simp
qed

lemma to_sock_flushes:
  assumes "relays s" and "flushes r"
  shows "\<exists>s'. (if holds_data (to_p s) then to_sock r s else Next s) = Next s' \<and> sent s' = typed s \<and> shown s' = shown s
    \<and> fins s' = (if stdineof s then 1 else 0)"
proof (cases "holds_data (to_p s)")
  case True
  note d = drain_all [OF relaysD(1) [OF assms(1)] True]
  then show ?thesis
    using True assms(2) relaysD(3,5) [OF assms(1)] by (simp add: to_sock_def flushes_def Let_def Shutdown_def)
next
  case False
  then show ?thesis
    using relaysD(3,5) [OF assms(1)] pending_empty [OF relaysD(1) [OF assms(1)]] by simp
qed

lemma nb_round_flushes:
  assumes "relays s" and "flushes r"
  shows "\<exists>s'. nb_round r s = Next s' \<and> sent s' = typed s \<and> shown s' = received s \<and> fins s' = (if stdineof s then 1 else 0)"
proof -
  obtain s1 where s1: "(if holds_data (fr_p s) then to_stdout r s else Next s) = Next s1" "shown s1 = received s1"
      "received s1 = received s" "to_p s1 = to_p s" "typed s1 = typed s" "stdineof s1 = stdineof s"
    using to_stdout_flushes [OF assms] by blast
  have "stays (if holds_data (fr_p s) then to_stdout r s else Next s)"
    using assms(1) to_stdout_ok by simp
  then have "relays s1"
    unfolding s1(1) by simp
  then obtain s2 where s2: "(if holds_data (to_p s1) then to_sock r s1 else Next s1) = Next s2" "sent s2 = typed s1"
      "shown s2 = shown s1" "fins s2 = (if stdineof s1 then 1 else 0)"
    using to_sock_flushes [OF _ assms(2)] by blast
  have "nb_round r s = Next s2"
    using assms(2) s1(1) s2(1) unfolding s1(4) by (simp add: nb_round_def flushes_def)
  then show ?thesis
    using s1 s2 by simp
qed

text \<open>
  \<^verbatim>\<open>connect_nonb\<close> returns 0 exactly when the connection is established, at once or in time; the flags of
  the socket are then as before. After a failure the socket is closed, unless the connect failed at
  once or \<^verbatim>\<open>getsockopt\<close> failed: then it is left open, and non-blocking.
\<close>

lemma connect_nonb_result:
  assumes "connect_nonb a s = Ret (n, error, s')" and "is_open s"
  shows "(n = 0 \<longleftrightarrow> a_connect a = None \<or> a_connect a = Some EINPROGRESS \<and> (\<exists>r w. a_select a = Ready r w \<and> (r \<or> w)) \<and> a_sockerr a = Inr None)
    \<and> (if n = 0 then error = None \<and> s' = s
       else n = -1 \<and> error \<noteq> None
         \<and> (is_open s' \<longleftrightarrow> a_connect a \<noteq> Some EINPROGRESS \<or> a_select a \<noteq> Timeout \<and> (\<exists>e. a_sockerr a = Inl e))
         \<and> (is_open s' \<longrightarrow> nonblock s'))"
  using assms
  by (cases s; cases s'; cases "a_select a"; cases error) (auto simp: connect_nonb_def connect_done_def Let_def split: if_splits option.splits sum.splits)

lemma connect_timeo_result:
  "connect_timeo nsec answer None s =
     (case answer of None \<Rightarrow> 0 | Some e \<Rightarrow> -1, map_option (\<lambda>e. if e = EINTR then ETIMEDOUT else e) answer, alarm_left s \<noteq> 0,
      s\<lparr>alarm_left := 0, t_open := (answer = None \<and> t_open s)\<rparr>)"
  by (cases s) (auto simp: connect_timeo_def Let_def split: option.splits)

section \<open>Properties\<close>

text \<open>
  (C15) The non-blocking client, whatever \<^verbatim>\<open>select\<close> reports and whatever each call answers: it never
  leaves its buffers; while it runs, what was sent is what was typed up to what is still in the first
  buffer, what was shown is what was received up to what is still in the second, the sending side is
  shut down exactly once, when input has ended and all of it is sent, and \<^verbatim>\<open>select\<close> is never called
  with empty sets; a round in which both descriptors take everything empties both buffers. It returns
  only after the end of input, but without writing what is still in the second buffer, so what the
  server sent last may be lost.
\<close>

theorem nonblocking_client:
  assumes "length to = MAXLINE" and "length fr = MAXLINE"
  shows "ends_well
      (\<lambda>s. relays s \<and> (wants_stdin s \<or> wants_sock s \<or> holds_data (to_p s) \<or> holds_data (fr_p s))
         \<and> (\<forall>r. flushes r \<longrightarrow> (\<exists>s'. nb_round r s = Next s' \<and> sent s' = typed s \<and> shown s' = received s
               \<and> fins s' = (if stdineof s then 1 else 0))))
      (\<lambda>s. relays s \<and> stdineof s) (nb_run rs (nb_start to fr))
    \<and> (\<exists>rs s. nb_run rs (nb_start to fr) = Returns s \<and> shown s \<noteq> received s)"
proof
  have "wants_sock s \<or> holds_data (fr_p s)" if "relays s" for s
    using relaysD(2) [OF that] by (auto simp: wants_sock_def holds_data_def pipe_ok_def MAXLINE_def)
  then show "ends_well
      (\<lambda>s. relays s \<and> (wants_stdin s \<or> wants_sock s \<or> holds_data (to_p s) \<or> holds_data (fr_p s))
         \<and> (\<forall>r. flushes r \<longrightarrow> (\<exists>s'. nb_round r s = Next s' \<and> sent s' = typed s \<and> shown s' = received s
               \<and> fins s' = (if stdineof s then 1 else 0))))
      (\<lambda>s. relays s \<and> stdineof s) (nb_run rs (nb_start to fr))"
    using nb_run_ok [OF nb_start_ok [OF assms], of rs] nb_round_flushes by (cases "nb_run rs (nb_start to fr)") auto
  let ?r1 = "\<lparr>rs_stdin = True, rs_sock = True, ws_sock = False, ws_stdout = False, a_stdin = Got [], a_sock = Got [1],
      a_stdout = Wblock, a_write = Wblock, a_shutdown = True\<rparr>"
  let ?r2 = "?r1\<lparr>rs_stdin := False, a_sock := Got []\<rparr>"
  have "\<exists>s. nb_run [?r1, ?r2] (nb_start to fr) = Returns s \<and> shown s = [] \<and> received s = [1]"
    using assms by (simp add: nb_round_def nb_start_def wants_stdin_def wants_sock_def holds_data_def from_stdin_def from_sock_def
        to_stdout_def room_def Shutdown_def fill_def memcpy_at_def MAXLINE_def Let_def)
  then show "\<exists>rs s. nb_run rs (nb_start to fr) = Returns s \<and> shown s \<noteq> received s"
    by (metis list.distinct(1))
qed

definition some_rounds :: "nround list" where
  "some_rounds =
     [\<lparr>rs_stdin = True, rs_sock = False, ws_sock = False, ws_stdout = False, a_stdin = Got [65, 66, 10], a_sock = Rblock,
       a_stdout = Wblock, a_write = Took 2, a_shutdown = True\<rparr>,
      \<lparr>rs_stdin = True, rs_sock = True, ws_sock = False, ws_stdout = False, a_stdin = Got [], a_sock = Got [65, 66],
       a_stdout = Took 1, a_write = Took 2, a_shutdown = True\<rparr>]"

theorem nonblocking_client_witness:
  "\<exists>s. nb_run some_rounds (nb_start (replicate MAXLINE 0) (replicate MAXLINE 0)) = Next s \<and> relays s
    \<and> sent s = [65, 66] \<and> pending (to_p s) = [10] \<and> shown s = [65] \<and> pending (fr_p s) = [66] \<and> fins s = 0"
proof -
  have "\<exists>s. nb_run some_rounds (nb_start (replicate MAXLINE 0) (replicate MAXLINE 0)) = Next s
    \<and> sent s = [65, 66] \<and> pending (to_p s) = [10] \<and> shown s = [65] \<and> pending (fr_p s) = [66] \<and> fins s = 0"
    by (simp add: some_rounds_def nb_round_def nb_start_def wants_stdin_def wants_sock_def holds_data_def from_stdin_def
        from_sock_def to_stdout_def to_sock_def room_def Shutdown_def fill_def memcpy_at_def MAXLINE_def Let_def drain_def
        pending_def)
  then show ?thesis
    using nonblocking_client [of "replicate MAXLINE 0" "replicate MAXLINE 0" some_rounds] by auto
qed

end
