(* ===== verification/Fd_Pass.thy ===== *)
theory Fd_Pass
  imports Prelude
begin

text \<open>
  Passing a descriptor over a stream pipe: \<^verbatim>\<open>write_fd\<close> and \<^verbatim>\<open>read_fd\<close> of the library. A descriptor is named
  by what it refers to, since its number may differ between the processes.
\<close>

section \<open>Passing a descriptor\<close>

record cmsghdr =
  cmsg_len :: nat
  cmsg_level :: nat
  cmsg_type :: nat
  cmsg_data :: int

record message =
  m_data :: "u8 list"
  m_control :: "cmsghdr list"

text \<open>\<^verbatim>\<open>CMSG_LEN(sizeof(int))\<close> with the header of a 64-bit system.\<close>

definition CMSG_LEN_int :: nat where
  "CMSG_LEN_int = 20"

definition SOL_SOCKET :: nat where
  "SOL_SOCKET = 1"

definition SCM_RIGHTS :: nat where
  "SCM_RIGHTS = 1"

definition write_fd :: "u8 list \<Rightarrow> int \<Rightarrow> message" where
  "write_fd bytes sendfd =
     \<lparr>m_data = bytes,
      m_control = [\<lparr>cmsg_len = CMSG_LEN_int, cmsg_level = SOL_SOCKET, cmsg_type = SCM_RIGHTS, cmsg_data = sendfd\<rparr>]\<rparr>"

text \<open>
  What \<^verbatim>\<open>recvmsg\<close> gives: an error, the end of file, or a message. \<^verbatim>\<open>read_fd\<close> returns the number of bytes
  and the descriptor, which is not set when there are no bytes.
\<close>

datatype recvmsg = Recv_error | Recv_eof | Recv_msg message

definition read_fd :: "nat \<Rightarrow> recvmsg \<Rightarrow> (int \<times> int option) outcome" where
  "read_fd nbytes r =
     (case r of
        Recv_error \<Rightarrow> Ret (-1, None)
      | Recv_eof \<Rightarrow> Ret (0, None)
      | Recv_msg m \<Rightarrow>
          (let n = int (min nbytes (length (m_data m))) in
           if n \<le> 0 then Ret (n, None)
           else
             (case m_control m of
                [] \<Rightarrow> Ret (n, Some (-1))
              | c # _ \<Rightarrow>
                  if cmsg_len c = CMSG_LEN_int then
                    if cmsg_level c \<noteq> SOL_SOCKET then Exits ''control level != SOL_SOCKET''
                    else if cmsg_type c \<noteq> SCM_RIGHTS then Exits ''control type != SCM_RIGHTS''
                    else Ret (n, Some (cmsg_data c))
                  else Ret (n, Some (-1)))))"

definition Read_fd :: "nat \<Rightarrow> recvmsg \<Rightarrow> (int \<times> int option) outcome" where
  "Read_fd nbytes r = bind_outcome (read_fd nbytes r) (\<lambda>(n, fd). if n < 0 then Exits ''read_fd error'' else Ret (n, fd))"

lemma Read_write_fd: "0 \<le> fd \<Longrightarrow> Read_fd 1 (Recv_msg (write_fd [b] fd)) = Ret (1, Some fd)"
  by (simp add: Read_fd_def read_fd_def write_fd_def)

end
