(* ===== verification/Prefork.thy ===== *)
theory Prefork
  imports Mux Fd_Pass "HOL-Library.Multiset"
begin

text \<open>
  The preforked server of \<^verbatim>\<open>server/serv05.c\<close> and \<^verbatim>\<open>server/child05.c\<close>: the parent accepts every connection
  and passes the descriptor to a free child over a stream pipe, with \<^verbatim>\<open>write_fd\<close> and \<^verbatim>\<open>read_fd\<close> of the
  library; a child tells the parent with one byte that it is free again. Parent and children are
  processes and run in any interleaving. A descriptor is named by the connection it refers to, since
  its number may differ between the processes.
\<close>

section \<open>The state\<close>

record Child =
  child_pid :: int
  child_pipefd :: int
  child_status :: nat
  child_count :: nat

text \<open>A child reads from its pipe, serves a connection, or is about to write to its pipe.\<close>

datatype proc = Reading | Serving int | Telling

text \<open>
  The variables of the parent, the children, and for each of the stream pipes the messages on their way
  to the child and the number of bytes on their way to the parent. Below that what happened: the
  connections accepted and those served.
\<close>

record serv05 =
  cptr :: "Child list"
  navail :: int
  procs :: "nat \<Rightarrow> proc"
  down :: "nat \<Rightarrow> message list"
  up :: "nat \<Rightarrow> nat"
  accepted :: "int list"
  served :: "int list"

abbreviation nchildren :: "serv05 \<Rightarrow> nat" where
  "nchildren s \<equiv> length (cptr s)"

text \<open>\<^verbatim>\<open>child_make\<close> forks a child; the pairs are its process id and the parent's end of its pipe.\<close>

definition child_make :: "int \<times> int \<Rightarrow> Child" where
  "child_make p = \<lparr>child_pid = fst p, child_pipefd = snd p, child_status = 0, child_count = 0\<rparr>"

definition serv05_start :: "(int \<times> int) list \<Rightarrow> serv05" where
  "serv05_start ps =
     \<lparr>cptr = map child_make ps, navail = int (length ps), procs = (\<lambda>i. Reading), down = (\<lambda>i. []), up = (\<lambda>i. 0),
      accepted = [], served = []\<rparr>"

section \<open>The parent\<close>

text \<open>
  What \<^verbatim>\<open>select\<close> reports: a connection to accept, and for each pipe nothing, a byte, or that the child
  has ended. Descriptors that become ready later are reported next time.
\<close>

datatype pipe_event = Byte | Hangup

record selected =
  s_listen :: "int option"
  s_pipes :: "nat \<Rightarrow> pipe_event option"

definition give_away :: "int \<Rightarrow> serv05 \<Rightarrow> serv05 outcome" where
  "give_away connfd s =
     (case place (\<lambda>c. child_status c = 0) (\<lambda>c. c\<lparr>child_status := 1, child_count := child_count c + 1\<rparr>) (cptr s) of
        None \<Rightarrow> Exits ''no available children''
      | Some (i, cs) \<Rightarrow>
          Ret (s\<lparr>cptr := cs, navail := navail s - 1, down := (down s)(i := down s i @ [write_fd [0] connfd]),
                 accepted := accepted s @ [connfd]\<rparr>))"

text \<open>The loop over the children, from index \<open>i\<close> on; \<open>nsel\<close> counts down what is left to do.\<close>

fun newly_available :: "(nat \<Rightarrow> pipe_event option) \<Rightarrow> nat list \<Rightarrow> int \<Rightarrow> serv05 \<Rightarrow> serv05 outcome" where
  "newly_available evs [] nsel s = Ret s"
| "newly_available evs (i # is) nsel s =
     (case evs i of
        None \<Rightarrow> newly_available evs is nsel s
      | Some Hangup \<Rightarrow> Exits (''child '' @ show_dec i @ '' terminated unexpectedly'')
      | Some Byte \<Rightarrow>
          (let s = s\<lparr>cptr := (cptr s)[i := (cptr s ! i)\<lparr>child_status := 0\<rparr>], navail := navail s + 1,
                     up := (up s)(i := up s i - 1)\<rparr> in
           if nsel - 1 = 0 then Ret s else newly_available evs is (nsel - 1) s))"

definition serv05_round :: "selected \<Rightarrow> serv05 \<Rightarrow> serv05 outcome" where
  "serv05_round r s =
     (let pipes = length (filter (\<lambda>i. s_pipes r i \<noteq> None) [0..<nchildren s]);
          rest = (\<lambda>nsel. newly_available (s_pipes r) [0..<nchildren s] nsel) in
      case (if navail s \<le> 0 then None else s_listen r) of
        None \<Rightarrow> rest (int pipes) s
      | Some connfd \<Rightarrow>
          bind_outcome (give_away connfd s) (\<lambda>s. if int pipes = 0 then Ret s else rest (int pipes) s))"

section \<open>A child\<close>

text \<open>\<^verbatim>\<open>child_main\<close>: read a descriptor, serve and close it, tell the parent.\<close>

definition child_main :: "nat \<Rightarrow> serv05 \<Rightarrow> serv05 outcome" where
  "child_main i s =
     (case procs s i of
        Reading \<Rightarrow>
          (case down s i of
             [] \<Rightarrow> Blocks
           | m # ms \<Rightarrow>
               bind_outcome (Read_fd 1 (Recv_msg m)) (\<lambda>(n, fd).
                 if n = 0 then Exits ''read_fd returned 0''
                 else
                   (case fd of
                      None \<Rightarrow> Exits ''no descriptor from read_fd''
                    | Some connfd \<Rightarrow>
                        if connfd < 0 then Exits ''no descriptor from read_fd''
                        else Ret (s\<lparr>procs := (procs s)(i := Serving connfd), down := (down s)(i := ms)\<rparr>))))
      | Serving connfd \<Rightarrow> Ret (s\<lparr>procs := (procs s)(i := Telling), served := served s @ [connfd]\<rparr>)
      | Telling \<Rightarrow> Ret (s\<lparr>procs := (procs s)(i := Reading), up := (up s)(i := up s i + 1)\<rparr>))"

text \<open>
  The runs. \<^verbatim>\<open>select\<close> reports a pipe only if there is a byte in it, and as long as the children live no
  hangup; \<^verbatim>\<open>accept\<close> gives descriptors.
\<close>

definition reports :: "selected \<Rightarrow> serv05 \<Rightarrow> bool" where
  "reports r s \<longleftrightarrow> (\<forall>i<nchildren s. s_pipes r i = None \<or> s_pipes r i = Some Byte \<and> 0 < up s i) \<and> (\<forall>c. s_listen r = Some c \<longrightarrow> 0 \<le> c)"

inductive serv05_run :: "(int \<times> int) list \<Rightarrow> serv05 \<Rightarrow> bool" for ps where
  start: "serv05_run ps (serv05_start ps)"
| parent: "serv05_run ps s \<Longrightarrow> reports r s \<Longrightarrow> serv05_round r s = Ret s' \<Longrightarrow> serv05_run ps s'"
| child: "serv05_run ps s \<Longrightarrow> i < nchildren s \<Longrightarrow> child_main i s = Ret s' \<Longrightarrow> serv05_run ps s'"

section \<open>The invariant\<close>

text \<open>A free child waits for a descriptor; a busy one has a descriptor before it, or has given its byte.\<close>

definition child_ok :: "nat \<Rightarrow> proc \<Rightarrow> message list \<Rightarrow> nat \<Rightarrow> bool" where
  "child_ok st p d u \<longleftrightarrow>
     st = 0 \<and> p = Reading \<and> d = [] \<and> u = 0 \<or>
     st = 1 \<and> (p = Reading \<and> (\<exists>fd\<ge>0. d = [write_fd [0] fd]) \<and> u = 0 \<or> p \<noteq> Reading \<and> d = [] \<and> u = 0 \<or> p = Reading \<and> d = [] \<and> u = 1)"

text \<open>The connections child \<open>i\<close> is given and has not yet served.\<close>

fun serving :: "proc \<Rightarrow> int multiset" where
  "serving (Serving c) = {#c#}"
| "serving p = {#}"

definition in_work :: "serv05 \<Rightarrow> nat \<Rightarrow> int multiset" where
  "in_work s i = serving (procs s i) + mset (map (\<lambda>m. cmsg_data (hd (m_control m))) (down s i))"

definition serv05_ok :: "serv05 \<Rightarrow> bool" where
  "serv05_ok s \<longleftrightarrow> (\<forall>i<nchildren s. child_ok (child_status (cptr s ! i)) (procs s i) (down s i) (up s i))
     \<and> navail s = int (length (filter (\<lambda>c. child_status c = 0) (cptr s)))
     \<and> mset (accepted s) = mset (served s) + (\<Sum>i<nchildren s. in_work s i)
     \<and> sum_list (map child_count (cptr s)) = length (accepted s)"

lemma serv05_okI:
  assumes "\<And>i. i < nchildren s \<Longrightarrow> child_ok (child_status (cptr s ! i)) (procs s i) (down s i) (up s i)"
    and "navail s = int (length (filter (\<lambda>c. child_status c = 0) (cptr s)))"
    and "mset (accepted s) = mset (served s) + (\<Sum>i<nchildren s. in_work s i)"
    and "sum_list (map child_count (cptr s)) = length (accepted s)"
  shows "serv05_ok s"
  unfolding serv05_ok_def using assms by (intro conjI) auto

lemma serv05_okD:
  assumes "serv05_ok s"
  shows "i < nchildren s \<Longrightarrow> child_ok (child_status (cptr s ! i)) (procs s i) (down s i) (up s i)"
    and "navail s = int (length (filter (\<lambda>c. child_status c = 0) (cptr s)))"
    and "mset (accepted s) = mset (served s) + (\<Sum>i<nchildren s. in_work s i)"
    and "sum_list (map child_count (cptr s)) = length (accepted s)"
  using assms unfolding serv05_ok_def by - (elim conjE, (assumption | blast))+

text \<open>A step that changes the situation of one child.\<close>

lemma work_change:
  assumes "mset (accepted s) = mset (served s) + (\<Sum>i<nchildren s. in_work s i)" and "i < nchildren s" and "nchildren s' = nchildren s"
    and "\<And>j. j \<noteq> i \<Longrightarrow> procs s' j = procs s j \<and> down s' j = down s j"
    and "mset (accepted s') + mset (served s) + in_work s i = mset (accepted s) + mset (served s') + in_work s' i"
  shows "mset (accepted s') = mset (served s') + (\<Sum>i<nchildren s'. in_work s' i)"
proof -
  have "(\<Sum>j<nchildren s. in_work s' j) + in_work s i = (\<Sum>j<nchildren s. in_work s j) + in_work s' i"
    using assms(2,4) by (intro sum_change) (simp_all add: in_work_def)
  then have "mset (served s) + in_work s i + mset (accepted s') = mset (served s) + in_work s i + (mset (served s') + (\<Sum>j<nchildren s. in_work s' j))"
    using assms(1,5) by (simp add: ac_simps)
  then show ?thesis
    unfolding assms(3) by simp
qed

lemma give_away_ok:
  assumes "serv05_ok s" and "0 < navail s" and "0 \<le> connfd"
  shows "\<exists>s'. give_away connfd s = Ret s' \<and> serv05_ok s' \<and> nchildren s' = nchildren s \<and> up s' = up s
    \<and> accepted s' = accepted s @ [connfd] \<and> served s' = served s"
proof -
  note s = serv05_okD [OF assms(1)]
  let ?P = "\<lambda>c. child_status c = 0" and ?st = "\<lambda>c. c\<lparr>child_status := 1, child_count := child_count c + 1\<rparr>"
  have "filter ?P (cptr s) \<noteq> []"
    using s(2) assms(2) by auto
  then have "place ?P ?st (cptr s) \<noteq> None"
    unfolding place_None by (simp add: filter_empty_conv)
  then obtain i cs where p: "place ?P ?st (cptr s) = Some (i, cs)"
    by auto
  note u = place_update [OF p]
  have free: "procs s i = Reading" "down s i = []" "up s i = 0"
    using s(1) [OF u(1)] u(2) by (simp_all add: child_ok_def)
  let ?s = "s\<lparr>cptr := cs, navail := navail s - 1, down := (down s)(i := [write_fd [0] connfd]), accepted := accepted s @ [connfd]\<rparr>"
  have "give_away connfd s = Ret ?s"
    unfolding give_away_def p by (simp add: free)
  moreover have "serv05_ok ?s"
  proof (rule serv05_okI)
    show "child_ok (child_status (cptr ?s ! j)) (procs ?s j) (down ?s j) (up ?s j)" if "j < nchildren ?s" for j
      using s(1) [of j] that assms(3) free u(1) by (auto simp: u(3) nth_list_update child_ok_def)
    show "navail ?s = int (length (filter ?P (cptr ?s)))"
      using count_change [OF u(1), of ?P "?st (cptr s ! i)"] u(2) s(2) by (simp add: u(3))
    show "mset (accepted ?s) = mset (served ?s) + (\<Sum>i<nchildren ?s. in_work ?s i)"
      using u(1) free by (intro work_change [OF s(3) u(1)]) (auto simp: u(3) in_work_def write_fd_def)
    show "sum_list (map child_count (cptr ?s)) = length (accepted ?s)"
      using sum_list_change [OF u(1), of child_count "?st (cptr s ! i)"] s(4) by (simp add: u(3))
  qed
  ultimately show ?thesis
    using u(3) by simp
qed

lemma one_available_ok:
  assumes "serv05_ok s" and "i < nchildren s" and "0 < up s i"
  shows "serv05_ok (s\<lparr>cptr := (cptr s)[i := (cptr s ! i)\<lparr>child_status := 0\<rparr>], navail := navail s + 1, up := (up s)(i := up s i - 1)\<rparr>)"
    (is "serv05_ok ?s")
proof (rule serv05_okI)
  note s = serv05_okD [OF assms(1)]
  have busy: "child_status (cptr s ! i) = 1" "procs s i = Reading" "down s i = []" "up s i = 1"
    using s(1) [OF assms(2)] assms(3) by (auto simp: child_ok_def)
  show "child_ok (child_status (cptr ?s ! j)) (procs ?s j) (down ?s j) (up ?s j)" if "j < nchildren ?s" for j
    using s(1) [of j] that busy by (auto simp: nth_list_update child_ok_def)
  show "navail ?s = int (length (filter (\<lambda>c. child_status c = 0) (cptr ?s)))"
    using count_change [OF assms(2), of "\<lambda>c. child_status c = 0" "(cptr s ! i)\<lparr>child_status := 0\<rparr>"] s(2) busy(1) by simp
  show "mset (accepted ?s) = mset (served ?s) + (\<Sum>i<nchildren ?s. in_work ?s i)"
    using s(3) by (simp add: in_work_def)
  show "sum_list (map child_count (cptr ?s)) = length (accepted ?s)"
    using sum_list_change [OF assms(2), of child_count "(cptr s ! i)\<lparr>child_status := 0\<rparr>"] s(4) by simp
qed

lemma newly_available_ok:
  "serv05_ok s \<Longrightarrow> distinct is \<Longrightarrow> \<forall>i\<in>set is. i < nchildren s \<and> (evs i = None \<or> evs i = Some Byte \<and> 0 < up s i) \<Longrightarrow>
    nsel = int (length (filter (\<lambda>i. evs i \<noteq> None) is)) \<Longrightarrow>
    \<exists>s'. newly_available evs is nsel s = Ret s' \<and> serv05_ok s' \<and> accepted s' = accepted s \<and> served s' = served s
      \<and> (\<forall>i. up s' i = (if i \<in> set is \<and> evs i \<noteq> None then up s i - 1 else up s i))"
proof (induction "is" arbitrary: s nsel)
  case (Cons i "is")
  show ?case
  proof (cases "evs i")
    case None
    then show ?thesis
      using Cons.IH [OF Cons.prems(1)] Cons.prems by auto
  next
    case (Some e)
    then have i: "i < nchildren s" "e = Byte" "0 < up s i"
      using Cons.prems(3) by auto
    let ?s = "s\<lparr>cptr := (cptr s)[i := (cptr s ! i)\<lparr>child_status := 0\<rparr>], navail := navail s + 1, up := (up s)(i := up s i - 1)\<rparr>"
    have ok: "serv05_ok ?s"
      by (rule one_available_ok [OF Cons.prems(1) i(1,3)])
    have rest: "nsel - 1 = int (length (filter (\<lambda>i. evs i \<noteq> None) is))"
      using Cons.prems(4) Some by simp
    show ?thesis
    proof (cases "nsel - 1 = 0")
      case True
      then have "\<forall>j\<in>set is. evs j = None"
        using rest by (auto simp: filter_empty_conv)
      then show ?thesis
        using True Some i(2) ok Cons.prems(2) by (auto simp: Let_def)
    next
      case False
      have "\<forall>j\<in>set is. j < nchildren ?s \<and> (evs j = None \<or> evs j = Some Byte \<and> 0 < up ?s j)"
        using Cons.prems(2,3) by auto
      then obtain s' where s': "newly_available evs is (nsel - 1) ?s = Ret s'" "serv05_ok s'" "accepted s' = accepted ?s"
          "served s' = served ?s" "\<forall>j. up s' j = (if j \<in> set is \<and> evs j \<noteq> None then up ?s j - 1 else up ?s j)"
        using Cons.IH [OF ok _ _ rest] Cons.prems(2) by auto
      have "newly_available evs (i # is) nsel s = Ret s'"
        using s'(1) False Some i(2) by (simp add: Let_def)
      moreover have "\<forall>j. up s' j = (if j \<in> set (i # is) \<and> evs j \<noteq> None then up s j - 1 else up s j)"
        using s'(5) Some Cons.prems(2) by auto
      ultimately show ?thesis
        using s'(2-4) by auto
    qed
  qed
qed simp

lemma newly_available_nchildren: "newly_available evs is nsel s = Ret s' \<Longrightarrow> nchildren s' = nchildren s"
  by (induction evs "is" nsel s rule: newly_available.induct) (auto simp: Let_def split: option.splits pipe_event.splits if_splits)

lemma serv05_round_ok:
  assumes "serv05_ok s" and "reports r s"
  shows "\<exists>s'. serv05_round r s = Ret s' \<and> serv05_ok s' \<and> nchildren s' = nchildren s \<and> served s' = served s
    \<and> accepted s' = accepted s @ (case s_listen r of Some c \<Rightarrow> if 0 < navail s then [c] else [] | None \<Rightarrow> [])
    \<and> (\<forall>i<nchildren s. up s' i = (if s_pipes r i \<noteq> None then up s i - 1 else up s i))"
proof -
  let ?n = "length (filter (\<lambda>i. s_pipes r i \<noteq> None) [0..<nchildren s])"
  have scan: "\<exists>s'. newly_available (s_pipes r) [0..<nchildren s] (int ?n) t = Ret s' \<and> serv05_ok s' \<and> nchildren s' = nchildren s
      \<and> accepted s' = accepted t \<and> served s' = served t \<and> (\<forall>i<nchildren s. up s' i = (if s_pipes r i \<noteq> None then up s i - 1 else up s i))"
    if t: "serv05_ok t" "nchildren t = nchildren s" "up t = up s" for t
  proof -
    have "\<forall>i\<in>set [0..<nchildren s]. i < nchildren t \<and> (s_pipes r i = None \<or> s_pipes r i = Some Byte \<and> 0 < up t i)"
      using assms(2) t(2,3) by (simp add: reports_def)
    from newly_available_ok [OF t(1) distinct_upt this refl] newly_available_nchildren t(2,3) show ?thesis
      by fastforce
  qed
  show ?thesis
  proof (cases "if navail s \<le> 0 then None else s_listen r")
    case None
    then have "(case s_listen r of Some c \<Rightarrow> if 0 < navail s then [c] else [] | None \<Rightarrow> []) = []"
      by (auto split: if_splits option.splits)
    then show ?thesis
      using scan [OF assms(1) refl refl] unfolding serv05_round_def Let_def None by auto
  next
    case (Some c)
    then have c: "0 < navail s" "s_listen r = Some c" "0 \<le> c"
      using assms(2) by (auto simp: reports_def split: if_splits)
    obtain t where t: "give_away c s = Ret t" "serv05_ok t" "nchildren t = nchildren s" "up t = up s" "accepted t = accepted s @ [c]"
        "served t = served s"
      using give_away_ok [OF assms(1) c(1,3)] by blast
    show ?thesis
    proof (cases "int ?n = 0")
      case True
      then have "\<forall>i<nchildren s. s_pipes r i = None"
        by (simp add: filter_empty_conv)
      then show ?thesis
        unfolding serv05_round_def Let_def Some using True t c by simp
    next
      case False
      then show ?thesis
        unfolding serv05_round_def Let_def Some using scan [OF t(2-4)] t(1,5,6) c by auto
    qed
  qed
qed

lemma child_main_ok:
  assumes "serv05_ok s" and "i < nchildren s"
  shows "child_main i s = Blocks \<and> procs s i = Reading \<and> down s i = [] \<or> (\<exists>s'. child_main i s = Ret s' \<and> serv05_ok s' \<and> nchildren s' = nchildren s)"
proof -
  note s = serv05_okD [OF assms(1)] and i = serv05_okD(1) [OF assms]
  have keep: "serv05_ok s'"
    if "cptr s' = cptr s" "navail s' = navail s" "accepted s' = accepted s" "child_ok (child_status (cptr s ! i)) (procs s' i) (down s' i) (up s' i)"
      "\<And>j. j \<noteq> i \<Longrightarrow> procs s' j = procs s j \<and> down s' j = down s j \<and> up s' j = up s j"
      "mset (served s) + in_work s i = mset (served s') + in_work s' i" for s'
  proof (rule serv05_okI)
    show "child_ok (child_status (cptr s' ! j)) (procs s' j) (down s' j) (up s' j)" if "j < nchildren s'" for j
      using s(1) [of j] that \<open>cptr s' = cptr s\<close> \<open>child_ok _ (procs s' i) _ _\<close> \<open>\<And>j. j \<noteq> i \<Longrightarrow> procs s' j = procs s j \<and> _\<close>
      by (cases "j = i") auto
    show "mset (accepted s') = mset (served s') + (\<Sum>i<nchildren s'. in_work s' i)"
      using that assms(2) by (intro work_change [OF s(3) assms(2)]) (auto simp: ac_simps)
  qed (use s(2,4) that in simp_all)
  show ?thesis
  proof (cases "procs s i")
    case Reading
    show ?thesis
    proof (cases "down s i")
      case (Cons m ms)
      then obtain fd where fd: "0 \<le> fd" "m = write_fd [0] fd" "ms = []" "child_status (cptr s ! i) = 1" "up s i = 0"
        using i by (auto simp: child_ok_def)
      have "serv05_ok (s\<lparr>procs := (procs s)(i := Serving fd), down := (down s)(i := [])\<rparr>)"
        using fd Reading Cons by (intro keep) (auto simp: child_ok_def in_work_def write_fd_def)
      then show ?thesis
        using Reading Cons fd by (simp add: child_main_def Read_write_fd [simplified])
    qed (use Reading in \<open>simp add: child_main_def\<close>)
  next
    case (Serving c)
    then have "child_status (cptr s ! i) = 1" "down s i = []" "up s i = 0"
      using i by (auto simp: child_ok_def)
    then have "serv05_ok (s\<lparr>procs := (procs s)(i := Telling), served := served s @ [c]\<rparr>)"
      using Serving by (intro keep) (auto simp: child_ok_def in_work_def)
    then show ?thesis
      using Serving by (simp add: child_main_def)
  next
    case Telling
    then have "child_status (cptr s ! i) = 1" "down s i = []" "up s i = 0"
      using i by (auto simp: child_ok_def)
    then have "serv05_ok (s\<lparr>procs := (procs s)(i := Reading), up := (up s)(i := up s i + 1)\<rparr>)"
      using Telling by (intro keep) (auto simp: child_ok_def in_work_def)
    then show ?thesis
      using Telling by (simp add: child_main_def)
  qed
qed

lemma serv05_start_ok: "serv05_ok (serv05_start ps)"
proof (rule serv05_okI)
  have "sum_list (map child_count (map child_make qs)) = 0" "filter (\<lambda>c. child_status c = 0) (map child_make qs) = map child_make qs" for qs
    by (induction qs) (simp_all add: child_make_def)
  then show "sum_list (map child_count (cptr (serv05_start ps))) = length (accepted (serv05_start ps))"
    "navail (serv05_start ps) = int (length (filter (\<lambda>c. child_status c = 0) (cptr (serv05_start ps))))"
    by (simp_all add: serv05_start_def)
qed (simp_all add: serv05_start_def child_ok_def child_make_def in_work_def)

lemma serv05_run_ok: "serv05_run ps s \<Longrightarrow> serv05_ok s \<and> nchildren s = length ps"
proof (induction rule: serv05_run.induct)
  case start
  then show ?case
    using serv05_start_ok by (simp add: serv05_start_def)
next
  case (parent s r s')
  then show ?case
    using serv05_round_ok [of s r] by auto
next
  case (child s i s')
  then show ?case
    using child_main_ok [of s i] by auto
qed

section \<open>Properties\<close>

text \<open>
  (C3) In every state of every interleaving of the parent and its children: each accepted connection
  has been served, or is on its way to or in the hands of exactly one child; \<^verbatim>\<open>navail\<close> counts the free
  children and the counters add up to the number of connections; a busy child can go on or has its byte
  in the pipe. Whatever \<^verbatim>\<open>select\<close> reports, the parent goes on: it never runs into the exit for missing
  children, it accepts a reported connection exactly when a child is free, and takes the byte of every
  reported child, although both loops leave early. No child ever runs into one of its exits.
\<close>

theorem preforked_server:
  assumes "serv05_run ps s" and "reports r s"
  shows "mset (accepted s) = mset (served s) + (\<Sum>i<length ps. in_work s i)
    \<and> navail s = int (card {i. i < length ps \<and> child_status (cptr s ! i) = 0})
    \<and> sum_list (map child_count (cptr s)) = length (accepted s)
    \<and> (\<forall>i<length ps. size (in_work s i) \<le> 1 \<and> (child_status (cptr s ! i) = 0 \<longrightarrow> in_work s i = {#})
         \<and> (\<forall>m. child_main i s \<noteq> Exits m) \<and> (child_status (cptr s ! i) \<noteq> 0 \<longrightarrow> child_main i s \<noteq> Blocks \<or> 0 < up s i))
    \<and> (\<exists>s'. serv05_round r s = Ret s' \<and> served s' = served s
         \<and> accepted s' = accepted s @ (case s_listen r of Some c \<Rightarrow> if 0 < navail s then [c] else [] | None \<Rightarrow> [])
         \<and> (\<forall>i<length ps. up s' i = (if s_pipes r i \<noteq> None then up s i - 1 else up s i)))"
proof -
  have ok: "serv05_ok s" and n: "nchildren s = length ps"
    using serv05_run_ok [OF assms(1)] by simp_all
  note s = serv05_okD [OF ok, unfolded n]
  have "size (in_work s i) \<le> 1 \<and> (child_status (cptr s ! i) = 0 \<longrightarrow> in_work s i = {#})
      \<and> (\<forall>m. child_main i s \<noteq> Exits m) \<and> (child_status (cptr s ! i) \<noteq> 0 \<longrightarrow> child_main i s \<noteq> Blocks \<or> 0 < up s i)"
    if i: "i < length ps" for i
    using s(1) [OF i] child_main_ok [OF ok, of i] i n by (cases "procs s i") (auto simp: child_ok_def in_work_def)
  moreover have "navail s = int (card {i. i < length ps \<and> child_status (cptr s ! i) = 0})"
    using s(2) by (simp add: length_filter_conv_card n)
  ultimately show ?thesis
    using s(3,4) serv05_round_ok [OF ok assms(2)] unfolding n by blast
qed

definition a_call :: selected where
  "a_call = \<lparr>s_listen = Some 5, s_pipes = (\<lambda>i. None)\<rparr>"

theorem preforked_server_witness:
  "\<exists>s. serv05_run [(100, 10), (101, 11)] s \<and> accepted s = [5] \<and> in_work s 0 = {#5#} \<and> navail s = 1
    \<and> (\<exists>s'. serv05_round a_call s = Ret s' \<and> accepted s' = [5, 5])"
proof -
  let ?ps = "[(100, 10), (101, 11)] :: (int \<times> int) list"
  obtain s where s: "serv05_round a_call (serv05_start ?ps) = Ret s"
      "s = (serv05_start ?ps)\<lparr>cptr := [(child_make (100, 10))\<lparr>child_status := 1, child_count := 1\<rparr>, child_make (101, 11)], navail := 1,
             down := (\<lambda>i. [])(0 := [write_fd [0] 5]), accepted := [5]\<rparr>"
    by (simp add: serv05_round_def a_call_def serv05_start_def child_make_def give_away_def Let_def)
  have run: "serv05_run ?ps s"
    by (rule serv05_run.parent [OF serv05_run.start _ s(1)]) (simp add: reports_def a_call_def)
  have "accepted s = [5]" "in_work s 0 = {#5#}" "navail s = 1" "reports a_call s" "s_listen a_call = Some 5"
    by (simp_all add: s(2) serv05_start_def in_work_def write_fd_def reports_def a_call_def)
  then show ?thesis
    using preforked_server [OF run, of a_call] run by (intro exI [of _ s]) auto
qed

end
