(* ===== verification/Prethread.thy ===== *)
theory Prethread
  imports Prelude "HOL-Library.Multiset"
begin

text \<open>
  The prethreaded server of \<^verbatim>\<open>server/serv08.c\<close> and \<^verbatim>\<open>server/pthread08.c\<close>: the main thread accepts
  connections and puts them into the array \<^verbatim>\<open>clifd\<close>, from which a pool of threads takes them, with a
  mutex and a condition variable. The threads are interleaved in any way; each has a program counter,
  and between two program points a thread touches shared variables only while it holds the mutex.
\<close>

section \<open>The state\<close>

definition MAXNCLI :: nat where
  "MAXNCLI = 32"

datatype owner = Main | Thread nat

text \<open>
  Where a thread is. \<open>M_lock\<close> and \<open>T_lock\<close> wait for the mutex, \<open>T_wait\<close> sleeps in \<^verbatim>\<open>Pthread_cond_wait\<close>,
  \<open>T_woken\<close> has been woken and waits for the mutex again. The argument is \<^verbatim>\<open>connfd\<close>.
\<close>

datatype main_pc = M_accept | M_lock int | M_put int | M_signal | M_unlock

datatype thread_pc = T_lock | T_test | T_wait | T_woken | T_take | T_unlock int | T_serve int

text \<open>
  The globals, and what happened: the connections accepted, in order, those taken from the array, in
  order, and those served and closed.
\<close>

record serv08 =
  clifd :: "int list"
  iget :: nat
  iput :: nat
  clifd_mutex :: "owner option"
  mpc :: main_pc
  tpc :: "nat \<Rightarrow> thread_pc"
  thread_count :: "nat \<Rightarrow> nat"
  accepted :: "int list"
  taken :: "int list"
  served :: "int list"

definition serv08_start :: "int list \<Rightarrow> serv08" where
  "serv08_start garbage =
     \<lparr>clifd = garbage, iget = 0, iput = 0, clifd_mutex = None, mpc = M_accept, tpc = (\<lambda>i. T_lock), thread_count = (\<lambda>i. 0),
      accepted = [], taken = [], served = []\<rparr>"

section \<open>The threads\<close>

definition advance :: "nat \<Rightarrow> nat" where
  "advance i = (if i + 1 = MAXNCLI then 0 else i + 1)"

text \<open>
  A step of the main thread. The arguments are the connection \<^verbatim>\<open>Accept\<close> returns and the threads
  \<^verbatim>\<open>Pthread_cond_signal\<close> wakes.
\<close>

definition main_step :: "int \<Rightarrow> nat set \<Rightarrow> serv08 \<Rightarrow> serv08 outcome" where
  "main_step connfd wake s =
     (case mpc s of
        M_accept \<Rightarrow> Ret (s\<lparr>mpc := M_lock connfd, accepted := accepted s @ [connfd]\<rparr>)
      | M_lock c \<Rightarrow> if clifd_mutex s = None then Ret (s\<lparr>clifd_mutex := Some Main, mpc := M_put c\<rparr>) else Blocks
      | M_put c \<Rightarrow>
          (let s = s\<lparr>clifd := (clifd s)[iput s := c], iput := advance (iput s)\<rparr> in
           if iput s = iget s then Exits (''iput = iget = '' @ show_dec (iput s)) else Ret (s\<lparr>mpc := M_signal\<rparr>))
      | M_signal \<Rightarrow>
          Ret (s\<lparr>mpc := M_unlock, tpc := (\<lambda>i. if i \<in> wake \<and> tpc s i = T_wait then T_woken else tpc s i)\<rparr>)
      | M_unlock \<Rightarrow> Ret (s\<lparr>clifd_mutex := None, mpc := M_accept\<rparr>))"

text \<open>A step of \<^verbatim>\<open>thread_main\<close> in thread \<open>i\<close>.\<close>

definition thread_step :: "nat \<Rightarrow> serv08 \<Rightarrow> serv08 outcome" where
  "thread_step i s =
     (let go = (\<lambda>pc s. s\<lparr>tpc := (tpc s)(i := pc)\<rparr>) in
      case tpc s i of
        T_lock \<Rightarrow> if clifd_mutex s = None then Ret (go T_test (s\<lparr>clifd_mutex := Some (Thread i)\<rparr>)) else Blocks
      | T_test \<Rightarrow> if iget s = iput s then Ret (go T_wait (s\<lparr>clifd_mutex := None\<rparr>)) else Ret (go T_take s)
      | T_wait \<Rightarrow> Blocks
      | T_woken \<Rightarrow> if clifd_mutex s = None then Ret (go T_test (s\<lparr>clifd_mutex := Some (Thread i)\<rparr>)) else Blocks
      | T_take \<Rightarrow>
          (let connfd = clifd s ! iget s in
           Ret (go (T_unlock connfd) (s\<lparr>iget := advance (iget s), taken := taken s @ [connfd]\<rparr>)))
      | T_unlock connfd \<Rightarrow>
          Ret (go (T_serve connfd) (s\<lparr>clifd_mutex := None, thread_count := (thread_count s)(i := thread_count s i + 1)\<rparr>))
      | T_serve connfd \<Rightarrow> Ret (go T_lock (s\<lparr>served := served s @ [connfd]\<rparr>)))"

text \<open>
  The runs of the server with \<open>n\<close> threads. \<^verbatim>\<open>Pthread_cond_signal\<close> wakes at least one sleeping thread if
  there is one; a thread may also wake up without a signal.
\<close>

definition signals :: "nat \<Rightarrow> nat set \<Rightarrow> serv08 \<Rightarrow> bool" where
  "signals n wake s \<longleftrightarrow> (\<exists>i<n. tpc s i = T_wait) \<longrightarrow> (\<exists>i<n. i \<in> wake \<and> tpc s i = T_wait)"

inductive serv08_run :: "nat \<Rightarrow> serv08 \<Rightarrow> bool" for n where
  start: "length garbage = MAXNCLI \<Longrightarrow> serv08_run n (serv08_start garbage)"
| main: "serv08_run n s \<Longrightarrow> signals n wake s \<Longrightarrow> main_step connfd wake s = Ret s' \<Longrightarrow> serv08_run n s'"
| thread: "serv08_run n s \<Longrightarrow> i < n \<Longrightarrow> thread_step i s = Ret s' \<Longrightarrow> serv08_run n s'"
| spurious: "serv08_run n s \<Longrightarrow> i < n \<Longrightarrow> tpc s i = T_wait \<Longrightarrow> serv08_run n (s\<lparr>tpc := (tpc s)(i := T_woken)\<rparr>)"

section \<open>The queue\<close>

definition waiting :: "serv08 \<Rightarrow> nat" where
  "waiting s = (iput s + MAXNCLI - iget s) mod MAXNCLI"

definition queue :: "serv08 \<Rightarrow> int list" where
  "queue s = ring (clifd s) (iget s) (waiting s)"

definition ring_ok :: "serv08 \<Rightarrow> bool" where
  "ring_ok s \<longleftrightarrow> length (clifd s) = MAXNCLI \<and> iget s < MAXNCLI \<and> iput s < MAXNCLI"

lemma advance_less: "i < MAXNCLI \<Longrightarrow> advance i < MAXNCLI"
  by (simp add: advance_def MAXNCLI_def)

lemma advance_mod: "i < MAXNCLI \<Longrightarrow> advance i = (i + 1) mod MAXNCLI"
  by (simp add: advance_def MAXNCLI_def mod_Suc)

lemma waiting_cases:
  assumes "ring_ok s"
  shows "waiting s = (if iget s \<le> iput s then iput s - iget s else iput s + MAXNCLI - iget s)"
proof (cases "iget s \<le> iput s")
  case True
  then have "iput s + MAXNCLI - iget s = (iput s - iget s) + MAXNCLI"
    by simp
  then have "waiting s = (iput s - iget s) mod MAXNCLI"
    unfolding waiting_def by (simp only: mod_add_self2)
  moreover have "iput s - iget s < MAXNCLI"
    using assms by (auto simp: ring_ok_def)
  ultimately show ?thesis
    using True by simp
next
  case False
  then have "iput s + MAXNCLI - iget s < MAXNCLI"
    using assms by (auto simp: ring_ok_def)
  then show ?thesis
    using False by (simp add: waiting_def)
qed

lemma waiting_less:
  assumes "ring_ok s" and "advance (iput s) \<noteq> iget s"
  shows "waiting s + 1 < MAXNCLI"
  unfolding waiting_cases [OF assms(1)] using assms by (auto simp: ring_ok_def advance_def MAXNCLI_def split: if_splits)

lemma iput_waiting:
  assumes "ring_ok s"
  shows "(iget s + waiting s) mod MAXNCLI = iput s"
proof -
  have "waiting s < MAXNCLI"
    by (simp add: waiting_def MAXNCLI_def)
  then show ?thesis
    using assms waiting_cases [OF assms] by (subst wrap_around) (auto simp: ring_ok_def)
qed

lemma queue_put:
  assumes "ring_ok s" and "advance (iput s) \<noteq> iget s" and "s' = s\<lparr>clifd := (clifd s)[iput s := c], iput := advance (iput s)\<rparr>"
  shows "queue s' = queue s @ [c]" and "waiting s' = waiting s + 1" and "ring_ok s'"
proof -
  show ok: "ring_ok s'"
    using assms(1,3) advance_less by (simp add: ring_ok_def)
  show w: "waiting s' = waiting s + 1"
    unfolding waiting_cases [OF ok] waiting_cases [OF assms(1)] using assms(1-3)
    by (auto simp: ring_ok_def advance_def split: if_splits)
  show "queue s' = queue s @ [c]"
    using ring_put [of "iget s" "clifd s" "waiting s" c] iput_waiting [OF assms(1)] waiting_less [OF assms(1,2)] assms(1,3)
    unfolding queue_def w by (simp add: ring_ok_def)
qed

lemma queue_take:
  assumes "ring_ok s" and "iget s \<noteq> iput s" and "s' = s\<lparr>iget := advance (iget s)\<rparr>"
  shows "queue s = clifd s ! iget s # queue s'" and "waiting s = waiting s' + 1" and "ring_ok s'"
proof -
  show ok: "ring_ok s'"
    using assms(1,3) advance_less by (simp add: ring_ok_def)
  show w: "waiting s = waiting s' + 1"
    unfolding waiting_cases [OF ok] waiting_cases [OF assms(1)] using assms(1-3)
    by (auto simp: ring_ok_def advance_def split: if_splits)
  show "queue s = clifd s ! iget s # queue s'"
    using ring_take [of "iget s" "clifd s" "waiting s'"] assms(1,3) unfolding queue_def w by (simp add: ring_ok_def advance_mod)
qed

section \<open>The invariant\<close>

text \<open>
  Who is between lock and unlock, which threads will look at the queue before they sleep, and the
  connections main and the threads have in hand.
\<close>

fun main_inside :: "main_pc \<Rightarrow> bool" where
  "main_inside (M_put c) = True"
| "main_inside M_signal = True"
| "main_inside M_unlock = True"
| "main_inside pc = False"

fun inside :: "thread_pc \<Rightarrow> bool" where
  "inside T_test = True"
| "inside T_take = True"
| "inside (T_unlock c) = True"
| "inside pc = False"

fun coming :: "thread_pc \<Rightarrow> bool" where
  "coming T_lock = True"
| "coming T_test = True"
| "coming T_woken = True"
| "coming T_take = True"
| "coming pc = False"

fun main_hand :: "main_pc \<Rightarrow> int list" where
  "main_hand (M_lock c) = [c]"
| "main_hand (M_put c) = [c]"
| "main_hand pc = []"

fun hand :: "thread_pc \<Rightarrow> int multiset" where
  "hand (T_unlock c) = {#c#}"
| "hand (T_serve c) = {#c#}"
| "hand pc = {#}"

definition comers :: "nat \<Rightarrow> (nat \<Rightarrow> thread_pc) \<Rightarrow> nat set" where
  "comers n t = {i. i < n \<and> coming (t i)}"

definition hands :: "nat \<Rightarrow> (nat \<Rightarrow> thread_pc) \<Rightarrow> int multiset" where
  "hands n t = (\<Sum>i<n. hand (t i))"

definition mutex_ok :: "nat \<Rightarrow> serv08 \<Rightarrow> bool" where
  "mutex_ok n s \<longleftrightarrow> (main_inside (mpc s) \<longleftrightarrow> clifd_mutex s = Some Main) \<and> (\<forall>i<n. inside (tpc s i) \<longleftrightarrow> clifd_mutex s = Some (Thread i))
     \<and> (\<forall>i. clifd_mutex s = Some (Thread i) \<longrightarrow> i < n)"

definition wakes_ok :: "nat \<Rightarrow> serv08 \<Rightarrow> bool" where
  "wakes_ok n s \<longleftrightarrow> (\<exists>i<n. tpc s i = T_wait) \<longrightarrow> waiting s \<le> card (comers n (tpc s)) + (if mpc s = M_signal then 1 else 0)"

definition serv08_ok :: "nat \<Rightarrow> serv08 \<Rightarrow> bool" where
  "serv08_ok n s \<longleftrightarrow> ring_ok s \<and> mutex_ok n s \<and> (\<forall>i<n. tpc s i = T_take \<longrightarrow> iget s \<noteq> iput s)
     \<and> accepted s = taken s @ queue s @ main_hand (mpc s) \<and> mset (taken s) = mset (served s) + hands n (tpc s) \<and> wakes_ok n s"

lemma serv08_okI:
  assumes "ring_ok s" and "mutex_ok n s" and "\<And>i. i < n \<Longrightarrow> tpc s i = T_take \<Longrightarrow> iget s \<noteq> iput s"
    and "accepted s = taken s @ queue s @ main_hand (mpc s)" and "mset (taken s) = mset (served s) + hands n (tpc s)" and "wakes_ok n s"
  shows "serv08_ok n s"
  unfolding serv08_ok_def using assms by (intro conjI) auto

lemma serv08_okD:
  assumes "serv08_ok n s"
  shows "ring_ok s" and "mutex_ok n s" and "i < n \<Longrightarrow> tpc s i = T_take \<Longrightarrow> iget s \<noteq> iput s"
    and "accepted s = taken s @ queue s @ main_hand (mpc s)" and "mset (taken s) = mset (served s) + hands n (tpc s)" and "wakes_ok n s"
  using assms unfolding serv08_ok_def by - (elim conjE, (assumption | blast))+

lemma mutex_owner: "mutex_ok n s \<Longrightarrow> i < n \<Longrightarrow> clifd_mutex s = Some (Thread i) \<longleftrightarrow> inside (tpc s i)"
  by (auto simp: mutex_ok_def)

lemma exclusive:
  assumes "mutex_ok n s" and "i < n" and "inside (tpc s i)"
  shows "\<not> main_inside (mpc s)" and "j < n \<Longrightarrow> inside (tpc s j) \<Longrightarrow> j = i"
proof -
  have "clifd_mutex s = Some (Thread i)"
    using mutex_owner [OF assms(1,2)] assms(3) by simp
  then show "\<not> main_inside (mpc s)" "j < n \<Longrightarrow> inside (tpc s j) \<Longrightarrow> j = i"
    using assms(1) mutex_owner [OF assms(1), of j] by (auto simp: mutex_ok_def)
qed

lemma comers_upd: "i < n \<Longrightarrow> comers n (t(i := pc)) = (if coming pc then insert i (comers n t) else comers n t - {i})"
  by (auto simp: comers_def split: if_splits)

lemma finite_comers [simp]: "finite (comers n t)"
  by (simp add: comers_def)

lemma in_comers: "i < n \<Longrightarrow> i \<in> comers n t \<longleftrightarrow> coming (t i)"
  by (simp add: comers_def)

lemma hands_upd:
  assumes "i < n"
  shows "hands n (t(i := pc)) + hand (t i) = hands n t + hand pc"
  unfolding hands_def using sum_change [OF assms, of "\<lambda>j. hand ((t(i := pc)) j)" "\<lambda>j. hand (t j)"] by simp

lemma queue_cong: "clifd s' = clifd s \<Longrightarrow> iget s' = iget s \<Longrightarrow> iput s' = iput s \<Longrightarrow> queue s' = queue s \<and> waiting s' = waiting s \<and> ring_ok s' = ring_ok s"
  by (simp add: queue_def waiting_def ring_ok_def)

text \<open>A step that leaves the array and the threads alone.\<close>

lemma main_moves:
  assumes "serv08_ok n s" and "mutex_ok n (s\<lparr>clifd_mutex := m, mpc := pc\<rparr>)" and "mpc s \<noteq> M_signal" and "main_hand pc = main_hand (mpc s) @ new"
  shows "serv08_ok n (s\<lparr>clifd_mutex := m, mpc := pc, accepted := accepted s @ new\<rparr>)" (is "serv08_ok n ?s")
proof (rule serv08_okI)
  note s = serv08_okD [OF assms(1)]
  have q: "queue ?s = queue s" "waiting ?s = waiting s" "ring_ok ?s = ring_ok s"
    using queue_cong [of ?s s] by simp_all
  show "ring_ok ?s" "accepted ?s = taken ?s @ queue ?s @ main_hand (mpc ?s)" "mset (taken ?s) = mset (served ?s) + hands n (tpc ?s)"
    unfolding q using s assms(4) by simp_all
  show "mutex_ok n ?s"
    using assms(2) by (simp add: mutex_ok_def)
  show "iget ?s \<noteq> iput ?s" if "i < n" "tpc ?s i = T_take" for i
    using s(3) that by simp
  show "wakes_ok n ?s"
    using s(6) assms(3) unfolding wakes_ok_def q by auto
qed

lemma main_locks:
  assumes "serv08_ok n s" and "mutex_ok n (s\<lparr>clifd_mutex := m, mpc := pc\<rparr>)" and "mpc s \<noteq> M_signal" and "main_hand pc = main_hand (mpc s)"
  shows "serv08_ok n (s\<lparr>clifd_mutex := m, mpc := pc\<rparr>)"
  using main_moves [OF assms(1-3), of "[]"] assms(4) by (cases s) simp

lemma main_puts:
  assumes "serv08_ok n s" and "mpc s = M_put c" and "advance (iput s) \<noteq> iget s"
  shows "serv08_ok n (s\<lparr>clifd := (clifd s)[iput s := c], iput := advance (iput s), mpc := M_signal\<rparr>)" (is "serv08_ok n ?s")
proof (rule serv08_okI)
  note s = serv08_okD [OF assms(1)]
  let ?p = "s\<lparr>clifd := (clifd s)[iput s := c], iput := advance (iput s)\<rparr>"
  note p = queue_put [OF s(1) assms(3) refl, of c]
  have q: "queue ?s = queue ?p" "waiting ?s = waiting ?p" "ring_ok ?s = ring_ok ?p"
    using queue_cong [of ?s ?p] by simp_all
  show "ring_ok ?s" "accepted ?s = taken ?s @ queue ?s @ main_hand (mpc ?s)" "mset (taken ?s) = mset (served ?s) + hands n (tpc ?s)"
    unfolding q p(1) using p(3) s assms(2) by simp_all
  show "mutex_ok n ?s"
    using s(2) assms(2) by (simp add: mutex_ok_def)
  show "iget ?s \<noteq> iput ?s" if "i < n" "tpc ?s i = T_take" for i
    using assms(3) by simp
  show "wakes_ok n ?s"
    using s(6) assms(2) unfolding wakes_ok_def q p(2) by simp
qed

lemma main_wakes:
  assumes "serv08_ok n s" and "mpc s = M_signal" and "signals n wake s"
  shows "serv08_ok n (s\<lparr>mpc := M_unlock, tpc := (\<lambda>i. if i \<in> wake \<and> tpc s i = T_wait then T_woken else tpc s i)\<rparr>)" (is "serv08_ok n ?s")
proof (rule serv08_okI)
  note s = serv08_okD [OF assms(1)]
  have q: "queue ?s = queue s" "waiting ?s = waiting s" "ring_ok ?s = ring_ok s"
    using queue_cong [of ?s s] by simp_all
  have "hands n (tpc ?s) = hands n (tpc s)"
    unfolding hands_def by (rule sum.cong) auto
  then show "ring_ok ?s" "accepted ?s = taken ?s @ queue ?s @ main_hand (mpc ?s)" "mset (taken ?s) = mset (served ?s) + hands n (tpc ?s)"
    unfolding q using s assms(2) by simp_all
  show "mutex_ok n ?s"
    using s(2) assms(2) by (auto simp: mutex_ok_def)
  show "iget ?s \<noteq> iput ?s" if "i < n" "tpc ?s i = T_take" for i
    using s(3) [of i] that by (simp split: if_splits)
  show "wakes_ok n ?s"
    unfolding wakes_ok_def q
  proof
    assume "\<exists>i<n. tpc ?s i = T_wait"
    then have sleeper: "\<exists>i<n. tpc s i = T_wait"
      by (auto split: if_splits)
    then obtain i where i: "i < n" "i \<in> wake" "tpc s i = T_wait"
      using assms(3) by (auto simp: signals_def)
    have "insert i (comers n (tpc s)) \<subseteq> comers n (tpc ?s)" "i \<notin> comers n (tpc s)"
      using i by (auto simp: comers_def)
    then have "card (comers n (tpc s)) + 1 \<le> card (comers n (tpc ?s))"
      using card_mono [of "comers n (tpc ?s)" "insert i (comers n (tpc s))"] by simp
    then show "waiting s \<le> card (comers n (tpc ?s)) + (if mpc ?s = M_signal then 1 else 0)"
      using s(6) sleeper assms(2) unfolding wakes_ok_def by simp
  qed
qed

lemma main_step_ok:
  assumes "serv08_ok n s" and "signals n wake s" and "main_step connfd wake s = Ret s'"
  shows "serv08_ok n s'"
proof (cases "mpc s")
  case M_accept
  then have "s' = s\<lparr>clifd_mutex := clifd_mutex s, mpc := M_lock connfd, accepted := accepted s @ [connfd]\<rparr>"
    using assms(3) by (simp add: main_step_def)
  then show ?thesis
    using main_moves [OF assms(1), where pc = "M_lock connfd" and m = "clifd_mutex s" and new = "[connfd]"] M_accept serv08_okD(2) [OF assms(1)]
    by (simp add: mutex_ok_def)
next
  case (M_lock c)
  then have "s' = s\<lparr>clifd_mutex := Some Main, mpc := M_put c\<rparr>" "clifd_mutex s = None"
    using assms(3) by (simp_all add: main_step_def split: if_splits)
  then show ?thesis
    using main_locks [OF assms(1), where pc = "M_put c" and m = "Some Main"] M_lock serv08_okD(2) [OF assms(1)]
    by (simp add: mutex_ok_def)
next
  case (M_put c)
  then have "s' = s\<lparr>clifd := (clifd s)[iput s := c], iput := advance (iput s), mpc := M_signal\<rparr>" "advance (iput s) \<noteq> iget s"
    using assms(3) by (simp_all add: main_step_def Let_def split: if_splits)
  then show ?thesis
    using main_puts [OF assms(1) M_put] by simp
next
  case M_signal
  then show ?thesis
    using main_wakes [OF assms(1) M_signal assms(2)] assms(3) by (simp add: main_step_def)
next
  case M_unlock
  then have "s' = s\<lparr>clifd_mutex := None, mpc := M_accept\<rparr>"
    using assms(3) by (simp add: main_step_def)
  then show ?thesis
    using main_locks [OF assms(1), where pc = M_accept and m = None] M_unlock serv08_okD(2) [OF assms(1)]
    by (simp add: mutex_ok_def)
qed

text \<open>A step of a thread that leaves the array alone.\<close>

lemma thread_moves:
  assumes "serv08_ok n s" and "i < n" and "mutex_ok n s'" and "tpc s' = (tpc s)(i := pc)"
    and same: "clifd s' = clifd s" "iget s' = iget s" "iput s' = iput s" "mpc s' = mpc s" "accepted s' = accepted s" "taken s' = taken s"
    and "mset (served s') + hand pc = mset (served s) + hand (tpc s i)" and "pc = T_take \<Longrightarrow> iget s \<noteq> iput s"
    and "coming pc \<or> \<not> coming (tpc s i) \<and> pc \<noteq> T_wait \<or> waiting s = 0"
  shows "serv08_ok n s'"
proof (rule serv08_okI)
  note s = serv08_okD [OF assms(1)]
  have q: "queue s' = queue s" "waiting s' = waiting s" "ring_ok s' = ring_ok s"
    using queue_cong [of s' s] same by simp_all
  show "ring_ok s'" "accepted s' = taken s' @ queue s' @ main_hand (mpc s')"
    unfolding q using s same by simp_all
  have "mset (served s') + hands n (tpc s') + hand (tpc s i) = mset (served s') + hand pc + hands n (tpc s)"
    using hands_upd [OF assms(2), of "tpc s" pc] unfolding assms(4) by (simp add: ac_simps)
  then show "mset (taken s') = mset (served s') + hands n (tpc s')"
    unfolding assms(11) using s(5) same(6) by (simp add: ac_simps)
  show "mutex_ok n s'"
    by (rule assms(3))
  show "iget s' \<noteq> iput s'" if "j < n" "tpc s' j = T_take" for j
    using s(3) [of j] assms(12) that same by (auto simp: assms(4) split: if_splits)
  show "wakes_ok n s'"
    unfolding wakes_ok_def q
  proof
    assume "\<exists>j<n. tpc s' j = T_wait"
    then have "waiting s = 0 \<or> (\<exists>j<n. tpc s j = T_wait) \<and> comers n (tpc s) \<subseteq> comers n (tpc s')"
      using assms(2,13) unfolding assms(4) by (auto simp: comers_def split: if_splits)
    then show "waiting s \<le> card (comers n (tpc s')) + (if mpc s' = M_signal then 1 else 0)"
      using s(6) card_mono [of "comers n (tpc s')" "comers n (tpc s)"] same(4) unfolding wakes_ok_def by auto
  qed
qed

lemma thread_takes:
  assumes "serv08_ok n s" and "i < n" and "tpc s i = T_take"
  shows "serv08_ok n (s\<lparr>iget := advance (iget s), taken := taken s @ [clifd s ! iget s], tpc := (tpc s)(i := T_unlock (clifd s ! iget s))\<rparr>)"
    (is "serv08_ok n ?s")
proof (rule serv08_okI)
  note s = serv08_okD [OF assms(1)]
  let ?t = "s\<lparr>iget := advance (iget s)\<rparr>"
  note t = queue_take [OF s(1) s(3) [OF assms(2,3)] refl]
  have q: "queue ?s = queue ?t" "waiting ?s = waiting ?t" "ring_ok ?s = ring_ok ?t"
    using queue_cong [of ?s ?t] by simp_all
  show "ring_ok ?s" "accepted ?s = taken ?s @ queue ?s @ main_hand (mpc ?s)"
    unfolding q using t s(4) by simp_all
  have "hands n (tpc ?s) = hands n (tpc s) + {#clifd s ! iget s#}"
    using hands_upd [OF assms(2), of "tpc s" "T_unlock (clifd s ! iget s)"] assms(3) by simp
  then show "mset (taken ?s) = mset (served ?s) + hands n (tpc ?s)"
    using s(5) by simp
  show "mutex_ok n ?s"
    using s(2) assms(2,3) by (auto simp: mutex_ok_def)
  have alone: "\<not> inside (tpc s j)" if "j < n" "j \<noteq> i" for j
    using s(2) assms(2,3) that by (auto simp: mutex_ok_def)
  show "iget ?s \<noteq> iput ?s" if "j < n" "tpc ?s j = T_take" for j
    using alone [of j] that by (auto split: if_splits)
  show "wakes_ok n ?s"
    unfolding wakes_ok_def q
  proof
    assume "\<exists>j<n. tpc ?s j = T_wait"
    then have "\<exists>j<n. tpc s j = T_wait"
      by (auto split: if_splits)
    then have "waiting s \<le> card (comers n (tpc s)) + (if mpc s = M_signal then 1 else 0)"
      using s(6) unfolding wakes_ok_def by simp
    moreover have "i \<in> comers n (tpc s)"
      using assms(2,3) by (simp add: in_comers)
    ultimately show "waiting ?t \<le> card (comers n (tpc ?s)) + (if mpc ?s = M_signal then 1 else 0)"
      using assms(2) t(2) by (simp add: comers_upd card_Diff_singleton)
  qed
qed

lemma thread_step_ok:
  assumes "serv08_ok n s" and "i < n" and "thread_step i s = Ret s'"
  shows "serv08_ok n s'"
proof -
  note m = serv08_okD(2) [OF assms(1)]
  show ?thesis
  proof (cases "tpc s i")
    case T_take
    then show ?thesis
      using thread_takes [OF assms(1,2) T_take] assms(3) by (simp add: thread_step_def Let_def)
  next
    case T_test
    have "waiting s = 0" if "iget s = iput s"
      using that waiting_cases [OF serv08_okD(1) [OF assms(1)]] by simp
    moreover have "clifd_mutex s = Some (Thread i)"
      using T_test by (simp add: mutex_owner [OF m assms(2)])
    ultimately show ?thesis
      using T_test assms serv08_okD(2) [OF assms(1)]
      by (intro thread_moves [OF assms(1,2), of s' "tpc s' i"]) (auto simp: thread_step_def Let_def mutex_ok_def split: if_splits)
  next
    case T_lock
    then show ?thesis
      using assms(2,3) m by (intro thread_moves [OF assms(1,2), of s' "T_test"]) (auto simp: thread_step_def Let_def mutex_ok_def split: if_splits)
  next
    case T_woken
    then show ?thesis
      using assms(2,3) m by (intro thread_moves [OF assms(1,2), of s' "T_test"]) (auto simp: thread_step_def Let_def mutex_ok_def split: if_splits)
  next
    case (T_unlock c)
    then show ?thesis
      using assms(2,3) m mutex_owner [OF m assms(2)] by (intro thread_moves [OF assms(1,2), of s' "T_serve c"]) (auto simp: thread_step_def Let_def mutex_ok_def split: if_splits)
  next
    case (T_serve c)
    then show ?thesis
      using assms(2,3) m mutex_owner [OF m assms(2)] by (intro thread_moves [OF assms(1,2), of s' "T_lock"]) (auto simp: thread_step_def Let_def mutex_ok_def split: if_splits)
  next
    case T_wait
    then show ?thesis
      using assms(3) by (simp add: thread_step_def)
  qed
qed

lemma wakes_up:
  assumes "serv08_ok n s" and "i < n" and "tpc s i = T_wait"
  shows "serv08_ok n (s\<lparr>tpc := (tpc s)(i := T_woken)\<rparr>)"
  using assms serv08_okD(2) [OF assms(1)] by (intro thread_moves [OF assms(1,2), of _ T_woken]) (auto simp: mutex_ok_def)

lemma start_ok: "length garbage = MAXNCLI \<Longrightarrow> serv08_ok n (serv08_start garbage)"
  by (rule serv08_okI)
    (simp_all add: serv08_start_def ring_ok_def mutex_ok_def queue_def waiting_def wakes_ok_def hands_def MAXNCLI_def)

lemma serv08_run_ok: "serv08_run n s \<Longrightarrow> serv08_ok n s"
proof (induction rule: serv08_run.induct)
  case (main s wake connfd s')
  then show ?case
    by (blast intro: main_step_ok)
qed (auto intro: start_ok thread_step_ok wakes_up)

lemma main_overflows:
  assumes "serv08_ok n s"
  shows "(\<exists>m. main_step connfd wake s = Exits m) \<longleftrightarrow> (\<exists>c. mpc s = M_put c) \<and> waiting s = MAXNCLI - 1"
proof -
  note s = serv08_okD [OF assms]
  have "advance (iput s) = iget s \<longleftrightarrow> waiting s = MAXNCLI - 1"
    unfolding waiting_cases [OF s(1)] using s(1) by (auto simp: advance_def ring_ok_def MAXNCLI_def split: if_splits)
  then show ?thesis
    by (cases "mpc s") (auto simp: main_step_def Let_def)
qed

lemma not_stuck:
  assumes "mutex_ok n s"
  shows "main_step connfd wake s \<noteq> Blocks \<or> (\<exists>i<n. thread_step i s \<noteq> Blocks)"
proof (cases "clifd_mutex s")
  case None
  then show ?thesis
    by (cases "mpc s") (auto simp: main_step_def Let_def)
next
  case (Some h)
  show ?thesis
  proof (cases h)
    case Main
    then have "main_inside (mpc s)"
      using Some assms by (simp add: mutex_ok_def)
    then show ?thesis
      by (cases "mpc s") (auto simp: main_step_def Let_def)
  next
    case (Thread i)
    then have "i < n" "inside (tpc s i)"
      using Some assms mutex_owner [OF assms, of i] by (auto simp: mutex_ok_def)
    then show ?thesis
      by (intro disjI2 exI [of _ i]) (cases "tpc s i"; simp add: thread_step_def Let_def)
  qed
qed

section \<open>Properties\<close>

text \<open>
  (C2) In every state of every interleaving of the main thread and the pool: the connections are taken
  in the order in which they were accepted, and none is lost or taken twice; each taken connection has
  been served or is in the hands of exactly one thread; at most one thread is between lock and unlock;
  some thread can always go on; no wakeup is lost: while a thread sleeps, there are at least as many
  threads on their way to the queue as connections in it, but for the one that main has just stored and
  not yet signalled. The server gives up exactly when a connection arrives and 31 are waiting.
\<close>

theorem prethreaded_server:
  assumes "serv08_run n s"
  shows "accepted s = taken s @ queue s @ main_hand (mpc s)
    \<and> mset (taken s) = mset (served s) + (\<Sum>i<n. hand (tpc s i))
    \<and> (\<forall>i<n. inside (tpc s i) \<longrightarrow> \<not> main_inside (mpc s) \<and> (\<forall>j<n. inside (tpc s j) \<longrightarrow> j = i))
    \<and> (main_step connfd wake s \<noteq> Blocks \<or> (\<exists>i<n. thread_step i s \<noteq> Blocks))
    \<and> ((\<exists>i<n. tpc s i = T_wait) \<longrightarrow> length (queue s) \<le> card {i. i < n \<and> coming (tpc s i)} + (if mpc s = M_signal then 1 else 0))
    \<and> ((\<exists>m. main_step connfd wake s = Exits m) \<longleftrightarrow> (\<exists>c. mpc s = M_put c) \<and> length (queue s) = 31)"
proof -
  note ok = serv08_run_ok [OF assms]
  note s = serv08_okD [OF ok]
  have q: "length (queue s) = waiting s"
    by (simp add: queue_def)
  have "\<forall>i<n. inside (tpc s i) \<longrightarrow> \<not> main_inside (mpc s) \<and> (\<forall>j<n. inside (tpc s j) \<longrightarrow> j = i)"
    using exclusive [OF s(2)] by blast
  then show ?thesis
    using s(4-6) not_stuck [OF s(2), of connfd wake] main_overflows [OF ok, of connfd wake]
    unfolding q by (simp add: wakes_ok_def comers_def hands_def MAXNCLI_def)
qed

theorem prethreaded_server_witness:
  "\<exists>s. serv08_run 2 s \<and> queue s = [7] \<and> tpc s 0 = T_wait \<and> tpc s 1 = T_lock \<and> length (queue s) \<le> card {i. i < 2 \<and> coming (tpc s i)} + 1"
proof -
  let ?s0 = "serv08_start (replicate MAXNCLI 0)"
  obtain s1 where s1: "thread_step 0 ?s0 = Ret s1" "s1 = ?s0\<lparr>clifd_mutex := Some (Thread 0), tpc := (tpc ?s0)(0 := T_test)\<rparr>"
    by (simp add: thread_step_def serv08_start_def Let_def)
  obtain s2 where s2: "thread_step 0 s1 = Ret s2" "s2 = s1\<lparr>clifd_mutex := None, tpc := (tpc s1)(0 := T_wait)\<rparr>"
    by (simp add: s1(2) thread_step_def serv08_start_def Let_def)
  obtain s3 where s3: "main_step 7 {0} s2 = Ret s3" "s3 = s2\<lparr>mpc := M_lock 7, accepted := [7]\<rparr>"
    by (simp add: s1(2) s2(2) main_step_def serv08_start_def)
  obtain s4 where s4: "main_step 7 {0} s3 = Ret s4" "s4 = s3\<lparr>clifd_mutex := Some Main, mpc := M_put 7\<rparr>"
    by (simp add: s1(2) s2(2) s3(2) main_step_def serv08_start_def)
  obtain s5 where s5: "main_step 7 {0} s4 = Ret s5" "s5 = s4\<lparr>clifd := (clifd s4)[0 := 7], iput := 1, mpc := M_signal\<rparr>"
    by (simp add: s1(2) s2(2) s3(2) s4(2) main_step_def serv08_start_def advance_def MAXNCLI_def)
  have "serv08_run 2 s2"
    using serv08_run.thread [OF serv08_run.thread [OF serv08_run.start _ s1(1)] _ s2(1), of 2] by simp
  moreover have "serv08_run 2 s5" if "serv08_run 2 s2"
  proof -
    have sig: "signals 2 {0} s2" "signals 2 {0} s3" "signals 2 {0} s4"
      by (auto simp: signals_def s1(2) s2(2) s3(2) s4(2) serv08_start_def)
    have "serv08_run 2 s3"
      by (rule serv08_run.main [OF that sig(1) s3(1)])
    then have "serv08_run 2 s4"
      by (rule serv08_run.main [OF _ sig(2) s4(1)])
    then show ?thesis
      by (rule serv08_run.main [OF _ sig(3) s5(1)])
  qed
  ultimately have "serv08_run 2 s5"
    by blast
  moreover have "queue s5 = [7]" "tpc s5 0 = T_wait" "tpc s5 1 = T_lock" "mpc s5 = M_signal"
    by (simp_all add: s1(2) s2(2) s3(2) s4(2) s5(2) serv08_start_def queue_def waiting_def MAXNCLI_def ring_def)
  ultimately show ?thesis
    using prethreaded_server [of 2 s5 0 "{}"] by (intro exI [of _ s5]) auto
qed

end
