(* ===== verification/Sigio.thy ===== *)
theory Sigio
  imports Prelude
begin

text \<open>
  The signal-driven UDP echo server of \<^verbatim>\<open>sigio/dgecho01.c\<close>: a handler for \<^verbatim>\<open>SIGIO\<close> reads all datagrams into
  a queue of buffers, the main loop sends them back. The handler may interrupt the main loop between
  any two of its statements where the signal is not blocked. A datagram is its data and its sender.
\<close>

section \<open>The state\<close>

type_synonym dgram = "u8 list \<times> u8 list"

definition QSIZE :: nat where
  "QSIZE = 8"

definition MAXDG :: nat where
  "MAXDG = 4096"

text \<open>
  Where the main loop is: before the test of \<^verbatim>\<open>nqueue\<close>, before \<^verbatim>\<open>Sendto\<close>, before the increment of \<^verbatim>\<open>iget\<close>,
  before \<^verbatim>\<open>SIGIO\<close> is blocked again, before the decrement of \<^verbatim>\<open>nqueue\<close>.
\<close>

datatype dg_pc = D_test | D_send | D_next | D_block | D_dec

text \<open>
  The static variables; the datagrams in the socket and whether a signal is pending; and what happened:
  the datagrams that arrived, those the handler read, and those sent back.
\<close>

record dgserv =
  dg :: "dgram list"
  cntread :: "nat list"
  iget :: nat
  iput :: nat
  nqueue :: nat
  dpc :: dg_pc
  sockq :: "dgram list"
  pending :: bool
  arrived :: "dgram list"
  got :: "dgram list"
  echoed :: "dgram list"

definition dg_start :: "dgram list \<Rightarrow> dgserv" where
  "dg_start garbage =
     \<lparr>dg = garbage, cntread = replicate (QSIZE + 1) 0, iget = 0, iput = 0, nqueue = 0, dpc = D_test, sockq = [], pending = False,
      arrived = [], got = [], echoed = []\<rparr>"

section \<open>The handler and the main loop\<close>

definition advance :: "nat \<Rightarrow> nat" where
  "advance i = (if i + 1 \<ge> QSIZE then 0 else i + 1)"

text \<open>\<^verbatim>\<open>recvfrom\<close> cuts a datagram to the size of the buffer.\<close>

definition cut :: "dgram \<Rightarrow> dgram" where
  "cut d = (take MAXDG (fst d), snd d)"

text \<open>The loop of \<^verbatim>\<open>sig_io\<close>, by the datagrams in the socket; when there are no more, \<^verbatim>\<open>recvfrom\<close> would block.\<close>

fun sig_io_loop :: "nat \<Rightarrow> dgram list \<Rightarrow> dgserv \<Rightarrow> (nat \<times> dgserv) outcome" where
  "sig_io_loop nread ds s =
     (if nqueue s \<ge> QSIZE then Exits ''receive overflow''
      else
        (case ds of
           [] \<Rightarrow> Ret (nread, s)
         | d # ds \<Rightarrow>
             sig_io_loop (nread + 1) ds
               (s\<lparr>dg := (dg s)[iput s := cut d], nqueue := nqueue s + 1, iput := advance (iput s), sockq := ds, got := got s @ [cut d]\<rparr>)))"

definition sig_io :: "dgserv \<Rightarrow> dgserv outcome" where
  "sig_io s =
     bind_outcome (sig_io_loop 0 (sockq s) (s\<lparr>pending := False\<rparr>))
       (\<lambda>(nread, s). Ret (s\<lparr>cntread := (cntread s)[nread := cntread s ! nread + 1]\<rparr>))"

text \<open>\<^verbatim>\<open>SIGIO\<close> is delivered while it is not blocked, and in \<^verbatim>\<open>sigsuspend\<close>.\<close>

definition deliverable :: "dgserv \<Rightarrow> bool" where
  "deliverable s \<longleftrightarrow> dpc s \<in> {D_send, D_next, D_block} \<or> dpc s = D_test \<and> nqueue s = 0"

definition dg_echo_step :: "dgserv \<Rightarrow> dgserv outcome" where
  "dg_echo_step s =
     (case dpc s of
        D_test \<Rightarrow> if nqueue s = 0 then Blocks else Ret (s\<lparr>dpc := D_send\<rparr>)
      | D_send \<Rightarrow> Ret (s\<lparr>echoed := echoed s @ [dg s ! iget s], dpc := D_next\<rparr>)
      | D_next \<Rightarrow> Ret (s\<lparr>iget := advance (iget s), dpc := D_block\<rparr>)
      | D_block \<Rightarrow> Ret (s\<lparr>dpc := D_dec\<rparr>)
      | D_dec \<Rightarrow> Ret (s\<lparr>nqueue := nqueue s - 1, dpc := D_test\<rparr>))"

text \<open>The runs: datagrams arrive at any time and raise the signal.\<close>

inductive dg_run :: "dgserv \<Rightarrow> bool" where
  start: "length garbage = QSIZE \<Longrightarrow> dg_run (dg_start garbage)"
| arrive: "dg_run s \<Longrightarrow> dg_run (s\<lparr>sockq := sockq s @ [d], arrived := arrived s @ [d], pending := True\<rparr>)"
| signal: "dg_run s \<Longrightarrow> deliverable s \<Longrightarrow> sig_io s = Ret s' \<Longrightarrow> dg_run s'"
| main: "dg_run s \<Longrightarrow> dg_echo_step s = Ret s' \<Longrightarrow> dg_run s'"

section \<open>The invariant\<close>

text \<open>Where the queue starts and how many datagrams it holds that have not been sent back.\<close>

definition first :: "dgserv \<Rightarrow> nat" where
  "first s = (if dpc s = D_next then advance (iget s) else iget s)"

definition unsent :: "dgserv \<Rightarrow> nat" where
  "unsent s = (if dpc s \<in> {D_next, D_block, D_dec} then nqueue s - 1 else nqueue s)"

definition waiting :: "dgserv \<Rightarrow> dgram list" where
  "waiting s = ring (dg s) (first s) (unsent s)"

definition dg_ok :: "dgserv \<Rightarrow> bool" where
  "dg_ok s \<longleftrightarrow> length (dg s) = QSIZE \<and> length (cntread s) = QSIZE + 1 \<and> iget s < QSIZE \<and> nqueue s < QSIZE
     \<and> (dpc s \<noteq> D_test \<longrightarrow> 0 < nqueue s) \<and> iput s = (first s + unsent s) mod QSIZE
     \<and> got s = echoed s @ waiting s \<and> map cut (arrived s) = got s @ map cut (sockq s) \<and> (sockq s \<noteq> [] \<longrightarrow> pending s)"

lemma dg_okI:
  assumes "length (dg s) = QSIZE" and "length (cntread s) = QSIZE + 1" and "iget s < QSIZE" and "nqueue s < QSIZE"
    and "dpc s \<noteq> D_test \<Longrightarrow> 0 < nqueue s" and "iput s = (first s + unsent s) mod QSIZE"
    and "got s = echoed s @ waiting s" and "map cut (arrived s) = got s @ map cut (sockq s)" and "sockq s \<noteq> [] \<Longrightarrow> pending s"
  shows "dg_ok s"
  unfolding dg_ok_def using assms by (intro conjI) auto

lemma dg_okD:
  assumes "dg_ok s"
  shows "length (dg s) = QSIZE" and "length (cntread s) = QSIZE + 1" and "iget s < QSIZE" and "nqueue s < QSIZE"
    and "dpc s \<noteq> D_test \<Longrightarrow> 0 < nqueue s" and "iput s = (first s + unsent s) mod QSIZE"
    and "got s = echoed s @ waiting s" and "map cut (arrived s) = got s @ map cut (sockq s)" and "sockq s \<noteq> [] \<Longrightarrow> pending s"
  using assms unfolding dg_ok_def by - (elim conjE, (assumption | blast))+

lemma dg_advance_mod: "i < QSIZE \<Longrightarrow> advance i = (i + 1) mod QSIZE"
  by (auto simp: advance_def QSIZE_def mod_Suc)

lemma dg_advance_less [simp]: "advance i < QSIZE"
  by (simp add: advance_def QSIZE_def)

lemma first_less: "iget s < QSIZE \<Longrightarrow> first s < QSIZE"
  by (simp add: first_def)

declare sig_io_loop.simps [simp del]

text \<open>One pass of the loop of the handler.\<close>

definition take_in :: "dgram \<Rightarrow> dgram list \<Rightarrow> dgserv \<Rightarrow> dgserv" where
  "take_in d ds s =
     s\<lparr>dg := (dg s)[iput s := cut d], nqueue := nqueue s + 1, iput := advance (iput s), sockq := ds, got := got s @ [cut d]\<rparr>"

lemma sig_io_loop_unfold:
  "sig_io_loop nread [] s = (if nqueue s \<ge> QSIZE then Exits ''receive overflow'' else Ret (nread, s))"
  "sig_io_loop nread (d # ds) s =
    (if nqueue s \<ge> QSIZE then Exits ''receive overflow'' else sig_io_loop (nread + 1) ds (take_in d ds s))"
  by (simp_all add: sig_io_loop.simps [of nread] take_in_def)

lemma take_in_ok:
  assumes "dg_ok (s\<lparr>pending := True\<rparr>)" and "sockq s = d # ds" and "nqueue s + 1 < QSIZE"
  shows "dg_ok ((take_in d ds s)\<lparr>pending := True\<rparr>)" (is "dg_ok ?s")
proof -
  note s = dg_okD [OF assms(1), simplified]
  have f: "first ?s = first s" "first (s\<lparr>pending := True\<rparr>) = first s"
    by (simp_all add: first_def take_in_def)
  have u: "unsent ?s = unsent s + 1" "unsent (s\<lparr>pending := True\<rparr>) = unsent s" "unsent s \<le> nqueue s"
    using s(5) by (auto simp: unsent_def take_in_def)
  have at: "first s < length (dg s)" "unsent s < length (dg s)"
    using s(1) first_less [OF s(3)] u(3) assms(3) by simp_all
  have iput: "iput s = (first s + unsent s) mod length (dg s)"
    using s(1,6) f(2) u(2) by simp
  show ?thesis
  proof (rule dg_okI)
    show "iput ?s = (first ?s + unsent ?s) mod QSIZE"
      using iput s(1) unfolding f(1) u(1) by (simp add: take_in_def dg_advance_mod mod_Suc_eq QSIZE_def)
    have "waiting ?s = ring ((dg s)[(first s + unsent s) mod length (dg s) := cut d]) (first s) (unsent s + 1)"
      unfolding waiting_def f(1) u(1) by (simp add: take_in_def iput)
    also have "\<dots> = ring (dg s) (first s) (unsent s) @ [cut d]"
      by (rule ring_put [OF at])
    finally show "got ?s = echoed ?s @ waiting ?s"
      using s(7) unfolding waiting_def f(2) u(2) by (simp add: take_in_def)
    show "map cut (arrived ?s) = got ?s @ map cut (sockq ?s)"
      using s(8) assms(2) by (simp add: take_in_def)
  qed (use s assms(3) in \<open>simp_all add: take_in_def\<close>)
qed

lemma sig_io_loop_ok:
  "dg_ok (s\<lparr>pending := True\<rparr>) \<Longrightarrow> sockq s = ds \<Longrightarrow>
    (if nqueue s + length ds < QSIZE
     then \<exists>s'. sig_io_loop nread ds s = Ret (nread + length ds, s') \<and> dg_ok (s'\<lparr>pending := True\<rparr>) \<and> sockq s' = []
       \<and> arrived s' = arrived s \<and> echoed s' = echoed s \<and> dpc s' = dpc s
     else sig_io_loop nread ds s = Exits ''receive overflow'')"
proof (induction ds arbitrary: s nread)
  case Nil
  then show ?case
    by (auto simp: sig_io_loop_unfold)
next
  case (Cons d ds)
  have q: "nqueue s < QSIZE"
    using dg_okD(4) [OF Cons.prems(1)] by simp
  have t: "sockq (take_in d ds s) = ds" "nqueue (take_in d ds s) = nqueue s + 1" "arrived (take_in d ds s) = arrived s"
      "echoed (take_in d ds s) = echoed s" "dpc (take_in d ds s) = dpc s"
    by (simp_all add: take_in_def)
  show ?case
  proof (cases "nqueue s + 1 < QSIZE")
    case True
    then show ?thesis
      using Cons.IH [OF take_in_ok [OF Cons.prems True] t(1), of "Suc nread"] q unfolding t by (auto simp: sig_io_loop_unfold split: if_splits)
  next
    case False
    then have "sig_io_loop (nread + 1) ds (take_in d ds s) = Exits ''receive overflow''"
      by (simp add: sig_io_loop.simps t(2))
    then show ?thesis
      using False q by (simp add: sig_io_loop_unfold)
  qed
qed

lemma dg_ok_pending: "dg_ok s \<Longrightarrow> dg_ok (s\<lparr>pending := True\<rparr>)"
  by (simp add: dg_ok_def first_def unsent_def waiting_def)

lemma sig_io_ok:
  assumes "dg_ok s"
  shows "if nqueue s + length (sockq s) < QSIZE
    then \<exists>s'. sig_io s = Ret s' \<and> dg_ok s' \<and> sockq s' = [] \<and> arrived s' = arrived s \<and> echoed s' = echoed s
    else sig_io s = Exits ''receive overflow''"
proof -
  let ?s = "s\<lparr>pending := False\<rparr>"
  have "dg_ok (?s\<lparr>pending := True\<rparr>)"
    using dg_ok_pending [OF assms] by simp
  note loop = sig_io_loop_ok [OF this, of "sockq s" 0, simplified]
  show ?thesis
  proof (cases "nqueue s + length (sockq s) < QSIZE")
    case True
    then obtain s' where s': "sig_io_loop 0 (sockq s) ?s = Ret (length (sockq s), s')" "dg_ok (s'\<lparr>pending := True\<rparr>)" "sockq s' = []"
        "arrived s' = arrived s" "echoed s' = echoed s"
      using loop by auto
    have "dg_ok (s'\<lparr>cntread := c\<rparr>)" if "length c = length (cntread s')" for c
      using s'(2,3) that by (simp add: dg_ok_def first_def unsent_def waiting_def)
    then show ?thesis
      using True s' by (simp add: sig_io_def)
  qed (use loop in \<open>simp add: sig_io_def\<close>)
qed

lemma dg_echo_step_ok:
  assumes "dg_ok s" and "dg_echo_step s = Ret s'"
  shows "dg_ok s'"
proof -
  note s = dg_okD [OF assms(1)]
  show ?thesis
  proof (cases "dpc s")
    case D_send
    then obtain n where n: "nqueue s = Suc n"
      using s(5) by (cases "nqueue s") auto
    have s': "s' = s\<lparr>echoed := echoed s @ [dg s ! iget s], dpc := D_next\<rparr>"
      using assms(2) D_send by (simp add: dg_echo_step_def)
    have w: "waiting s = dg s ! iget s # waiting s'"
      using D_send n s(1,3) ring_take [of "iget s" "dg s" n] by (simp add: s' waiting_def first_def unsent_def dg_advance_mod)
    show ?thesis
    proof (rule dg_okI)
      show "iput s' = (first s' + unsent s') mod QSIZE"
        using s(3,6) D_send n by (simp add: s' first_def unsent_def dg_advance_mod mod_simps)
      show "got s' = echoed s' @ waiting s'"
        using s(7) unfolding w by (simp add: s')
    qed (use s n in \<open>simp_all add: s'\<close>)
  next
    case D_test
    then show ?thesis
      using assms s by (auto simp: dg_echo_step_def dg_ok_def first_def unsent_def waiting_def split: if_splits)
  next
    case D_next
    then show ?thesis
      using assms s by (auto simp: dg_echo_step_def dg_ok_def first_def unsent_def waiting_def)
  next
    case D_block
    then show ?thesis
      using assms s by (auto simp: dg_echo_step_def dg_ok_def first_def unsent_def waiting_def)
  next
    case D_dec
    then show ?thesis
      using assms s by (auto simp: dg_echo_step_def dg_ok_def first_def unsent_def waiting_def)
  qed
qed

lemma dg_start_ok: "length garbage = QSIZE \<Longrightarrow> dg_ok (dg_start garbage)"
  by (rule dg_okI) (simp_all add: dg_start_def first_def unsent_def waiting_def QSIZE_def)

lemma dg_run_ok: "dg_run s \<Longrightarrow> dg_ok s"
proof (induction rule: dg_run.induct)
  case (arrive s d)
  then show ?case
    by (simp add: dg_ok_def first_def unsent_def waiting_def)
next
  case (signal s s')
  then show ?case
    using sig_io_ok [of s] by (auto split: if_splits)
qed (auto intro: dg_start_ok dg_echo_step_ok)

section \<open>Properties\<close>

text \<open>
  (C14) However the handler interrupts the main loop: the datagrams are sent back, cut to the size of
  the buffers, in the order in which they arrived, each once and with the address of its sender; no
  buffer is overwritten before its datagram is sent; a datagram left in the socket has its signal
  pending; the main loop sleeps only when nothing waits. The handler gives up exactly when the
  datagrams in the queue and in the socket are eight or more, so the eighth buffer is never used.
\<close>

theorem sigio_server:
  assumes "dg_run s"
  shows "map cut (arrived s) = echoed s @ waiting s @ map cut (sockq s)
    \<and> nqueue s < 8 \<and> (sockq s \<noteq> [] \<longrightarrow> pending s)
    \<and> (dg_echo_step s = Blocks \<longrightarrow> waiting s = [] \<and> deliverable s)
    \<and> (if nqueue s + length (sockq s) < 8 then \<exists>s'. sig_io s = Ret s' \<and> sockq s' = [] \<and> (deliverable s \<longrightarrow> dg_run s')
       else sig_io s = Exits ''receive overflow'')"
proof -
  note ok = dg_run_ok [OF assms]
  note s = dg_okD [OF ok]
  have "dg_echo_step s = Blocks \<longrightarrow> waiting s = [] \<and> deliverable s"
    by (cases "dpc s") (simp_all add: dg_echo_step_def waiting_def unsent_def deliverable_def)
  moreover have "if nqueue s + length (sockq s) < 8 then \<exists>s'. sig_io s = Ret s' \<and> sockq s' = [] \<and> (deliverable s \<longrightarrow> dg_run s')
       else sig_io s = Exits ''receive overflow''"
    using sig_io_ok [OF ok] dg_run.signal [OF assms] by (auto simp: QSIZE_def split: if_splits)
  ultimately show ?thesis
    using s(4,7-9) by (simp add: QSIZE_def)
qed

theorem sigio_server_witness:
  "\<exists>s. dg_run s \<and> arrived s = [([1], [9])] \<and> nqueue s = 0 \<and> (\<exists>s'. sig_io s = Ret s' \<and> sockq s' = [] \<and> dg_run s')"
proof -
  let ?s = "dg_start (replicate QSIZE ([], []))"
  let ?t = "?s\<lparr>sockq := sockq ?s @ [([1], [9])], arrived := arrived ?s @ [([1], [9])], pending := True\<rparr>"
  have run: "dg_run ?t"
    by (intro dg_run.arrive dg_run.start) simp
  have "deliverable ?t" "nqueue ?t = 0" "length (sockq ?t) = 1" "arrived ?t = [([1], [9])]"
    by (simp_all add: dg_start_def deliverable_def)
  then show ?thesis
    using sigio_server [OF run] run by (intro exI [of _ ?t]) auto
qed

end
