(* ===== verification/Icmpd.thy ===== *)
theory Icmpd
  imports Mux Fd_Pass Sockaddr Traceroute
begin

text \<open>
  The ICMP daemon of \<^verbatim>\<open>icmpd\<close>: UDP clients pass it their sockets over a Unix domain connection, and it
  tells each client of the ICMP errors its datagrams caused. Reading a part of the buffer that the
  received packet does not reach is \<^term>\<open>None\<close>.
\<close>

section \<open>The state\<close>

definition FD_SETSIZE :: nat where
  "FD_SETSIZE = 1024"

record client =
  connfd :: int
  family :: nat
  lport :: int

text \<open>The globals, without \<^verbatim>\<open>rset\<close>, \<^verbatim>\<open>nready\<close> and \<^verbatim>\<open>maxfd\<close>, which only serve \<^verbatim>\<open>select\<close>.\<close>

record icmpd =
  clients :: "client list"
  fd4 :: int
  fd6 :: int
  listenfd :: int
  maxi :: int
  allset :: "int set"

definition icmpd_start :: "int \<Rightarrow> int \<Rightarrow> int \<Rightarrow> icmpd" where
  "icmpd_start f4 f6 l =
     \<lparr>clients = replicate FD_SETSIZE \<lparr>connfd = -1, family = 0, lport = 0\<rparr>, fd4 = f4, fd6 = f6, listenfd = l, maxi = -1,
      allset = {f4, f6, l}\<rparr>"

datatype ierrno = EHOSTUNREACH | ECONNREFUSED | EMSGSIZE

record icmpd_err =
  icmpd_errno :: ierrno
  icmpd_type :: nat
  icmpd_code :: nat
  icmpd_dest :: sockaddr

text \<open>What the daemon does to its descriptors: send an error, answer a registration, close.\<close>

datatype ieffect = Told int icmpd_err | Answered int bool | Hung_up int

section \<open>Clients\<close>

definition readable_listen :: "int \<Rightarrow> icmpd \<Rightarrow> ieffect list \<times> icmpd" where
  "readable_listen fd s =
     (case place (\<lambda>c. connfd c < 0) (\<lambda>c. c\<lparr>connfd := fd\<rparr>) (clients s) of
        None \<Rightarrow> ([Hung_up fd], s)
      | Some (i, cs) \<Rightarrow> ([], s\<lparr>clients := cs, allset := insert fd (allset s), maxi := max (maxi s) (int i)\<rparr>))"

text \<open>
  What the kernel says to the calls of \<^verbatim>\<open>readable_conn\<close>: the message, the name of the passed socket, and
  the answers \<^verbatim>\<open>sock_bind_wild\<close> gets.
\<close>

record conn_answers =
  c_recv :: recvmsg
  c_name :: "errno + sockaddr"
  c_bind :: "sockaddr \<Rightarrow> errno option"
  c_bound :: "sockaddr \<Rightarrow> errno + sockaddr"

definition clientdone :: "nat \<Rightarrow> int \<Rightarrow> icmpd \<Rightarrow> ieffect list \<times> icmpd" where
  "clientdone i recvfd s =
     (let unixfd = connfd (clients s ! i) in
      (Hung_up unixfd # (if recvfd \<ge> 0 then [Hung_up recvfd] else []),
       s\<lparr>allset := allset s - {unixfd}, clients := (clients s)[i := (clients s ! i)\<lparr>connfd := -1\<rparr>]\<rparr>))"

definition clienterr :: "nat \<Rightarrow> int \<Rightarrow> icmpd \<Rightarrow> ieffect list \<times> icmpd" where
  "clienterr i recvfd s =
     (case clientdone i recvfd s of (es, s') \<Rightarrow> (Answered (connfd (clients s ! i)) False # es, s'))"

definition readable_conn :: "nat \<Rightarrow> conn_answers \<Rightarrow> icmpd \<Rightarrow> (ieffect list \<times> icmpd) outcome" where
  "readable_conn i a s =
     bind_outcome (Read_fd 1 (c_recv a)) (\<lambda>(n, fd).
       let recvfd = (case fd of None \<Rightarrow> -1 | Some fd \<Rightarrow> fd); unixfd = connfd (clients s ! i) in
       if n = 0 then Ret (clientdone i recvfd s)
       else if recvfd < 0 then Ret (clienterr i recvfd s)
       else
         (case c_name a of
            Inl e \<Rightarrow> Ret (clienterr i recvfd s)
          | Inr ss \<Rightarrow>
              (let port = sock_get_port ss;
                   port = (if port = 0 then sock_bind_wild (c_bind a) (c_bound a) (sa_family ss) else port);
                   s = s\<lparr>clients := (clients s)[i := (clients s ! i)\<lparr>family := sa_family ss, lport := port\<rparr>]\<rparr> in
               if sock_get_port ss = 0 \<and> port \<le> 0 then Ret (clienterr i recvfd s)
               else Ret ([Answered unixfd True, Hung_up recvfd], s))))"

section \<open>ICMP errors\<close>

definition ICMP_SOURCEQUENCH :: nat where
  "ICMP_SOURCEQUENCH = 4"

definition ICMP_UNREACH_NEEDFRAG :: nat where
  "ICMP_UNREACH_NEEDFRAG = 4"

definition ICMP6_PACKET_TOO_BIG :: nat where
  "ICMP6_PACKET_TOO_BIG = 2"

text \<open>The loop that finds the clients with the port and writes to them.\<close>

fun tell :: "nat \<Rightarrow> nat \<Rightarrow> icmpd_err \<Rightarrow> client list \<Rightarrow> ieffect list" where
  "tell fam sport err [] = []"
| "tell fam sport err (c # cs) =
     (if connfd c \<ge> 0 \<and> family c = fam \<and> lport c = int sport then [Told (connfd c) err] else []) @ tell fam sport err cs"

abbreviation table :: "icmpd \<Rightarrow> client list" where
  "table s \<equiv> take (nat (maxi s + 1)) (clients s)"

definition errno_v4 :: "nat \<Rightarrow> nat \<Rightarrow> ierrno" where
  "errno_v4 typ code =
     (if typ = ICMP_UNREACH then
        if code = ICMP_UNREACH_PORT then ECONNREFUSED
        else if code = ICMP_UNREACH_NEEDFRAG then EMSGSIZE else EHOSTUNREACH
      else EHOSTUNREACH)"

definition errno_v6 :: "nat \<Rightarrow> nat \<Rightarrow> ierrno" where
  "errno_v6 typ code =
     (let e = (if typ = ICMP6_DST_UNREACH \<and> code = ICMP6_DST_UNREACH_NOPORT then ECONNREFUSED else EHOSTUNREACH) in
      if typ = ICMP6_PACKET_TOO_BIG then EMSGSIZE else e)"

text \<open>
  \<open>le\<close> says that the host is little-endian: ports are compared as the fields they are. A packet that is
  too short ends the daemon.
\<close>

definition readable_v4 :: "bool \<Rightarrow> u8 list \<Rightarrow> icmpd \<Rightarrow> ieffect list outcome option" where
  "readable_v4 le buf s = do {
     b0 \<leftarrow> u8_at buf 0;
     let hlen1 = (b0 mod 16) * 4;
     let icmplen = int (length buf) - int hlen1;
     if icmplen < 8 then Some (Exits ''icmplen < 8'')
     else do {
       typ \<leftarrow> u8_at buf hlen1;
       code \<leftarrow> u8_at buf (hlen1 + 1);
       if typ = ICMP_UNREACH \<or> typ = ICMP_TIMXCEED \<or> typ = ICMP_SOURCEQUENCH then
         if icmplen < 8 + 20 + 8 then Some (Exits ''icmplen < 8 + 20 + 8'')
         else do {
           let hip = hlen1 + 8;
           b \<leftarrow> u8_at buf hip;
           let hlen2 = (b mod 16) * 4;
           src \<leftarrow> bytes_at buf (hip + 12) 4;
           dst \<leftarrow> bytes_at buf (hip + 16) 4;
           p \<leftarrow> u8_at buf (hip + 9);
           if p = IPPROTO_UDP then do {
             sport \<leftarrow> host_at le 2 buf (hip + hlen2);
             dport \<leftarrow> host_at le 2 buf (hip + hlen2 + 2);
             let err = \<lparr>icmpd_errno = errno_v4 typ code, icmpd_type = typ, icmpd_code = code,
                        icmpd_dest = SA_in \<lparr>sin_port = of_nat dport, sin_addr = dst\<rparr>\<rparr>;
             Some (Ret (tell AF_INET sport err (table s)))
           }
           else Some (Ret [])
         }
       else Some (Ret [])
     }
   }"

definition readable_v6 :: "bool \<Rightarrow> u8 list \<Rightarrow> icmpd \<Rightarrow> ieffect list outcome option" where
  "readable_v6 le buf s =
     (let icmp6len = length buf in
      if icmp6len < 8 then Some (Exits ''icmp6len < 8'')
      else do {
        typ \<leftarrow> u8_at buf 0;
        code \<leftarrow> u8_at buf 1;
        if typ = ICMP6_DST_UNREACH \<or> typ = ICMP6_PACKET_TOO_BIG \<or> typ = ICMP6_TIME_EXCEEDED then
          if icmp6len < 8 + 8 then Some (Exits ''icmp6len < 8 + 8'')
          else do {
            src \<leftarrow> bytes_at buf (8 + 8) 16;
            dst \<leftarrow> bytes_at buf (8 + 24) 16;
            p \<leftarrow> u8_at buf (8 + 6);
            if p = IPPROTO_UDP then do {
              sport \<leftarrow> host_at le 2 buf (8 + 40);
              dport \<leftarrow> host_at le 2 buf (8 + 40 + 2);
              let err = \<lparr>icmpd_errno = errno_v6 typ code, icmpd_type = typ, icmpd_code = code,
                         icmpd_dest = SA_in6 \<lparr>sin6_port = of_nat dport, sin6_flowinfo = 0, sin6_addr = dst, sin6_scope_id = 0\<rparr>\<rparr>;
              Some (Ret (tell AF_INET6 sport err (table s)))
            }
            else Some (Ret [])
          }
        else Some (Ret [])
      })"

section \<open>The main loop\<close>

text \<open>What a round brings: the readable descriptors and what each of them gives when it is read.\<close>

record iround =
  i_ready :: "int set"
  i_accept :: int
  i_pkt4 :: "u8 list"
  i_pkt6 :: "u8 list"
  i_conn :: "nat \<Rightarrow> conn_answers"

type_synonym iresult = "(ieffect list \<times> icmpd) outcome option"

text \<open>Go on after a part of the round, unless it ended the daemon, and collect the effects.\<close>

definition and_then :: "iresult \<Rightarrow> (icmpd \<Rightarrow> iresult) \<Rightarrow> iresult" where
  "and_then m f =
     (case m of
        Some (Ret (es, s)) \<Rightarrow> map_option (\<lambda>out. bind_outcome out (\<lambda>(es', s'). Ret (es @ es', s'))) (f s)
      | _ \<Rightarrow> m)"

fun check_conns :: "int set \<Rightarrow> (nat \<Rightarrow> conn_answers) \<Rightarrow> nat list \<Rightarrow> int \<Rightarrow> icmpd \<Rightarrow> iresult" where
  "check_conns rset ans [] nready s = Some (Ret ([], s))"
| "check_conns rset ans (i # is) nready s =
     (if connfd (clients s ! i) < 0 \<or> connfd (clients s ! i) \<notin> rset then check_conns rset ans is nready s
      else
        and_then (Some (readable_conn i (ans i) s))
          (\<lambda>s. if nready - 1 \<le> 0 then Some (Ret ([], s)) else check_conns rset ans is (nready - 1) s))"

text \<open>A descriptor of the daemon itself: when it was the last one ready, the round is over.\<close>

definition if_ready :: "bool \<Rightarrow> (icmpd \<Rightarrow> iresult) \<Rightarrow> (int \<Rightarrow> icmpd \<Rightarrow> iresult) \<Rightarrow> int \<Rightarrow> icmpd \<Rightarrow> iresult" where
  "if_ready rdy act rest nready s =
     (if rdy then and_then (act s) (\<lambda>s. if nready - 1 \<le> 0 then Some (Ret ([], s)) else rest (nready - 1) s)
      else rest nready s)"

definition keeping :: "icmpd \<Rightarrow> ieffect list outcome option \<Rightarrow> iresult" where
  "keeping s m = map_option (\<lambda>out. bind_outcome out (\<lambda>es. Ret (es, s))) m"

definition icmpd_round :: "bool \<Rightarrow> iround \<Rightarrow> icmpd \<Rightarrow> iresult" where
  "icmpd_round le r s =
     (let rset = i_ready r \<inter> allset s in
      if_ready (listenfd s \<in> rset) (\<lambda>s. Some (Ret (readable_listen (i_accept r) s)))
        (if_ready (fd4 s \<in> rset) (\<lambda>s. keeping s (readable_v4 le (i_pkt4 r) s))
          (if_ready (fd6 s \<in> rset) (\<lambda>s. keeping s (readable_v6 le (i_pkt6 r) s))
            (\<lambda>nready s. check_conns rset (i_conn r) [0..<nat (maxi s + 1)] nready s)))
        (int (card rset)) s)"

text \<open>The runs; \<^verbatim>\<open>accept\<close> gives descriptors that are not in use.\<close>

inductive icmpd_run :: "bool \<Rightarrow> icmpd \<Rightarrow> bool" for le where
  start: "distinct [f4, f6, l] \<Longrightarrow> icmpd_run le (icmpd_start f4 f6 l)"
| round: "icmpd_run le s \<Longrightarrow> 0 \<le> i_accept r \<Longrightarrow> i_accept r \<notin> allset s \<Longrightarrow> icmpd_round le r s = Some (Ret (es, s')) \<Longrightarrow> icmpd_run le s'"

section \<open>The invariant\<close>

definition connected :: "icmpd \<Rightarrow> int set" where
  "connected s = {connfd c |c. c \<in> set (clients s) \<and> 0 \<le> connfd c}"

definition icmpd_ok :: "icmpd \<Rightarrow> bool" where
  "icmpd_ok s \<longleftrightarrow> length (clients s) = FD_SETSIZE \<and> -1 \<le> maxi s \<and> maxi s < int FD_SETSIZE
     \<and> (\<forall>i<FD_SETSIZE. 0 \<le> connfd (clients s ! i) \<longrightarrow> int i \<le> maxi s)
     \<and> allset s = {fd4 s, fd6 s, listenfd s} \<union> connected s \<and> connected s \<inter> {fd4 s, fd6 s, listenfd s} = {}
     \<and> distinct (filter (\<lambda>fd. 0 \<le> fd) (map connfd (clients s)))"

lemma icmpd_okI:
  assumes "length (clients s) = FD_SETSIZE" and "-1 \<le> maxi s" and "maxi s < int FD_SETSIZE"
    and "\<And>i. i < FD_SETSIZE \<Longrightarrow> 0 \<le> connfd (clients s ! i) \<Longrightarrow> int i \<le> maxi s"
    and "allset s = {fd4 s, fd6 s, listenfd s} \<union> connected s" and "connected s \<inter> {fd4 s, fd6 s, listenfd s} = {}"
    and "distinct (filter (\<lambda>fd. 0 \<le> fd) (map connfd (clients s)))"
  shows "icmpd_ok s"
  unfolding icmpd_ok_def using assms by (intro conjI) auto

lemma icmpd_okD:
  assumes "icmpd_ok s"
  shows "length (clients s) = FD_SETSIZE" and "-1 \<le> maxi s" and "maxi s < int FD_SETSIZE"
    and "i < FD_SETSIZE \<Longrightarrow> 0 \<le> connfd (clients s ! i) \<Longrightarrow> int i \<le> maxi s"
    and "allset s = {fd4 s, fd6 s, listenfd s} \<union> connected s" and "connected s \<inter> {fd4 s, fd6 s, listenfd s} = {}"
    and "distinct (filter (\<lambda>fd. 0 \<le> fd) (map connfd (clients s)))"
  using assms unfolding icmpd_ok_def by - (elim conjE, (assumption | blast))+

text \<open>The descriptors in use after one element of the table has changed.\<close>

lemma filter_list_update:
  assumes "i < length xs"
  shows "filter P (xs[i := x]) = filter P (take i xs) @ (if P x then [x] else []) @ filter P (drop (Suc i) xs)"
    and "filter P xs = filter P (take i xs) @ (if P (xs ! i) then [xs ! i] else []) @ filter P (drop (Suc i) xs)"
proof -
  show "filter P (xs[i := x]) = filter P (take i xs) @ (if P x then [x] else []) @ filter P (drop (Suc i) xs)"
    unfolding upd_conv_take_nth_drop [OF assms] by simp
  have "filter P xs = filter P (take i xs @ xs ! i # drop (Suc i) xs)"
    using id_take_nth_drop [OF assms] by simp
  then show "filter P xs = filter P (take i xs) @ (if P (xs ! i) then [xs ! i] else []) @ filter P (drop (Suc i) xs)"
    by simp
qed

lemma connected_eq: "connected s = set (filter (\<lambda>fd. 0 \<le> fd) (map connfd (clients s)))"
  by (auto simp: connected_def)

lemma same_connections:
  assumes "icmpd_ok s" and "map connfd (clients s') = map connfd (clients s)" and "maxi s' = maxi s" and "allset s' = allset s"
    and "fd4 s' = fd4 s" and "fd6 s' = fd6 s" and "listenfd s' = listenfd s"
  shows "icmpd_ok s'"
proof -
  note s = icmpd_okD [OF assms(1)]
  have "length (clients s') = length (clients s)"
    using assms(2) map_eq_imp_length_eq by blast
  moreover have "connfd (clients s' ! i) = connfd (clients s ! i)" if "i < FD_SETSIZE" for i
    using that assms(2) s(1) calculation by (metis nth_map)
  moreover have "connected s' = connected s"
    unfolding connected_eq assms(2) ..
  ultimately show ?thesis
    using s unfolding assms(3-7) by (intro icmpd_okI) (simp_all add: assms)
qed

lemma readable_listen_ok:
  assumes "icmpd_ok s" and "0 \<le> fd" and "fd \<notin> allset s" and "readable_listen fd s = (es, s')"
  shows "icmpd_ok s'"
proof (cases "place (\<lambda>c. connfd c < 0) (\<lambda>c. c\<lparr>connfd := fd\<rparr>) (clients s)")
  case None
  then show ?thesis
    using assms(1,4) by (simp add: readable_listen_def)
next
  case (Some p)
  then obtain i cs where p: "place (\<lambda>c. connfd c < 0) (\<lambda>c. c\<lparr>connfd := fd\<rparr>) (clients s) = Some (i, cs)"
    by (cases p) simp
  note u = place_update [OF p] and s = icmpd_okD [OF assms(1)]
  have s': "s' = s\<lparr>clients := cs, allset := insert fd (allset s), maxi := max (maxi s) (int i)\<rparr>"
    using assms(4) p by (simp add: readable_listen_def)
  let ?fds = "map connfd (clients s)"
  have m: "map connfd (clients s') = ?fds[i := fd]"
    by (simp add: s' u(3) map_update)
  note f = filter_list_update [of i ?fds "\<lambda>fd. 0 \<le> fd", simplified length_map, OF u(1)]
  have c: "connected s' = insert fd (connected s)"
    unfolding connected_eq m f(1) [of fd] using u(1,2) assms(2) f(2) by auto
  have new: "fd \<notin> connected s" "fd \<notin> {fd4 s, fd6 s, listenfd s}"
    using assms(3) s(5) by auto
  show ?thesis
  proof (rule icmpd_okI)
    show "distinct (filter (\<lambda>fd. 0 \<le> fd) (map connfd (clients s')))"
      using s(7) new(1) u(1,2) unfolding m f(1) [of fd] connected_eq by (subst (asm) f(2), subst (asm) f(2)) (auto simp: assms(2))
    show "int j \<le> maxi s'" if "j < FD_SETSIZE" "0 \<le> connfd (clients s' ! j)" for j
      using s(4) [of j] that u(1) by (cases "j = i") (auto simp: s' u(3))
  qed (use s c new u(1) in \<open>simp_all add: s' u(3)\<close>)
qed

lemma clientdone_ok:
  assumes "icmpd_ok s" and "i < FD_SETSIZE" and "0 \<le> connfd (clients s ! i)"
  shows "icmpd_ok (snd (clientdone i recvfd s))"
proof -
  note s = icmpd_okD [OF assms(1)]
  let ?u = "connfd (clients s ! i)" and ?s = "snd (clientdone i recvfd s)" and ?fds = "map connfd (clients s)"
  have i: "i < length (clients s)"
    using assms(2) s(1) by simp
  have s': "?s = s\<lparr>allset := allset s - {?u}, clients := (clients s)[i := (clients s ! i)\<lparr>connfd := -1\<rparr>]\<rparr>"
    by (simp add: clientdone_def Let_def)
  have m: "map connfd (clients ?s) = ?fds[i := -1]"
    by (simp add: s' map_update)
  note f = filter_list_update [of i ?fds "\<lambda>fd. 0 \<le> fd", simplified length_map, OF i]
  have d: "distinct (filter (\<lambda>fd. 0 \<le> fd) (take i ?fds) @ [?u] @ filter (\<lambda>fd. 0 \<le> fd) (drop (Suc i) ?fds))"
    using s(7) i assms(3) by (subst (asm) f(2)) simp
  have c: "connected ?s = connected s - {?u}" "?u \<in> connected s"
    using d i assms(3) unfolding connected_eq m f(1) [of "-1"] by (subst f(2), auto)+
  show ?thesis
  proof (rule icmpd_okI)
    show "distinct (filter (\<lambda>fd. 0 \<le> fd) (map connfd (clients ?s)))"
      using d unfolding m f(1) [of "-1"] by simp
    show "int j \<le> maxi ?s" if "j < FD_SETSIZE" "0 \<le> connfd (clients ?s ! j)" for j
      using s(4) [of j] that i by (cases "j = i") (auto simp: s')
    show "allset ?s = {fd4 ?s, fd6 ?s, listenfd ?s} \<union> connected ?s"
      unfolding c(1) using s(5,6) c(2) by (auto simp: s')
    show "connected ?s \<inter> {fd4 ?s, fd6 ?s, listenfd ?s} = {}"
      unfolding c(1) using s(6) by (auto simp: s')
  qed (use s in \<open>simp_all add: s'\<close>)
qed

lemma clienterr_snd: "snd (clienterr i recvfd s) = snd (clientdone i recvfd s)"
  by (simp add: clienterr_def split: prod.splits)

lemma readable_conn_ok:
  assumes "icmpd_ok s" and "i < FD_SETSIZE" and "0 \<le> connfd (clients s ! i)" and "readable_conn i a s = Ret (es, s')"
  shows "icmpd_ok s'"
proof -
  let ?reg = "\<lambda>f p. s\<lparr>clients := (clients s)[i := (clients s ! i)\<lparr>family := f, lport := p\<rparr>]\<rparr>"
  have reg: "icmpd_ok (?reg f p)" "connfd (clients (?reg f p) ! i) = connfd (clients s ! i)" for f p
    using assms(1,2) icmpd_okD(1) [OF assms(1)]
    by (auto intro!: same_connections [OF assms(1)] simp: map_update list_update_same_conv)
  have closed: "icmpd_ok (snd (clientdone i fd s))" "icmpd_ok (snd (clienterr i fd s))" "icmpd_ok (snd (clienterr i fd (?reg f p)))" for fd f p
    unfolding clienterr_snd using assms(1,3) reg by (simp_all add: clientdone_ok [OF _ assms(2)])
  have "icmpd_ok (snd x)" if x: "readable_conn i a s = Ret x" for x
    using x closed reg unfolding readable_conn_def Let_def
    by (cases "Read_fd 1 (c_recv a)") (auto split: if_splits sum.splits prod.splits)
  then show ?thesis
    using assms(4) by force
qed

lemma and_thenE:
  assumes "and_then m f = Some (Ret (es, s'))"
  obtains es1 s1 es2 where "m = Some (Ret (es1, s1))" and "f s1 = Some (Ret (es2, s'))" and "es = es1 @ es2"
proof -
  obtain es1 s1 where m: "m = Some (Ret (es1, s1))"
    using assms by (auto simp: and_then_def split: option.splits outcome.splits)
  obtain out where "f s1 = Some out" "bind_outcome out (\<lambda>(es', s'). Ret (es1 @ es', s')) = Ret (es, s')"
    using assms by (auto simp: and_then_def m)
  then show thesis
    using m that by (cases out) auto
qed

lemma check_conns_ok:
  "icmpd_ok s \<Longrightarrow> \<forall>i\<in>set is. i < FD_SETSIZE \<Longrightarrow> check_conns rset ans is nready s = Some (Ret (es, s')) \<Longrightarrow> icmpd_ok s'"
proof (induction rset ans "is" nready s arbitrary: es rule: check_conns.induct)
  case (2 rset ans i "is" nready s)
  show ?case
  proof (cases "connfd (clients s ! i) < 0 \<or> connfd (clients s ! i) \<notin> rset")
    case True
    then show ?thesis
      using "2.IH"(1) "2.prems" by simp
  next
    case False
    then have "and_then (Some (readable_conn i (ans i) s))
        (\<lambda>s. if nready - 1 \<le> 0 then Some (Ret ([], s)) else check_conns rset ans is (nready - 1) s) = Some (Ret (es, s'))"
      using "2.prems"(3) by auto
    then obtain es1 s1 es2 where s1: "readable_conn i (ans i) s = Ret (es1, s1)"
        "(if nready - 1 \<le> 0 then Some (Ret ([], s1)) else check_conns rset ans is (nready - 1) s1) = Some (Ret (es2, s'))"
      by (elim and_thenE) auto
    have ok: "icmpd_ok s1"
      using False "2.prems"(1,2) by (intro readable_conn_ok [OF _ _ _ s1(1)]) auto
    show ?thesis
      using "2.IH"(2) [OF False _ ok] s1(2) ok "2.prems"(2) by (auto split: if_splits)
  qed
qed simp

lemma if_ready_ok:
  assumes "if_ready rdy act rest nready s = Some (Ret (es, s'))" and "icmpd_ok s" and "\<And>es s'. act s = Some (Ret (es, s')) \<Longrightarrow> icmpd_ok s'"
    and "\<And>nready s es s'. icmpd_ok s \<Longrightarrow> rest nready s = Some (Ret (es, s')) \<Longrightarrow> icmpd_ok s'"
  shows "icmpd_ok s'"
proof (cases rdy)
  case True
  then have "and_then (act s) (\<lambda>s. if nready - 1 \<le> 0 then Some (Ret ([], s)) else rest (nready - 1) s) = Some (Ret (es, s'))"
    using assms(1) by (simp add: if_ready_def)
  then show ?thesis
    using assms(3,4) by (elim and_thenE) (auto split: if_splits)
qed (use assms in \<open>auto simp: if_ready_def\<close>)

lemma keeping_same: "keeping s m = Some (Ret (es, s')) \<Longrightarrow> s' = s"
proof -
  assume "keeping s m = Some (Ret (es, s'))"
  then obtain out where "bind_outcome out (\<lambda>es. Ret (es, s)) = Ret (es, s')"
    by (auto simp: keeping_def)
  then show "s' = s"
    by (cases out) auto
qed

lemma icmpd_round_ok:
  assumes "icmpd_ok s" and "0 \<le> i_accept r" and "i_accept r \<notin> allset s" and "icmpd_round le r s = Some (Ret (es, s'))"
  shows "icmpd_ok s'"
proof -
  let ?rset = "i_ready r \<inter> allset s"
  have conns: "icmpd_ok t'" if "icmpd_ok t" "check_conns ?rset (i_conn r) [0..<nat (maxi t + 1)] n t = Some (Ret (es, t'))" for n t es t'
    using icmpd_okD(3) [OF that(1)] by (intro check_conns_ok [OF that(1) _ that(2)]) auto
  have v6: "icmpd_ok t'"
    if "icmpd_ok t" "if_ready b6 (\<lambda>s. keeping s (readable_v6 le (i_pkt6 r) s))
      (\<lambda>nready s. check_conns ?rset (i_conn r) [0..<nat (maxi s + 1)] nready s) n t = Some (Ret (es, t'))" for b6 n t es t'
    by (rule if_ready_ok [OF that(2,1)]) (use that(1) conns in \<open>auto dest: keeping_same\<close>)
  have v4: "icmpd_ok t'"
    if "icmpd_ok t" "if_ready b4 (\<lambda>s. keeping s (readable_v4 le (i_pkt4 r) s)) (if_ready b6 (\<lambda>s. keeping s (readable_v6 le (i_pkt6 r) s))
      (\<lambda>nready s. check_conns ?rset (i_conn r) [0..<nat (maxi s + 1)] nready s)) n t = Some (Ret (es, t'))" for b4 b6 n t es t'
    by (rule if_ready_ok [OF that(2,1)]) (use that(1) v6 in \<open>auto dest: keeping_same\<close>)
  show ?thesis
    using assms(4) unfolding icmpd_round_def Let_def
    by (rule if_ready_ok [OF _ assms(1)]) (use readable_listen_ok [OF assms(1-3)] v4 in auto)
qed

lemma icmpd_start_ok: "distinct [f4, f6, l] \<Longrightarrow> icmpd_ok (icmpd_start f4 f6 l)"
  by (rule icmpd_okI) (auto simp: icmpd_start_def connected_def FD_SETSIZE_def)

lemma icmpd_run_ok: "icmpd_run le s \<Longrightarrow> icmpd_ok s"
  by (induction rule: icmpd_run.induct) (auto intro: icmpd_start_ok icmpd_round_ok)

section \<open>Who is told\<close>

text \<open>The connections whose element of the table has a family and a port.\<close>

definition registered :: "icmpd \<Rightarrow> nat \<Rightarrow> u16 \<Rightarrow> int list" where
  "registered s fam port = map connfd (filter (\<lambda>c. 0 \<le> connfd c \<and> family c = fam \<and> lport c = int (unat port)) (clients s))"

lemma tell_eq:
  "tell fam sport err cs = map (\<lambda>c. Told (connfd c) err) (filter (\<lambda>c. 0 \<le> connfd c \<and> family c = fam \<and> lport c = int sport) cs)"
  by (induction cs) auto

lemma tell_table:
  assumes "icmpd_ok s"
  shows "tell fam (unat port) err (table s) = map (\<lambda>fd. Told fd err) (registered s fam port)"
proof -
  let ?n = "nat (maxi s + 1)" and ?P = "\<lambda>c. 0 \<le> connfd c \<and> family c = fam \<and> lport c = int (unat port)"
  note s = icmpd_okD [OF assms]
  have "\<not> 0 \<le> connfd c" if c: "c \<in> set (drop ?n (clients s))" for c
  proof -
    obtain j where j: "j < length (drop ?n (clients s))" "drop ?n (clients s) ! j = c"
      using c by (auto simp only: in_set_conv_nth)
    then have "c = clients s ! (?n + j)" "?n + j < FD_SETSIZE"
      using s(1) by (simp_all add: nth_drop)
    then show ?thesis
      using s(2) s(4) [of "?n + j"] by auto
  qed
  then have none: "filter ?P (drop ?n (clients s)) = []"
    by (auto simp: filter_empty_conv)
  have "filter ?P (clients s) = filter ?P (table s) @ filter ?P (drop ?n (clients s))"
    unfolding filter_append [symmetric] append_take_drop_id ..
  then show ?thesis
    unfolding tell_eq registered_def none by simp
qed

lemma unat_htons: "unat (htons le n) = host_val le (net_bytes 2 n)"
  using host_val_less [of le "net_bytes 2 n"] by (simp add: htons_def unat_of_nat_u16)

lemma port_at: "at = length xs \<Longrightarrow> host_at le 2 (xs @ net_bytes 2 n @ zs) at = Some (unat (htons le n))"
  by (simp add: host_at_def bytes_at_mid unat_htons)

text \<open>
  What the client is to be told, by the numbers of RFC 792: type 3 is an unreachable destination, with
  code 3 for the port and 4 for a datagram that needed fragmentation.
\<close>

definition err_v4 :: "bool \<Rightarrow> nat \<Rightarrow> nat \<Rightarrow> u8 list \<Rightarrow> nat \<Rightarrow> icmpd_err" where
  "err_v4 le typ code h2 dp =
     \<lparr>icmpd_errno = (if (typ, code) = (3, 3) then ECONNREFUSED else if (typ, code) = (3, 4) then EMSGSIZE else EHOSTUNREACH),
      icmpd_type = typ, icmpd_code = code,
      icmpd_dest = SA_in \<lparr>sin_port = htons le dp, sin_addr = take 4 (drop 16 h2)\<rparr>\<rparr>"

lemma errno_v4_eq:
  "errno_v4 typ code = (if (typ, code) = (3, 3) then ECONNREFUSED else if (typ, code) = (3, 4) then EMSGSIZE else EHOSTUNREACH)"
  by (auto simp: errno_v4_def ICMP_UNREACH_def ICMP_UNREACH_PORT_def ICMP_UNREACH_NEEDFRAG_def)

lemma readable_v4_built:
  assumes ok: "icmpd_ok s" and h1: "ip_header_ok h1" and h2: "ip_header_ok h2" "unat (h2 ! 9) = IPPROTO_UDP"
    and "length six = 6" and "4 \<le> length rest" and "typ = ICMP_UNREACH \<or> typ = ICMP_TIMXCEED \<or> typ = ICMP_SOURCEQUENCH" and "code < 256"
  shows "readable_v4 le (icmp_error h1 typ code six h2 sp dp rest) s =
    Some (Ret (map (\<lambda>fd. Told fd (err_v4 le typ code h2 dp)) (registered s AF_INET (htons le sp))))"
proof -
  let ?pre = "h1 @ [of_nat typ, of_nat code] @ six @ h2"
  define m where "m = icmp_error h1 typ code six h2 sp dp rest"
  have m: "m = ?pre @ net_bytes 2 sp @ net_bytes 2 dp @ rest"
    by (simp add: m_def icmp_error_def)
  have l: "20 \<le> length h1" "20 \<le> length h2" "h1 \<noteq> []" "h2 \<noteq> []"
    using h1 h2 by (auto simp: ip_header_ok_def)
  have t: "typ < 256"
    using assms(7) by (auto simp: ICMP_UNREACH_def ICMP_TIMXCEED_def ICMP_SOURCEQUENCH_def)
  have u8: "u8_at m i = Some (unat (?pre ! i))" if "i < length ?pre" for i
    unfolding m using that by (rule u8_at_mid)
  have head: "u8_at m 0 = Some (unat (h1 ! 0))" "u8_at m (length h1) = Some typ" "u8_at m (length h1 + 1) = Some code"
    "u8_at m (length h1 + 8) = Some (unat (h2 ! 0))" "u8_at m (length h1 + 8 + 9) = Some IPPROTO_UDP"
    using l t assms(4,5,8) u8 [of 0] u8 [of "length h1"] u8 [of "length h1 + 1"] u8 [of "length h1 + 8"] u8 [of "length h1 + 8 + 9"]
    by (auto simp: nth_append unat_of_nat_u8)
  have addr: "bytes_at m (length h1 + 8 + k) 4 = Some (take 4 (drop k h2))" if "k + 4 \<le> 20" for k
  proof -
    define p where "p = h1 @ [of_nat typ, of_nat code] @ six"
    have "m = p @ h2 @ net_bytes 2 sp @ net_bytes 2 dp @ rest" "length p = length h1 + 8"
      using assms(5) by (simp_all add: m p_def)
    then show ?thesis
      using that l by (simp add: bytes_at_def)
  qed
  have ports: "host_at le 2 m (length h1 + 8 + length h2) = Some (unat (htons le sp))"
    "host_at le 2 m (length h1 + 8 + length h2 + 2) = Some (unat (htons le dp))"
    unfolding m using assms(5) port_at [of "length h1 + 8 + length h2" ?pre le sp]
      port_at [of "length h1 + 8 + length h2 + 2" "?pre @ net_bytes 2 sp" le dp rest] by simp_all
  have len: "length m = length h1 + 8 + length h2 + 4 + length rest"
    unfolding m using assms(5) by simp
  have hl: "unat (h1 ! 0) mod 16 * 4 = length h1" "unat (h2 ! 0) mod 16 * 4 = length h2"
    using h1 h2(1) by (simp_all add: ip_header_ok_def)
  then have "int (unat (h1 ! 0) mod 16) * 4 = int (length h1)"
    by linarith
  then show ?thesis
    unfolding m_def [symmetric] readable_v4_def Let_def using assms(6,7) l
    by (simp add: head [simplified] hl addr [of 12, simplified] addr [of 16, simplified] ports [simplified] len tell_table [OF ok] err_v4_def errno_v4_eq)
qed

text \<open>The same for IPv6, where the packet starts with the ICMPv6 header.\<close>

definition icmp6_error :: "nat \<Rightarrow> nat \<Rightarrow> u8 list \<Rightarrow> u8 list \<Rightarrow> nat \<Rightarrow> nat \<Rightarrow> u8 list \<Rightarrow> u8 list" where
  "icmp6_error typ code six h2 sp dp rest =
     ([of_nat typ, of_nat code] @ six @ h2) @ net_bytes 2 sp @ net_bytes 2 dp @ rest"

text \<open>By RFC 4443: type 1 code 4 is an unreachable port, type 2 a packet that was too big.\<close>

definition err_v6 :: "bool \<Rightarrow> nat \<Rightarrow> nat \<Rightarrow> u8 list \<Rightarrow> nat \<Rightarrow> icmpd_err" where
  "err_v6 le typ code h2 dp =
     \<lparr>icmpd_errno = (if (typ, code) = (1, 4) then ECONNREFUSED else if typ = 2 then EMSGSIZE else EHOSTUNREACH),
      icmpd_type = typ, icmpd_code = code,
      icmpd_dest = SA_in6 \<lparr>sin6_port = htons le dp, sin6_flowinfo = 0, sin6_addr = take 16 (drop 24 h2), sin6_scope_id = 0\<rparr>\<rparr>"

lemma errno_v6_eq:
  "errno_v6 typ code = (if (typ, code) = (1, 4) then ECONNREFUSED else if typ = 2 then EMSGSIZE else EHOSTUNREACH)"
  by (auto simp: errno_v6_def ICMP6_DST_UNREACH_def ICMP6_DST_UNREACH_NOPORT_def ICMP6_PACKET_TOO_BIG_def Let_def)

lemma readable_v6_built:
  assumes ok: "icmpd_ok s" and h2: "length h2 = 40" "unat (h2 ! 6) = IPPROTO_UDP" and "length six = 6"
    and "typ = ICMP6_DST_UNREACH \<or> typ = ICMP6_PACKET_TOO_BIG \<or> typ = ICMP6_TIME_EXCEEDED" and "code < 256"
  shows "readable_v6 le (icmp6_error typ code six h2 sp dp rest) s =
    Some (Ret (map (\<lambda>fd. Told fd (err_v6 le typ code h2 dp)) (registered s AF_INET6 (htons le sp))))"
proof -
  let ?pre = "[of_nat typ, of_nat code] @ six @ h2"
  define m where "m = icmp6_error typ code six h2 sp dp rest"
  have m: "m = ?pre @ net_bytes 2 sp @ net_bytes 2 dp @ rest"
    by (simp add: m_def icmp6_error_def)
  have t: "typ < 256"
    using assms(5) by (auto simp: ICMP6_DST_UNREACH_def ICMP6_PACKET_TOO_BIG_def ICMP6_TIME_EXCEEDED_def)
  have u8: "u8_at m i = Some (unat (?pre ! i))" if "i < length ?pre" for i
    unfolding m using that by (rule u8_at_mid)
  have head: "u8_at m 0 = Some typ" "u8_at m 1 = Some code" "u8_at m 14 = Some IPPROTO_UDP"
    using t assms(2-4,6) u8 [of 0] u8 [of 1] u8 [of 14] by (auto simp: nth_append unat_of_nat_u8)
  have addr: "bytes_at m (8 + k) 16 = Some (take 16 (drop k h2))" if "k + 16 \<le> 40" for k
  proof -
    define p where "p = [of_nat typ, of_nat code] @ six"
    have "m = p @ h2 @ net_bytes 2 sp @ net_bytes 2 dp @ rest" "length p = 8"
      using assms(4) by (simp_all add: m p_def)
    then show ?thesis
      using that h2(1) by (simp add: bytes_at_def)
  qed
  have ports: "host_at le 2 m 48 = Some (unat (htons le sp))" "host_at le 2 m 50 = Some (unat (htons le dp))"
    unfolding m using assms(2,4) port_at [of 48 ?pre le sp] port_at [of 50 "?pre @ net_bytes 2 sp" le dp rest] by simp_all
  have len: "length m = 52 + length rest"
    unfolding m using assms(2,4) by simp
  show ?thesis
    unfolding m_def [symmetric] readable_v6_def Let_def using assms(5)
    by (simp add: head [simplified] addr [of 8, simplified] addr [of 24, simplified] ports [simplified] len tell_table [OF ok] err_v6_def errno_v6_eq)
qed

text \<open>A client that passes its socket is registered with the port of the socket.\<close>

lemma readable_conn_registers:
  assumes "icmpd_ok s" and "i < FD_SETSIZE" and "connfd (clients s ! i) = c" and "0 \<le> c" and "c_recv a = Recv_msg (write_fd [b] fd)" and "0 \<le> fd"
    and "c_name a = Inr name" and "sock_get_port name = int (unat port)" and "port \<noteq> 0"
  shows "\<exists>s'. readable_conn i a s = Ret ([Answered c True, Hung_up fd], s') \<and> icmpd_ok s' \<and> c \<in> set (registered s' (sa_family name) port)"
proof -
  let ?s = "s\<lparr>clients := (clients s)[i := (clients s ! i)\<lparr>family := sa_family name, lport := int (unat port)\<rparr>]\<rparr>"
  have nz: "int (unat port) \<noteq> 0"
    using assms(9) by (simp add: word_uint_eq_iff)
  have r: "readable_conn i a s = Ret ([Answered c True, Hung_up fd], ?s)"
    unfolding readable_conn_def assms(5) Read_write_fd [OF assms(6)] using assms(3,6-8) nz by (simp add: Let_def)
  moreover have "icmpd_ok ?s"
    by (rule readable_conn_ok [OF assms(1,2) _ r]) (simp add: assms(3,4))
  moreover have "c \<in> set (registered ?s (sa_family name) port)"
    unfolding registered_def set_map set_filter
  proof (rule image_eqI)
    let ?c = "(clients s ! i)\<lparr>family := sa_family name, lport := int (unat port)\<rparr>"
    show "c = connfd ?c"
      using assms(3) by simp
    show "?c \<in> {c \<in> set (clients ?s). 0 \<le> connfd c \<and> family c = sa_family name \<and> lport c = int (unat port)}"
      using assms(2-4) icmpd_okD(1) [OF assms(1)] by (simp add: set_update_memI)
  qed
  ultimately show ?thesis
    by blast
qed

section \<open>Properties\<close>

text \<open>
  (C16) A client that passes a bound UDP socket over its connection is answered that all is well, and
  an ICMP error that quotes a datagram sent from that port is then told to it, with the address the datagram
  was sent to and the error number for its type and code: \<^verbatim>\<open>ECONNREFUSED\<close> for an unreachable port,
  \<^verbatim>\<open>EMSGSIZE\<close> for a datagram that is too big, \<^verbatim>\<open>EHOSTUNREACH\<close> for all others. Of all connections exactly
  those are told whose element of the table has this family and port. The errors are those of the types
  unreachable, time exceeded and source quench for IPv4, with IP headers of any length, and unreachable,
  too big and time exceeded for IPv6.
\<close>

theorem icmpd_tells:
  assumes "icmpd_run le s" and "i < FD_SETSIZE" and "connfd (clients s ! i) = c" and "0 \<le> c" and "c_recv a = Recv_msg (write_fd [b] fd)"
    and "0 \<le> fd" and "c_name a = Inr name" and "sock_get_port name = int (unat (htons le sp))" and "htons le sp \<noteq> 0" and "length six = 6"
    and "code < 256"
  shows "\<exists>s'. readable_conn i a s = Ret ([Answered c True, Hung_up fd], s') \<and> c \<in> set (registered s' (sa_family name) (htons le sp))
    \<and> (ip_header_ok h1 \<and> ip_header_ok h2 \<and> unat (h2 ! 9) = 17 \<and> 4 \<le> length rest \<and> typ \<in> {3, 11, 4} \<longrightarrow>
         readable_v4 le (icmp_error h1 typ code six h2 sp dp rest) s' =
           Some (Ret (map (\<lambda>fd. Told fd (err_v4 le typ code h2 dp)) (registered s' AF_INET (htons le sp)))))
    \<and> (length h6 = 40 \<and> unat (h6 ! 6) = 17 \<and> typ \<in> {1, 2, 3} \<longrightarrow>
         readable_v6 le (icmp6_error typ code six h6 sp dp rest) s' =
           Some (Ret (map (\<lambda>fd. Told fd (err_v6 le typ code h6 dp)) (registered s' AF_INET6 (htons le sp)))))"
proof -
  obtain s' where s': "readable_conn i a s = Ret ([Answered c True, Hung_up fd], s')" "icmpd_ok s'"
      "c \<in> set (registered s' (sa_family name) (htons le sp))"
    using readable_conn_registers [OF icmpd_run_ok [OF assms(1)] assms(2-9)] by blast
  then show ?thesis
    using readable_v4_built [OF s'(2) _ _ _ assms(10) _ _ assms(11)] readable_v6_built [OF s'(2) _ _ assms(10) _ assms(11)]
    unfolding IPPROTO_UDP_def ICMP_UNREACH_def ICMP_TIMXCEED_def ICMP_SOURCEQUENCH_def ICMP6_DST_UNREACH_def
      ICMP6_PACKET_TOO_BIG_def ICMP6_TIME_EXCEEDED_def by auto
qed

definition quoted_header :: "u8 list" where
  "quoted_header = [0x45, 0, 0, 40, 0, 0, 0, 0, 64, 17, 0, 0, 10, 0, 0, 1, 192, 168, 0, 7]"

definition one_client :: icmpd where
  "one_client =
     (icmpd_start 3 4 5)\<lparr>clients := \<lparr>connfd = 6, family = 0, lport = 0\<rparr> # replicate 1023 \<lparr>connfd = -1, family = 0, lport = 0\<rparr>,
       allset := {6, 3, 4, 5}, maxi := 0\<rparr>"

lemma one_client_run: "icmpd_run False one_client"
proof (rule icmpd_run.round [OF icmpd_run.start])
  show "distinct [3, 4, 5 :: int]"
    by simp
  let ?r = "\<lparr>i_ready = {5}, i_accept = 6, i_pkt4 = [], i_pkt6 = [], i_conn = (\<lambda>i. undefined)\<rparr>"
  show "0 \<le> i_accept ?r" "i_accept ?r \<notin> allset (icmpd_start 3 4 5)"
    by (simp_all add: icmpd_start_def)
  have "replicate FD_SETSIZE c = c # replicate 1023 c" for c :: client
    using replicate_Suc [of 1023 c] by (simp add: FD_SETSIZE_def del: replicate_Suc)
  then have "readable_listen 6 (icmpd_start 3 4 5) = ([], one_client)"
    by (simp add: readable_listen_def icmpd_start_def one_client_def)
  then show "icmpd_round False ?r (icmpd_start 3 4 5) = Some (Ret ([], one_client))"
    by (simp add: icmpd_round_def if_ready_def and_then_def icmpd_start_def Let_def)
qed

definition a_registration :: conn_answers where
  "a_registration =
     \<lparr>c_recv = Recv_msg (write_fd [49] 9), c_name = Inr (SA_in \<lparr>sin_port = 5000, sin_addr = [0, 0, 0, 0]\<rparr>),
      c_bind = (\<lambda>sa. None), c_bound = Inr\<rparr>"

lemma htons_5000: "htons False 5000 = 5000"
  by (simp add: htons_def host_val_bytes)

lemma quoted_header_ok: "ip_header_ok quoted_header" "unat (quoted_header ! 9) = IPPROTO_UDP"
  by (simp_all add: ip_header_ok_def quoted_header_def IPPROTO_UDP_def)

theorem icmpd_tells_witness:
  "\<exists>s'. readable_conn 0 a_registration one_client = Ret ([Answered 6 True, Hung_up 9], s')
    \<and> readable_v4 False (icmp_error quoted_header 3 3 [0, 0, 0, 0, 0, 0] quoted_header 5000 53 [0, 8, 0, 0]) s' =
        Some (Ret (map (\<lambda>fd. Told fd \<lparr>icmpd_errno = ECONNREFUSED, icmpd_type = 3, icmpd_code = 3,
            icmpd_dest = SA_in \<lparr>sin_port = htons False 53, sin_addr = [192, 168, 0, 7]\<rparr>\<rparr>) (registered s' AF_INET 5000)))"
proof -
  have "connfd (clients one_client ! 0) = 6"
    by (simp add: one_client_def)
  then show ?thesis
    using icmpd_tells [OF one_client_run, of 0 6 a_registration 49 9 _ 5000 "[0, 0, 0, 0, 0, 0]" 3 quoted_header quoted_header
        "[0, 8, 0, 0]" 3 53 "[]"] quoted_header_ok
    by (auto simp: htons_5000 FD_SETSIZE_def IPPROTO_UDP_def sock_get_port_def a_registration_def err_v4_def quoted_header_def)
qed

text \<open>
  (C40) An element of the table keeps family and port when its client hangs up, and \<^verbatim>\<open>readable_listen\<close>
  hands it to the next client as it is: a client that has only just connected is told of the ICMP
  errors caused by the datagrams of another program, the former owner of its element.
\<close>

theorem icmpd_stale_registration:
  assumes "icmpd_run le s" and "i < FD_SETSIZE" and "connfd (clients s ! i) = c" and "0 \<le> c" and "\<forall>j<i. 0 \<le> connfd (clients s ! j)"
    and "family (clients s ! i) = AF_INET" and "lport (clients s ! i) = int (unat (htons le sp))" and "0 \<le> d" and "d \<notin> allset s"
    and "c_recv a = Recv_eof" and "ip_header_ok h1" and "ip_header_ok h2" and "unat (h2 ! 9) = IPPROTO_UDP" and "length six = 6"
    and "code < 256" and "4 \<le> length rest"
  shows "\<exists>s1 s2 es. readable_conn i a s = Ret ([Hung_up c], s1) \<and> readable_listen d s1 = ([], s2)
    \<and> readable_v4 le (icmp_error h1 ICMP_UNREACH code six h2 sp dp rest) s2 = Some (Ret es)
    \<and> Told d (err_v4 le ICMP_UNREACH code h2 dp) \<in> set es"
proof -
  note s = icmpd_run_ok [OF assms(1)]
  let ?s1 = "snd (clientdone i (-1) s)"
  have i: "i < length (clients s)"
    using assms(2) icmpd_okD(1) [OF s] by simp
  have s1: "?s1 = s\<lparr>allset := allset s - {c}, clients := (clients s)[i := (clients s ! i)\<lparr>connfd := -1\<rparr>]\<rparr>"
    by (simp add: clientdone_def Let_def assms(3))
  have r1: "readable_conn i a s = Ret ([Hung_up c], ?s1)"
    using assms(3,10) by (simp add: readable_conn_def Read_fd_def read_fd_def clientdone_def Let_def)
  have ok1: "icmpd_ok ?s1"
    by (rule clientdone_ok [OF s assms(2)]) (simp add: assms(3,4))
  let ?free = "\<lambda>c. connfd c < 0" and ?st = "\<lambda>c. c\<lparr>connfd := d\<rparr>"
  have "\<forall>p\<in>set (take i (clients s)). \<not> ?free p"
    using assms(5) i by (auto simp: in_set_conv_nth not_less)
  from place_first [OF this, of "(clients s ! i)\<lparr>connfd := -1\<rparr>" ?st "drop (Suc i) (clients s)"]
  have "place ?free ?st (clients ?s1) = Some (i, (clients s)[i := (clients s ! i)\<lparr>connfd := d\<rparr>])"
    using i by (simp add: s1 upd_conv_take_nth_drop [OF i])
  then obtain s2 where s2: "readable_listen d ?s1 = ([], s2)" "clients s2 = (clients s)[i := (clients s ! i)\<lparr>connfd := d\<rparr>]"
    by (simp add: readable_listen_def)
  have ok2: "icmpd_ok s2"
    using assms(8,9) by (intro readable_listen_ok [OF ok1 _ _ s2(1)]) (simp_all add: s1)
  have "d \<in> set (registered s2 AF_INET (htons le sp))"
    unfolding registered_def set_map set_filter
  proof (rule image_eqI)
    show "(clients s ! i)\<lparr>connfd := d\<rparr> \<in> {c \<in> set (clients s2). 0 \<le> connfd c \<and> family c = AF_INET \<and> lport c = int (unat (htons le sp))}"
      using i assms(6-8) by (simp add: s2(2) set_update_memI)
  qed simp
  then show ?thesis
    using r1 s2(1) readable_v4_built [OF ok2 assms(11-14,16) _ assms(15), of ICMP_UNREACH le sp dp] by auto
qed

definition former_client :: icmpd where
  "former_client = one_client\<lparr>clients := (clients one_client)[0 := \<lparr>connfd = 6, family = AF_INET, lport = 5000\<rparr>]\<rparr>"

lemma former_client_run: "icmpd_run False former_client"
proof (rule icmpd_run.round [OF one_client_run])
  let ?r = "\<lparr>i_ready = {6}, i_accept = 7, i_pkt4 = [], i_pkt6 = [], i_conn = (\<lambda>i. a_registration)\<rparr>"
  show "0 \<le> i_accept ?r" "i_accept ?r \<notin> allset one_client"
    by (simp_all add: one_client_def)
  have "readable_conn 0 a_registration one_client = Ret ([Answered 6 True, Hung_up 9], former_client)"
    by (simp add: readable_conn_def a_registration_def Read_write_fd [simplified] sock_get_port_def former_client_def one_client_def
        Let_def)
  then show "icmpd_round False ?r one_client = Some (Ret ([Answered 6 True, Hung_up 9], former_client))"
    by (simp add: icmpd_round_def if_ready_def and_then_def one_client_def icmpd_start_def Let_def)
qed

theorem icmpd_stale_registration_witness:
  "\<exists>s1 s2 es. readable_conn 0 (a_registration\<lparr>c_recv := Recv_eof\<rparr>) former_client = Ret ([Hung_up 6], s1) \<and> readable_listen 8 s1 = ([], s2)
    \<and> readable_v4 False (icmp_error quoted_header ICMP_UNREACH ICMP_UNREACH_PORT [0, 0, 0, 0, 0, 0] quoted_header 5000 53 [0, 8, 0, 0]) s2 = Some (Ret es)
    \<and> Told 8 (err_v4 False ICMP_UNREACH ICMP_UNREACH_PORT quoted_header 53) \<in> set es"
proof -
  have "clients former_client ! 0 = \<lparr>connfd = 6, family = AF_INET, lport = 5000\<rparr>" "8 \<notin> allset former_client"
    by (simp_all add: former_client_def one_client_def)
  then show ?thesis
    using icmpd_stale_registration [OF former_client_run, of 0 6 5000 8 "a_registration\<lparr>c_recv := Recv_eof\<rparr>" quoted_header quoted_header
        "[0, 0, 0, 0, 0, 0]" ICMP_UNREACH_PORT "[0, 8, 0, 0]" 53] quoted_header_ok
    by (auto simp: htons_5000 FD_SETSIZE_def ICMP_UNREACH_PORT_def)
qed

end
