(* ===== verification/Web.thy ===== *)
theory Web
  imports Prelude
begin

text \<open>
  The web client of \<^verbatim>\<open>nonblock/web.c\<close>, which fetches files over several connections at once with
  non-blocking connects. A round of the outer loop starts connections, calls \<^verbatim>\<open>select\<close> and looks at
  every file. The home page it fetches first, the resolution of the host name and the text it prints
  are left out; a failing system call that ends the program is a failing answer.
\<close>

unbundle bit_operations_syntax

section \<open>The state\<close>

definition F_CONNECTING :: nat where "F_CONNECTING = 1"
definition F_READING :: nat where "F_READING = 2"
definition F_DONE :: nat where "F_DONE = 4"

lemmas flag_defs = F_CONNECTING_def F_READING_def F_DONE_def

record webfile =
  f_fd :: int
  f_flags :: nat

record web =
  files :: "webfile list"
  nconn :: int
  nlefttoconn :: int
  nlefttoread :: int
  maxfd :: int
  rset :: "int set"
  wset :: "int set"

definition web_start :: "nat \<Rightarrow> web" where
  "web_start n =
     \<lparr>files = replicate n \<lparr>f_fd = 0, f_flags = 0\<rparr>, nconn = 0, nlefttoconn = int n, nlefttoread = int n, maxfd = -1, rset = {},
      wset = {}\<rparr>"

text \<open>
  What the kernel answers in a round, by the index of the file: the new descriptor and the error of
  \<^verbatim>\<open>connect\<close>, whether the request can be written, and what a read finds. \<open>w_ready\<close> are the descriptors that are
  readable, \<open>w_writable\<close> those that are writable.
\<close>

datatype wread = Read_failed | Read_eof | Read_data

record wround =
  w_fd :: "nat \<Rightarrow> int"
  w_connect :: "nat \<Rightarrow> errno option"
  w_written :: "nat \<Rightarrow> bool"
  w_read :: "nat \<Rightarrow> wread"
  w_ready :: "int set"
  w_writable :: "int set"

section \<open>The functions\<close>

definition write_get_cmd :: "wround \<Rightarrow> nat \<Rightarrow> web \<Rightarrow> web outcome" where
  "write_get_cmd r i s =
     (if w_written r i then
        Ret (s\<lparr>files := (files s)[i := (files s ! i)\<lparr>f_flags := F_READING\<rparr>], rset := insert (f_fd (files s ! i)) (rset s),
               maxfd := max (maxfd s) (f_fd (files s ! i))\<rparr>)
      else Exits ''writen error'')"

definition start_connect :: "wround \<Rightarrow> nat \<Rightarrow> web \<Rightarrow> web outcome" where
  "start_connect r i s =
     (let fd = w_fd r i; s = s\<lparr>files := (files s)[i := (files s ! i)\<lparr>f_fd := fd\<rparr>]\<rparr> in
      case w_connect r i of
        Some e \<Rightarrow>
          if e \<noteq> EINPROGRESS then Exits ''nonblocking connect error''
          else Ret (s\<lparr>files := (files s)[i := (files s ! i)\<lparr>f_flags := F_CONNECTING\<rparr>], rset := insert fd (rset s), wset := insert fd (wset s),
                      maxfd := max (maxfd s) fd\<rparr>)
      | None \<Rightarrow> write_get_cmd r i s)"

text \<open>The inner loop, which starts connections; every pass takes one from \<^verbatim>\<open>nlefttoconn\<close>, so that many are enough.\<close>

fun start_conns :: "wround \<Rightarrow> int \<Rightarrow> nat \<Rightarrow> web \<Rightarrow> web outcome" where
  "start_conns r maxnconn 0 s = Ret s"
| "start_conns r maxnconn (Suc n) s =
     (if nconn s < maxnconn \<and> nlefttoconn s > 0 then
        (case find (\<lambda>i. f_flags (files s ! i) = 0) [0..<length (files s)] of
           None \<Rightarrow> Exits ''nlefttoconn but nothing found''
         | Some i \<Rightarrow>
             bind_outcome (start_connect r i s)
               (\<lambda>s. start_conns r maxnconn n (s\<lparr>nconn := nconn s + 1, nlefttoconn := nlefttoconn s - 1\<rparr>)))
      else Ret s)"

text \<open>One pass of the loop over the files; a failed connect is only reported.\<close>

definition web_file :: "wround \<Rightarrow> int set \<Rightarrow> int set \<Rightarrow> nat \<Rightarrow> web \<Rightarrow> web outcome" where
  "web_file r rs ws i s =
     (let flags = f_flags (files s ! i); fd = f_fd (files s ! i) in
      if flags = 0 \<or> flags AND F_DONE \<noteq> 0 then Ret s
      else if flags AND F_CONNECTING \<noteq> 0 \<and> (fd \<in> rs \<or> fd \<in> ws) then write_get_cmd r i (s\<lparr>wset := wset s - {fd}\<rparr>)
      else if flags AND F_READING \<noteq> 0 \<and> fd \<in> rs then
        (case w_read r i of
           Read_failed \<Rightarrow> Exits ''read error''
         | Read_eof \<Rightarrow>
             Ret (s\<lparr>files := (files s)[i := (files s ! i)\<lparr>f_flags := F_DONE\<rparr>], rset := rset s - {fd}, nconn := nconn s - 1,
                    nlefttoread := nlefttoread s - 1\<rparr>)
         | Read_data \<Rightarrow> Ret s)
      else Ret s)"

fun web_files :: "wround \<Rightarrow> int set \<Rightarrow> int set \<Rightarrow> nat list \<Rightarrow> web \<Rightarrow> web outcome" where
  "web_files r rs ws [] s = Ret s"
| "web_files r rs ws (i # is) s = bind_outcome (web_file r rs ws i s) (web_files r rs ws is)"

text \<open>\<^verbatim>\<open>select\<close> looks at the descriptors up to \<^verbatim>\<open>maxfd\<close> only.\<close>

definition web_round :: "int \<Rightarrow> wround \<Rightarrow> web \<Rightarrow> web outcome" where
  "web_round maxnconn r s =
     bind_outcome (start_conns r maxnconn (nat (nlefttoconn s)) s)
       (\<lambda>s. web_files r (w_ready r \<inter> rset s \<inter> {..maxfd s}) (w_writable r \<inter> wset s \<inter> {..maxfd s}) [0..<length (files s)] s)"

text \<open>The runs, up to the end of the outer loop. New descriptors differ from each other and from those in use.\<close>

definition new_fds :: "wround \<Rightarrow> web \<Rightarrow> bool" where
  "new_fds r s \<longleftrightarrow> inj (w_fd r) \<and> range (w_fd r) \<inter> rset s = {}"

inductive web_run :: "int \<Rightarrow> nat \<Rightarrow> web \<Rightarrow> bool" for maxnconn n where
  start: "web_run maxnconn n (web_start n)"
| round: "web_run maxnconn n s \<Longrightarrow> nlefttoread s > 0 \<Longrightarrow> new_fds r s \<Longrightarrow> web_round maxnconn r s = Ret s' \<Longrightarrow> web_run maxnconn n s'"

section \<open>The invariant\<close>

definition active :: "webfile \<Rightarrow> bool" where
  "active f \<longleftrightarrow> f_flags f = F_CONNECTING \<or> f_flags f = F_READING"

definition web_ok :: "web \<Rightarrow> bool" where
  "web_ok s \<longleftrightarrow> list_all (\<lambda>f. f_flags f = 0 \<or> active f \<or> f_flags f = F_DONE) (files s)
     \<and> nconn s = int (length (filter active (files s)))
     \<and> nlefttoconn s = int (length (filter (\<lambda>f. f_flags f = 0) (files s)))
     \<and> nlefttoread s = int (length (filter (\<lambda>f. f_flags f \<noteq> F_DONE) (files s)))
     \<and> rset s = set (map f_fd (filter active (files s)))
     \<and> wset s = set (map f_fd (filter (\<lambda>f. f_flags f = F_CONNECTING) (files s)))
     \<and> distinct (map f_fd (filter active (files s)))
     \<and> rset s \<subseteq> {..maxfd s}"

lemma web_okI:
  assumes "list_all (\<lambda>f. f_flags f = 0 \<or> active f \<or> f_flags f = F_DONE) (files s)" and "nconn s = int (length (filter active (files s)))"
    and "nlefttoconn s = int (length (filter (\<lambda>f. f_flags f = 0) (files s)))"
    and "nlefttoread s = int (length (filter (\<lambda>f. f_flags f \<noteq> F_DONE) (files s)))"
    and "rset s = set (map f_fd (filter active (files s)))" and "wset s = set (map f_fd (filter (\<lambda>f. f_flags f = F_CONNECTING) (files s)))"
    and "distinct (map f_fd (filter active (files s)))" and "rset s \<subseteq> {..maxfd s}"
  shows "web_ok s"
  unfolding web_ok_def using assms by (intro conjI)

lemma web_okD:
  assumes "web_ok s"
  shows "list_all (\<lambda>f. f_flags f = 0 \<or> active f \<or> f_flags f = F_DONE) (files s)" and "nconn s = int (length (filter active (files s)))"
    and "nlefttoconn s = int (length (filter (\<lambda>f. f_flags f = 0) (files s)))"
    and "nlefttoread s = int (length (filter (\<lambda>f. f_flags f \<noteq> F_DONE) (files s)))"
    and "rset s = set (map f_fd (filter active (files s)))" and "wset s = set (map f_fd (filter (\<lambda>f. f_flags f = F_CONNECTING) (files s)))"
    and "distinct (map f_fd (filter active (files s)))" and "rset s \<subseteq> {..maxfd s}"
  using assms unfolding web_ok_def by - (elim conjE, assumption)+

text \<open>An element of the array and what is before and behind it.\<close>

lemma element_split:
  assumes "i < length xs"
  shows "\<exists>pre x post. xs = pre @ x # post \<and> xs ! i = x \<and> (\<forall>y. xs[i := y] = pre @ y # post)"
  using id_take_nth_drop [OF assms] upd_conv_take_nth_drop [OF assms] by blast

text \<open>The three ways in which the state of a file changes.\<close>

lemma started_ok:
  assumes "web_ok s" and "i < length (files s)" and "f_flags (files s ! i) = 0" and "fd \<notin> rset s" and "flags = F_CONNECTING \<or> flags = F_READING"
    and "files s' = (files s)[i := \<lparr>f_fd = fd, f_flags = flags\<rparr>]" and "nconn s' = nconn s + 1" and "nlefttoconn s' = nlefttoconn s - 1"
    and "nlefttoread s' = nlefttoread s" and "rset s' = insert fd (rset s)"
    and "wset s' = (if flags = F_CONNECTING then insert fd (wset s) else wset s)" and "maxfd s' = max (maxfd s) fd"
  shows "web_ok s'"
proof -
  obtain pre f post where f: "files s = pre @ f # post" "files s ! i = f" "\<forall>x. (files s)[i := x] = pre @ x # post"
    using element_split [OF assms(2)] by blast
  then show ?thesis
    using web_okD [OF assms(1)] assms(3-) by (intro web_okI) (auto simp: active_def flag_defs)
qed

lemma requested_ok:
  assumes "web_ok s" and "i < length (files s)" and "f_flags (files s ! i) = F_CONNECTING"
    and "files s' = (files s)[i := (files s ! i)\<lparr>f_flags := F_READING\<rparr>]" and "nconn s' = nconn s" and "nlefttoconn s' = nlefttoconn s"
    and "nlefttoread s' = nlefttoread s" and "rset s' = insert (f_fd (files s ! i)) (rset s)" and "wset s' = wset s - {f_fd (files s ! i)}"
    and "maxfd s' = max (maxfd s) (f_fd (files s ! i))"
  shows "web_ok s'"
proof -
  obtain pre f post where f: "files s = pre @ f # post" "files s ! i = f" "\<forall>x. (files s)[i := x] = pre @ x # post"
    using element_split [OF assms(2)] by blast
  then show ?thesis
    using web_okD [OF assms(1)] assms(3-) by (intro web_okI) (auto simp: active_def flag_defs)
qed

lemma finished_ok:
  assumes "web_ok s" and "i < length (files s)" and "f_flags (files s ! i) = F_READING"
    and "files s' = (files s)[i := (files s ! i)\<lparr>f_flags := F_DONE\<rparr>]" and "nconn s' = nconn s - 1" and "nlefttoconn s' = nlefttoconn s"
    and "nlefttoread s' = nlefttoread s - 1" and "rset s' = rset s - {f_fd (files s ! i)}" and "wset s' = wset s"
    and "maxfd s' = maxfd s"
  shows "web_ok s'"
proof -
  obtain pre f post where f: "files s = pre @ f # post" "files s ! i = f" "\<forall>x. (files s)[i := x] = pre @ x # post"
    using element_split [OF assms(2)] by blast
  then show ?thesis
    using web_okD [OF assms(1)] assms(3-) by (intro web_okI) (auto simp: active_def flag_defs)
qed

text \<open>The messages of the exits other than the one for a missing file.\<close>

abbreviation other_exit :: "string \<Rightarrow> bool" where
  "other_exit m \<equiv> m = ''writen error'' \<or> m = ''nonblocking connect error'' \<or> m = ''read error''"

lemma start_connect_ok:
  assumes "web_ok s" and "i < length (files s)" and "f_flags (files s ! i) = 0" and "w_fd r i \<notin> rset s"
  shows "(\<exists>s'. start_connect r i s = Ret s' \<and> web_ok (s'\<lparr>nconn := nconn s' + 1, nlefttoconn := nlefttoconn s' - 1\<rparr>)
      \<and> rset s' = insert (w_fd r i) (rset s) \<and> nconn s' = nconn s \<and> nlefttoconn s' = nlefttoconn s \<and> nlefttoread s' = nlefttoread s
      \<and> (\<exists>f. files s' = (files s)[i := f] \<and> f_flags f \<noteq> 0))
    \<or> (\<exists>m. start_connect r i s = Exits m \<and> other_exit m)"
proof -
  let ?s = "\<lambda>flags. s\<lparr>files := (files s)[i := \<lparr>f_fd = w_fd r i, f_flags = flags\<rparr>], rset := insert (w_fd r i) (rset s),
      wset := (if flags = F_CONNECTING then insert (w_fd r i) (wset s) else wset s), maxfd := max (maxfd s) (w_fd r i)\<rparr>"
  have ok: "web_ok ((?s flags)\<lparr>nconn := nconn s + 1, nlefttoconn := nlefttoconn s - 1\<rparr>)" if "flags = F_CONNECTING \<or> flags = F_READING" for flags
    by (rule started_ok [OF assms that]) simp_all
  have "start_connect r i s = Ret (?s F_CONNECTING) \<or> start_connect r i s = Ret (?s F_READING) \<or> (\<exists>m. start_connect r i s = Exits m \<and> other_exit m)"
    using assms(2) by (cases "files s ! i") (auto simp: start_connect_def write_get_cmd_def Let_def flag_defs split: option.splits)
  then show ?thesis
    using ok [of F_CONNECTING] ok [of F_READING] by (fastforce simp: flag_defs)
qed

definition fresh_fds :: "wround \<Rightarrow> web \<Rightarrow> bool" where
  "fresh_fds r s \<longleftrightarrow> inj (w_fd r) \<and> (\<forall>j<length (files s). f_flags (files s ! j) = 0 \<longrightarrow> w_fd r j \<notin> rset s)"

lemma start_conns_ok:
  "web_ok s \<Longrightarrow> fresh_fds r s \<Longrightarrow>
    (\<exists>s'. start_conns r maxnconn n s = Ret s' \<and> web_ok s' \<and> length (files s') = length (files s) \<and> nlefttoread s' = nlefttoread s
       \<and> nconn s' \<le> max (nconn s) maxnconn \<and> (nlefttoconn s \<le> int n \<longrightarrow> maxnconn \<le> nconn s' \<or> nlefttoconn s' = 0))
    \<or> (\<exists>m. start_conns r maxnconn n s = Exits m \<and> other_exit m)"
proof (induction n arbitrary: s)
  case 0
  then show ?case
    using web_okD(3) [OF 0(1)] by auto
next
  case (Suc n)
  show ?case
  proof (cases "nconn s < maxnconn \<and> nlefttoconn s > 0")
    case True
    let ?find = "find (\<lambda>i. f_flags (files s ! i) = 0) [0..<length (files s)]"
    have "\<exists>i<length (files s). f_flags (files s ! i) = 0"
      using True web_okD(3) [OF Suc.prems(1)] by (auto simp: filter_empty_conv in_set_conv_nth)
    then obtain i where i: "?find = Some i" "i < length (files s)" "f_flags (files s ! i) = 0"
      by (cases ?find) (auto simp: find_None_iff find_Some_iff)
    have fd: "w_fd r i \<notin> rset s"
      using Suc.prems(2) i by (simp add: fresh_fds_def)
    show ?thesis
    proof (cases "start_connect r i s")
      case (Ret s1)
      let ?s = "s1\<lparr>nconn := nconn s1 + 1, nlefttoconn := nlefttoconn s1 - 1\<rparr>"
      have s1: "web_ok ?s" "rset s1 = insert (w_fd r i) (rset s)" "nconn s1 = nconn s" "nlefttoconn s1 = nlefttoconn s"
          "nlefttoread s1 = nlefttoread s" "\<exists>f. files s1 = (files s)[i := f] \<and> f_flags f \<noteq> 0"
        using start_connect_ok [OF Suc.prems(1) i(2,3) fd] Ret by auto
      have "fresh_fds r ?s"
        using Suc.prems(2) s1(2,6) i(2) by (auto simp: fresh_fds_def nth_list_update inj_eq split: if_splits)
      moreover have "start_conns r maxnconn (Suc n) s = start_conns r maxnconn n ?s"
        using True i(1) Ret by simp
      ultimately show ?thesis
        using Suc.IH [OF s1(1)] s1(3-6) True by auto
    qed (use start_connect_ok [OF Suc.prems(1) i(2,3) fd] True i(1) in auto)
  next
    case False
    then show ?thesis
      using Suc.prems(1) web_okD(3) [OF Suc.prems(1)] by auto
  qed
qed

lemma web_file_ok:
  assumes "web_ok s" and "i < length (files s)"
  shows "(\<exists>s'. web_file r rs ws i s = Ret s' \<and> web_ok s' \<and> length (files s') = length (files s) \<and> nconn s' \<le> nconn s)
    \<or> (\<exists>m. web_file r rs ws i s = Exits m \<and> other_exit m)"
proof -
  have "files s ! i \<in> set (files s)"
    using assms(2) by simp
  then consider "f_flags (files s ! i) = 0" | "f_flags (files s ! i) = F_DONE" | "f_flags (files s ! i) = F_CONNECTING" | "f_flags (files s ! i) = F_READING"
    using web_okD(1) [OF assms(1)] by (auto simp: list_all_iff active_def)
  then show ?thesis
  proof cases
    case 3
    have "web_ok (s\<lparr>wset := wset s - {f_fd (files s ! i)}, files := (files s)[i := (files s ! i)\<lparr>f_flags := F_READING\<rparr>],
        rset := insert (f_fd (files s ! i)) (rset s), maxfd := max (maxfd s) (f_fd (files s ! i))\<rparr>)"
      by (rule requested_ok [OF assms 3]) simp_all
    then show ?thesis
      using 3 assms(1) by (auto simp: web_file_def write_get_cmd_def Let_def flag_defs)
  next
    case 4
    have "web_ok (s\<lparr>files := (files s)[i := (files s ! i)\<lparr>f_flags := F_DONE\<rparr>], rset := rset s - {f_fd (files s ! i)}, nconn := nconn s - 1,
        nlefttoread := nlefttoread s - 1\<rparr>)"
      by (rule finished_ok [OF assms 4]) simp_all
    then show ?thesis
      using 4 assms(1) by (cases "w_read r i") (auto simp: web_file_def Let_def flag_defs)
  qed (use assms(1) in \<open>simp_all add: web_file_def flag_defs\<close>)
qed

lemma web_files_ok:
  "web_ok s \<Longrightarrow> \<forall>i\<in>set is. i < length (files s) \<Longrightarrow>
    (\<exists>s'. web_files r rs ws is s = Ret s' \<and> web_ok s' \<and> length (files s') = length (files s) \<and> nconn s' \<le> nconn s)
    \<or> (\<exists>m. web_files r rs ws is s = Exits m \<and> other_exit m)"
proof (induction "is" arbitrary: s)
  case (Cons i "is")
  show ?case
  proof (cases "web_file r rs ws i s")
    case (Ret s1)
    then have "web_ok s1" "length (files s1) = length (files s)" "nconn s1 \<le> nconn s"
      using web_file_ok [OF Cons.prems(1), of i r rs ws] Cons.prems(2) by auto
    then show ?thesis
      using Cons.IH [of s1] Cons.prems(2) Ret by fastforce
  qed (use web_file_ok [OF Cons.prems(1), of i r rs ws] Cons.prems(2) in auto)
qed auto

lemma web_round_ok:
  assumes "web_ok s" and "new_fds r s"
  shows "(\<exists>s'. web_round maxnconn r s = Ret s' \<and> web_ok s' \<and> length (files s') = length (files s) \<and> nconn s' \<le> max (nconn s) maxnconn)
    \<or> (\<exists>m. web_round maxnconn r s = Exits m \<and> other_exit m)"
proof -
  have fresh: "fresh_fds r s"
    using assms(2) by (auto simp: new_fds_def fresh_fds_def)
  show ?thesis
  proof (cases "start_conns r maxnconn (nat (nlefttoconn s)) s")
    case (Ret s1)
    then have s1: "web_ok s1" "length (files s1) = length (files s)" "nconn s1 \<le> max (nconn s) maxnconn"
      using start_conns_ok [OF assms(1) fresh, of maxnconn "nat (nlefttoconn s)"] by auto
    then show ?thesis
      using web_files_ok [OF s1(1), of "[0..<length (files s1)]" r
          "w_ready r \<inter> rset s1 \<inter> {..maxfd s1}" "w_writable r \<inter> wset s1 \<inter> {..maxfd s1}"] Ret
      by (auto simp: web_round_def)
  qed (use start_conns_ok [OF assms(1) fresh, of maxnconn "nat (nlefttoconn s)"] in \<open>auto simp: web_round_def\<close>)
qed

lemma web_start_ok: "web_ok (web_start n)"
  by (rule web_okI) (simp_all add: web_start_def active_def flag_defs list_all_iff)

lemma web_run_ok: "web_run maxnconn n s \<Longrightarrow> web_ok s \<and> length (files s) = n \<and> nconn s \<le> max 0 maxnconn"
proof (induction rule: web_run.induct)
  case start
  then show ?case
    using web_start_ok by (simp add: web_start_def)
next
  case (round s r s')
  then show ?case
    using web_round_ok [of s r maxnconn] by auto
qed

text \<open>After the inner loop there is a descriptor to wait for, as long as there is a file to read.\<close>

lemma rset_nonempty:
  assumes "web_ok s" and "0 < nlefttoread s" and "0 < maxnconn" and "maxnconn \<le> nconn s \<or> nlefttoconn s = 0"
  shows "rset s \<noteq> {}"
proof -
  note s = web_okD [OF assms(1)]
  have "filter active (files s) \<noteq> []"
  proof (cases "maxnconn \<le> nconn s")
    case True
    then show ?thesis
      using assms(3) s(2) by auto
  next
    case False
    then have "\<forall>f\<in>set (files s). f_flags f \<noteq> 0"
      using assms(4) s(3) by (auto simp: filter_empty_conv)
    moreover have "filter (\<lambda>f. f_flags f \<noteq> F_DONE) (files s) \<noteq> []"
      using s(4) assms(2) by auto
    then obtain f where "f \<in> set (files s)" "f_flags f \<noteq> F_DONE"
      unfolding filter_empty_conv by blast
    ultimately show ?thesis
      using s(1) by (fastforce simp: list_all_iff filter_empty_conv)
  qed
  then show ?thesis
    using s(5) by (auto simp: filter_empty_conv)
qed

section \<open>Properties\<close>

text \<open>
  (C21) Whatever the kernel reports, the three counters of the web client count what they should: the
  open connections, which never become more than the limit, the files not yet begun, and the files not
  yet finished, so the outer loop ends exactly when every file is done. The exit for a missing file is
  never taken; \<^verbatim>\<open>select\<close> waits to read on exactly the descriptors of the open connections, different for
  different files and not above \<^verbatim>\<open>maxfd\<close>, and to write on exactly those that are still connecting; and with a
  positive limit the set to read is never empty while a file is unfinished, so the client never sleeps in vain.
\<close>

theorem web_client:
  assumes "web_run maxnconn n s" and "new_fds r s"
  shows "nconn s = int (card {i. i < n \<and> active (files s ! i)}) \<and> nconn s \<le> max 0 maxnconn
    \<and> nlefttoconn s = int (card {i. i < n \<and> f_flags (files s ! i) = 0})
    \<and> (nlefttoread s = 0 \<longleftrightarrow> (\<forall>i<n. f_flags (files s ! i) = F_DONE))
    \<and> rset s = f_fd ` {f \<in> set (files s). active f} \<and> distinct (map f_fd (filter active (files s)))
    \<and> wset s = f_fd ` {f \<in> set (files s). f_flags f = F_CONNECTING} \<and> rset s \<subseteq> {..maxfd s} \<and> web_round maxnconn r s \<noteq> Exits ''nlefttoconn but nothing found''
    \<and> (\<forall>s1. 0 < maxnconn \<and> 0 < nlefttoread s \<and> start_conns r maxnconn (nat (nlefttoconn s)) s = Ret s1 \<longrightarrow> rset s1 \<noteq> {})"
proof -
  have ok: "web_ok s" and n: "length (files s) = n" and lim: "nconn s \<le> max 0 maxnconn"
    using web_run_ok [OF assms(1)] by simp_all
  note s = web_okD [OF ok]
  have "fresh_fds r s"
    using assms(2) by (auto simp: new_fds_def fresh_fds_def)
  note conns = start_conns_ok [OF ok this, of maxnconn "nat (nlefttoconn s)"]
  have "rset s1 \<noteq> {}" if "0 < maxnconn" "0 < nlefttoread s" "start_conns r maxnconn (nat (nlefttoconn s)) s = Ret s1" for s1
    using conns that by (intro rset_nonempty [of s1 maxnconn]) auto
  moreover have "web_round maxnconn r s \<noteq> Exits ''nlefttoconn but nothing found''"
    using web_round_ok [OF ok assms(2), of maxnconn] by auto
  moreover have "nlefttoread s = 0 \<longleftrightarrow> (\<forall>i<n. f_flags (files s ! i) = F_DONE)"
    using s(4) n by (auto simp: filter_empty_conv all_set_conv_all_nth)
  ultimately show ?thesis
    using s(2,3,5,6,7,8) lim by (auto simp: length_filter_conv_card n)
qed

definition two_ready :: wround where
  "two_ready = \<lparr>w_fd = (\<lambda>i. int i + 3), w_connect = (\<lambda>i. Some EINPROGRESS), w_written = (\<lambda>i. True), w_read = (\<lambda>i. Read_eof), w_ready = {3},
     w_writable = {3}\<rparr>"

lemma flag_bits: "Suc 0 AND 4 = (0 :: nat)" "Suc 0 AND Suc 0 = (Suc 0 :: nat)" "Suc 0 AND 2 = (0 :: nat)"
  by code_simp+

theorem web_client_witness:
  "\<exists>s. web_round 2 two_ready (web_start 3) = Ret s \<and> web_run 2 3 s \<and> nconn s = 2 \<and> nlefttoconn s = 1
    \<and> nconn s = int (card {i. i < 3 \<and> active (files s ! i)})"
proof -
  obtain s where s: "web_round 2 two_ready (web_start 3) = Ret s" "nconn s = 2" "nlefttoconn s = 1" "rset s = {3, 4}"
    by (simp add: web_round_def two_ready_def web_start_def numeral_3_eq_3 start_connect_def web_file_def write_get_cmd_def flag_defs
        Let_def flag_bits insert_commute)
  have new: "new_fds two_ready (web_start 3)"
    by (auto simp: new_fds_def two_ready_def web_start_def inj_def)
  have run: "web_run 2 3 s"
    by (rule web_run.round [OF web_run.start _ new s(1)]) (simp add: web_start_def)
  have "new_fds (two_ready\<lparr>w_fd := (\<lambda>i. int i + 5)\<rparr>) s"
    using s(4) by (auto simp: new_fds_def inj_def)
  then show ?thesis
    using web_client [OF run] s run by auto
qed

end
