(* ===== verification/Web_Threads.thy ===== *)
theory Web_Threads
  imports Web
begin

text \<open>
  The web client of \<^verbatim>\<open>threads/web03.c\<close>, which reads every file in a thread of its own and waits for the
  threads with a mutex, a condition variable and a counter of finished threads. The threads are
  interleaved in any way; each access to a shared variable is a step of its own. The home page it
  fetches first and the text it prints are left out.
\<close>

section \<open>The state\<close>

definition F_JOINED :: nat where "F_JOINED = 8"

text \<open>
  Where the main thread is: before the test of the outer loop, in the inner loop, waiting for the mutex,
  before the test of \<^verbatim>\<open>ndone\<close>, asleep, woken and waiting for the mutex again, at an element of the array,
  before the unlock, behind the loop.
\<close>

datatype web_pc = W_outer | W_inner | W_lock | W_test | W_wait | W_woken | W_scan nat | W_unlock | W_exited

text \<open>Where a thread is; one that has ended has returned the element with this index.\<close>

datatype get_pc = D_none | D_connect | D_write | D_read | D_lock | D_inc | D_signal | D_unlock | D_ended nat

datatype holder = By_main | By nat

record web03 =
  tfiles :: "webfile list"
  tconn :: int
  tleftconn :: int
  tleftread :: int
  ndone :: int
  ndone_mutex :: "holder option"
  mainpc :: web_pc
  gpc :: "nat \<Rightarrow> get_pc"

definition web03_start :: "nat \<Rightarrow> web03" where
  "web03_start n =
     \<lparr>tfiles = replicate n \<lparr>f_fd = 0, f_flags = 0\<rparr>, tconn = 0, tleftconn = int n, tleftread = int n, ndone = 0, ndone_mutex = None,
      mainpc = W_outer, gpc = (\<lambda>i. D_none)\<rparr>"

definition set_flags :: "nat \<Rightarrow> nat \<Rightarrow> web03 \<Rightarrow> web03" where
  "set_flags i fl s = s\<lparr>tfiles := (tfiles s)[i := (tfiles s ! i)\<lparr>f_flags := fl\<rparr>]\<rparr>"

section \<open>The threads\<close>

text \<open>A step of the main thread. \<^verbatim>\<open>Pthread_join\<close> blocks until the thread has ended.\<close>

definition web03_main :: "int \<Rightarrow> web03 \<Rightarrow> web03 outcome" where
  "web03_main maxnconn s =
     (case mainpc s of
        W_outer \<Rightarrow> Ret (s\<lparr>mainpc := if tleftread s > 0 then W_inner else W_exited\<rparr>)
      | W_inner \<Rightarrow>
          if tconn s < maxnconn \<and> tleftconn s > 0 then
            (case find (\<lambda>i. f_flags (tfiles s ! i) = 0) [0..<length (tfiles s)] of
               None \<Rightarrow> Exits ''nlefttoconn but nothing found''
             | Some i \<Rightarrow>
                 Ret ((set_flags i F_CONNECTING s)\<lparr>gpc := (gpc s)(i := D_connect), tconn := tconn s + 1, tleftconn := tleftconn s - 1\<rparr>))
          else Ret (s\<lparr>mainpc := W_lock\<rparr>)
      | W_lock \<Rightarrow> if ndone_mutex s = None then Ret (s\<lparr>ndone_mutex := Some By_main, mainpc := W_test\<rparr>) else Blocks
      | W_test \<Rightarrow> if ndone s = 0 then Ret (s\<lparr>ndone_mutex := None, mainpc := W_wait\<rparr>) else Ret (s\<lparr>mainpc := W_scan 0\<rparr>)
      | W_wait \<Rightarrow> Blocks
      | W_woken \<Rightarrow> if ndone_mutex s = None then Ret (s\<lparr>ndone_mutex := Some By_main, mainpc := W_test\<rparr>) else Blocks
      | W_scan i \<Rightarrow>
          if i \<ge> length (tfiles s) then Ret (s\<lparr>mainpc := W_unlock\<rparr>)
          else if f_flags (tfiles s ! i) AND F_DONE \<noteq> 0 then
            (case gpc s i of
               D_ended fptr \<Rightarrow>
                 if fptr \<noteq> i then Exits ''file[i] != fptr''
                 else
                   Ret ((set_flags fptr F_JOINED s)
                     \<lparr>ndone := ndone s - 1, tconn := tconn s - 1, tleftread := tleftread s - 1, mainpc := W_scan (i + 1)\<rparr>)
             | _ \<Rightarrow> Blocks)
          else Ret (s\<lparr>mainpc := W_scan (i + 1)\<rparr>)
      | W_unlock \<Rightarrow> Ret (s\<lparr>ndone_mutex := None, mainpc := W_outer\<rparr>)
      | W_exited \<Rightarrow> Blocks)"

text \<open>
  A step of \<^verbatim>\<open>do_get_read\<close> in the thread of element \<open>i\<close>, with what the kernel answers: the descriptor of
  the connection, whether the request can be written, and what a read finds.
\<close>

record ganswer =
  g_connect :: "int option"
  g_written :: bool
  g_read :: wread

definition do_get_read :: "nat \<Rightarrow> ganswer \<Rightarrow> web03 \<Rightarrow> web03 outcome" where
  "do_get_read i a s =
     (let go = (\<lambda>pc s. s\<lparr>gpc := (gpc s)(i := pc)\<rparr>) in
      case gpc s i of
        D_none \<Rightarrow> Blocks
      | D_connect \<Rightarrow>
          (case g_connect a of
             None \<Rightarrow> Exits ''tcp_connect error''
           | Some fd \<Rightarrow> Ret (go D_write (s\<lparr>tfiles := (tfiles s)[i := (tfiles s ! i)\<lparr>f_fd := fd\<rparr>]\<rparr>)))
      | D_write \<Rightarrow> if g_written a then Ret (go D_read (set_flags i F_READING s)) else Exits ''writen error''
      | D_read \<Rightarrow>
          (case g_read a of
             Read_failed \<Rightarrow> Exits ''read error''
           | Read_data \<Rightarrow> Ret s
           | Read_eof \<Rightarrow> Ret (go D_lock (set_flags i F_DONE s)))
      | D_lock \<Rightarrow> if ndone_mutex s = None then Ret (go D_inc (s\<lparr>ndone_mutex := Some (By i)\<rparr>)) else Blocks
      | D_inc \<Rightarrow> Ret (go D_signal (s\<lparr>ndone := ndone s + 1\<rparr>))
      | D_signal \<Rightarrow> Ret (go D_unlock (s\<lparr>mainpc := if mainpc s = W_wait then W_woken else mainpc s\<rparr>))
      | D_unlock \<Rightarrow> Ret (go (D_ended i) (s\<lparr>ndone_mutex := None\<rparr>))
      | D_ended fptr \<Rightarrow> Blocks)"

text \<open>The steps of the program with \<open>n\<close> files; the main thread may also wake up without a signal.\<close>

inductive web03_step :: "int \<Rightarrow> nat \<Rightarrow> web03 \<Rightarrow> web03 \<Rightarrow> bool" for maxnconn n where
  main: "web03_main maxnconn s = Ret s' \<Longrightarrow> web03_step maxnconn n s s'"
| thread: "i < n \<Longrightarrow> do_get_read i a s = Ret s' \<Longrightarrow> web03_step maxnconn n s s'"
| spurious: "mainpc s = W_wait \<Longrightarrow> web03_step maxnconn n s (s\<lparr>mainpc := W_woken\<rparr>)"

inductive web03_run :: "int \<Rightarrow> nat \<Rightarrow> web03 \<Rightarrow> bool" for maxnconn n where
  start: "web03_run maxnconn n (web03_start n)"
| step: "web03_run maxnconn n s \<Longrightarrow> web03_step maxnconn n s s' \<Longrightarrow> web03_run maxnconn n s'"

section \<open>The invariant\<close>

lemmas flags_defs = flag_defs F_JOINED_def

abbreviation flag :: "web03 \<Rightarrow> nat \<Rightarrow> nat" where
  "flag s i \<equiv> f_flags (tfiles s ! i)"

text \<open>What the flags of a file say about its thread.\<close>

fun thread_ok :: "nat \<Rightarrow> nat \<Rightarrow> get_pc \<Rightarrow> bool" where
  "thread_ok i fl D_none = (fl = 0)"
| "thread_ok i fl D_connect = (fl = F_CONNECTING)"
| "thread_ok i fl D_write = (fl = F_CONNECTING)"
| "thread_ok i fl D_read = (fl = F_READING)"
| "thread_ok i fl (D_ended j) = (j = i \<and> (fl = F_DONE \<or> fl = F_JOINED))"
| "thread_ok i fl pc = (fl = F_DONE)"

fun holds :: "get_pc \<Rightarrow> bool" where
  "holds D_inc = True"
| "holds D_signal = True"
| "holds D_unlock = True"
| "holds pc = False"

fun main_holds :: "web_pc \<Rightarrow> bool" where
  "main_holds W_test = True"
| "main_holds (W_scan i) = True"
| "main_holds W_unlock = True"
| "main_holds pc = False"

text \<open>Counted in \<^verbatim>\<open>ndone\<close>: threads behind the increment that have not been joined.\<close>

fun counted :: "nat \<Rightarrow> get_pc \<Rightarrow> bool" where
  "counted fl D_signal = True"
| "counted fl D_unlock = True"
| "counted fl (D_ended j) = (fl = F_DONE)"
| "counted fl pc = False"

definition cnt :: "nat \<Rightarrow> (nat \<Rightarrow> get_pc \<Rightarrow> bool) \<Rightarrow> web03 \<Rightarrow> int" where
  "cnt n P s = (\<Sum>i<n. of_bool (P (flag s i) (gpc s i)))"

definition lock_ok :: "nat \<Rightarrow> web03 \<Rightarrow> bool" where
  "lock_ok n s \<longleftrightarrow> (main_holds (mainpc s) \<longleftrightarrow> ndone_mutex s = Some By_main) \<and> (\<forall>i<n. holds (gpc s i) \<longleftrightarrow> ndone_mutex s = Some (By i))
     \<and> (\<forall>i. ndone_mutex s = Some (By i) \<longrightarrow> i < n)"

definition counts_ok :: "nat \<Rightarrow> web03 \<Rightarrow> bool" where
  "counts_ok n s \<longleftrightarrow> tconn s = cnt n (\<lambda>fl pc. fl \<noteq> 0 \<and> fl \<noteq> F_JOINED) s \<and> tleftconn s = cnt n (\<lambda>fl pc. fl = 0) s
     \<and> tleftread s = cnt n (\<lambda>fl pc. fl \<noteq> F_JOINED) s \<and> ndone s = cnt n counted s"

text \<open>What holds at the program points of the main thread.\<close>

fun main_ok :: "int \<Rightarrow> nat \<Rightarrow> web03 \<Rightarrow> web_pc \<Rightarrow> bool" where
  "main_ok m n s W_outer = True"
| "main_ok m n s W_inner = (0 < tleftread s)"
| "main_ok m n s W_wait = (0 < tleftread s \<and> (m \<le> tconn s \<or> tleftconn s \<le> 0) \<and> (ndone s = 0 \<or> (\<exists>i<n. gpc s i = D_signal)))"
| "main_ok m n s (W_scan i) = (tconn s \<le> m - 1 \<or> (\<exists>j<n. gpc s j = D_ended j \<and> flag s j = F_DONE))"
| "main_ok m n s W_unlock = True"
| "main_ok m n s W_exited = (tleftread s \<le> 0)"
| "main_ok m n s pc = (0 < tleftread s \<and> (m \<le> tconn s \<or> tleftconn s \<le> 0))"

definition web03_ok :: "int \<Rightarrow> nat \<Rightarrow> web03 \<Rightarrow> bool" where
  "web03_ok m n s \<longleftrightarrow> length (tfiles s) = n \<and> (\<forall>i<n. thread_ok i (flag s i) (gpc s i)) \<and> lock_ok n s \<and> counts_ok n s
     \<and> tconn s \<le> max 0 m \<and> main_ok m n s (mainpc s)"

lemma web03_okI:
  assumes "length (tfiles s) = n" and "\<And>i. i < n \<Longrightarrow> thread_ok i (flag s i) (gpc s i)" and "lock_ok n s" and "counts_ok n s"
    and "tconn s \<le> max 0 m" and "main_ok m n s (mainpc s)"
  shows "web03_ok m n s"
  unfolding web03_ok_def using assms by (intro conjI) auto

lemma web03_okD:
  assumes "web03_ok m n s"
  shows "length (tfiles s) = n" and "i < n \<Longrightarrow> thread_ok i (flag s i) (gpc s i)" and "lock_ok n s" and "counts_ok n s"
    and "tconn s \<le> max 0 m" and "main_ok m n s (mainpc s)"
  using assms unfolding web03_ok_def by - (elim conjE, (assumption | blast))+

lemma cnt_change:
  assumes "i < n" and "\<And>j. j < n \<Longrightarrow> j \<noteq> i \<Longrightarrow> flag s' j = flag s j \<and> gpc s' j = gpc s j"
  shows "cnt n P s' = cnt n P s + of_bool (P (flag s' i) (gpc s' i)) - of_bool (P (flag s i) (gpc s i))"
  using sum_change [OF assms(1), of "\<lambda>j. of_bool (P (flag s' j) (gpc s' j)) :: int" "\<lambda>j. of_bool (P (flag s j) (gpc s j))"] assms(2)
  by (simp add: cnt_def)

lemma cnt_same:
  assumes "\<And>j. j < n \<Longrightarrow> flag s' j = flag s j \<and> gpc s' j = gpc s j"
  shows "cnt n P s' = cnt n P s"
  unfolding cnt_def using assms by (intro sum.cong) auto

lemma cnt_card: "cnt n P s = int (card {i. i < n \<and> P (flag s i) (gpc s i)})"
proof -
  have "{..<n} \<inter> {i. P (flag s i) (gpc s i)} = {i. i < n \<and> P (flag s i) (gpc s i)}"
    by auto
  then show ?thesis
    unfolding cnt_def by (simp add: sum_of_bool_eq)
qed

lemma cnt_pos: "0 < cnt n P s \<longleftrightarrow> (\<exists>i<n. P (flag s i) (gpc s i))"
  unfolding cnt_card by (auto simp: card_gt_0_iff)

section \<open>The steps keep the invariant\<close>

lemma lock_ok_thread:
  assumes "lock_ok n s" and "i < n" and "gpc s' = (gpc s)(i := pc)" and "main_holds (mainpc s') = main_holds (mainpc s)"
    and "ndone_mutex s' =
      (if holds (gpc s i) = holds pc then ndone_mutex s else if holds pc then Some (By i) else None)"
    and "holds pc \<Longrightarrow> holds (gpc s i) \<or> ndone_mutex s = None"
  shows "lock_ok n s'"
proof -
  have main: "main_holds (mainpc s) \<longleftrightarrow> ndone_mutex s = Some By_main" and own: "ndone_mutex s = Some (By j) \<Longrightarrow> j < n"
    and thr: "j < n \<Longrightarrow> holds (gpc s j) \<longleftrightarrow> ndone_mutex s = Some (By j)" for j
    using assms(1) by (auto simp: lock_ok_def)
  show ?thesis
    unfolding lock_ok_def
  proof (intro conjI allI impI)
    show "main_holds (mainpc s') \<longleftrightarrow> ndone_mutex s' = Some By_main"
      using main thr [OF assms(2)] assms(4-6) by (auto split: if_splits)
    show "holds (gpc s' j) \<longleftrightarrow> ndone_mutex s' = Some (By j)" if "j < n" for j
      using thr [OF that] thr [OF assms(2)] assms(3,5,6) by (auto split: if_splits)
    show "j < n" if "ndone_mutex s' = Some (By j)" for j
      using own [of j] assms(2,5) that by (auto split: if_splits)
  qed
qed

lemma main_ok_thread:
  assumes "main_ok m n s pc" and "i < n" and "\<And>j. j \<noteq> i \<Longrightarrow> flag s' j = flag s j \<and> gpc s' j = gpc s j"
    and "tconn s' = tconn s" and "tleftconn s' = tleftconn s" and "tleftread s' = tleftread s" and "\<And>j. gpc s i \<noteq> D_ended j"
    and "pc = W_wait \<Longrightarrow> gpc s' i = D_signal \<or> ndone s' = ndone s \<and> gpc s i \<noteq> D_signal"
  shows "main_ok m n s' pc"
proof (cases pc)
  case W_wait
  have "ndone s' = 0 \<or> (\<exists>j<n. gpc s' j = D_signal)"
  proof (cases "gpc s' i = D_signal")
    case False
    then have "ndone s' = ndone s" "gpc s i \<noteq> D_signal"
      using assms(8) [OF W_wait] by auto
    moreover have "gpc s' j = D_signal" if "gpc s j = D_signal" for j
      using assms(3) [of j] that calculation(2) by (cases "j = i") auto
    ultimately show ?thesis
      using assms(1) W_wait by auto
  qed (use assms(2) in blast)
  then show ?thesis
    using assms(1,4-6) W_wait by simp
next
  case (W_scan k)
  have "\<exists>j<n. gpc s' j = D_ended j \<and> flag s' j = F_DONE" if "j < n" "gpc s j = D_ended j" "flag s j = F_DONE" for j
    using assms(3) [of j] assms(7) [of j] that by (cases "j = i") auto
  then show ?thesis
    using assms(1,4) W_scan by auto
qed (use assms(1,4-6) in auto)

text \<open>A step of a thread, by what it changes.\<close>

lemma getter_moves:
  assumes "web03_ok m n s" and "i < n" and "tfiles s' = (tfiles s)[i := f]" and "gpc s' = (gpc s)(i := pc)"
    and "thread_ok i (f_flags f) pc" and "flag s i \<notin> {0, F_JOINED}" and "f_flags f \<notin> {0, F_JOINED}" and "\<And>j. gpc s i \<noteq> D_ended j"
    and "tconn s' = tconn s" and "tleftconn s' = tleftconn s" and "tleftread s' = tleftread s"
    and "ndone s' = ndone s + of_bool (counted (f_flags f) pc) - of_bool (counted (flag s i) (gpc s i))"
    and "ndone_mutex s' =
      (if holds (gpc s i) = holds pc then ndone_mutex s else if holds pc then Some (By i) else None)"
    and "holds pc \<Longrightarrow> holds (gpc s i) \<or> ndone_mutex s = None"
    and "mainpc s' = (if gpc s i = D_signal \<and> mainpc s = W_wait then W_woken else mainpc s)" and "pc = D_signal \<or> ndone s' = ndone s"
  shows "web03_ok m n s'"
proof (rule web03_okI)
  note s = web03_okD [OF assms(1)]
  have len: "i < length (tfiles s)"
    using assms(2) s(1) by simp
  have i: "flag s' i = f_flags f" "gpc s' i = pc"
    using len assms(3,4) by simp_all
  have other: "flag s' j = flag s j \<and> gpc s' j = gpc s j" if "j \<noteq> i" for j
    using assms(3,4) that by simp
  have cnt: "cnt n P s' = cnt n P s + of_bool (P (f_flags f) pc) - of_bool (P (flag s i) (gpc s i))" for P
    using cnt_change [OF assms(2), of s' s P] other i by simp
  show "counts_ok n s'"
    using s(4) assms(6,7,9-12) by (simp add: counts_ok_def cnt)
  show "thread_ok j (flag s' j) (gpc s' j)" if "j < n" for j
    using other [of j] assms(5) s(2) [OF that] i by (cases "j = i") auto
  show "lock_ok n s'"
    using assms(13-15) by (intro lock_ok_thread [OF s(3) assms(2,4)]) auto
  show "main_ok m n s' (mainpc s')"
  proof (cases "gpc s i = D_signal \<and> mainpc s = W_wait")
    case True
    then show ?thesis
      using s(6) assms(9-11,15) by simp
  next
    case False
    then have "main_ok m n s' (mainpc s)"
      using assms(16) i(2) by (intro main_ok_thread [OF s(6) assms(2) other assms(9-11,8)]) auto
    then show ?thesis
      using False assms(15) by auto
  qed
qed (use assms(3,9) web03_okD(1,5) [OF assms(1)] in auto)

lemma do_get_read_ok:
  assumes "web03_ok m n s" and "i < n" and "do_get_read i a s = Ret s'"
  shows "web03_ok m n s'"
proof -
  note move = getter_moves [OF assms(1,2)]
  note i = web03_okD(2) [OF assms(1,2)]
  note step = assms(3) [unfolded do_get_read_def Let_def set_flags_def]
  let ?f = "tfiles s ! i"
  show ?thesis
  proof (cases "gpc s i")
    case D_connect
    then obtain fd where "s' = s\<lparr>tfiles := (tfiles s)[i := ?f\<lparr>f_fd := fd\<rparr>], gpc := (gpc s)(i := D_write)\<rparr>"
      using step by (auto split: option.splits)
    then show ?thesis
      using D_connect i by (intro move [of s' "?f\<lparr>f_fd := fd\<rparr>" D_write]) (simp_all add: flags_defs)
  next
    case D_write
    then show ?thesis
      using step i by (intro move [of s' "?f\<lparr>f_flags := F_READING\<rparr>" D_read]) (auto simp: flags_defs split: if_splits)
  next
    case D_read
    show ?thesis
    proof (cases "g_read a")
      case Read_eof
      then show ?thesis
        using step i D_read by (intro move [of s' "?f\<lparr>f_flags := F_DONE\<rparr>" D_lock]) (auto simp: flags_defs)
    qed (use step D_read assms(1) in auto)
  next
    case D_lock
    then show ?thesis
      using step i by (intro move [of s' ?f D_inc]) (auto simp: flags_defs split: if_splits)
  next
    case D_inc
    then show ?thesis
      using step i by (intro move [of s' ?f D_signal]) (auto simp: flags_defs)
  next
    case D_signal
    then show ?thesis
      using step i by (intro move [of s' ?f D_unlock]) (auto simp: flags_defs)
  next
    case D_unlock
    then show ?thesis
      using step i by (intro move [of s' ?f "D_ended i"]) (auto simp: flags_defs)
  qed (use step in auto)
qed

text \<open>A step of the main thread that leaves files and threads alone.\<close>

lemma waiter_moves:
  assumes "web03_ok m n s" and "lock_ok n (s\<lparr>ndone_mutex := x, mainpc := pc\<rparr>)" and "main_ok m n s pc"
  shows "web03_ok m n (s\<lparr>ndone_mutex := x, mainpc := pc\<rparr>)" (is "web03_ok m n ?s")
proof (rule web03_okI)
  note s = web03_okD [OF assms(1)]
  have cnt: "cnt n P ?s = cnt n P s" for P
    by (rule cnt_same) simp
  show "counts_ok n ?s"
    using s(4) by (simp add: counts_ok_def cnt)
  show "main_ok m n ?s (mainpc ?s)"
    using assms(3) by (cases pc) simp_all
  show "thread_ok i (flag ?s i) (gpc ?s i)" if "i < n" for i
    using s(2) [OF that] by simp
qed (use assms(2) web03_okD(1,5) [OF assms(1)] in simp_all)

lemma lock_ok_main:
  assumes "lock_ok n s" and "x = (if main_holds pc = main_holds (mainpc s) then ndone_mutex s else if main_holds pc then Some By_main else None)"
    and "main_holds pc \<Longrightarrow> main_holds (mainpc s) \<or> ndone_mutex s = None"
  shows "lock_ok n (s\<lparr>ndone_mutex := x, mainpc := pc\<rparr>)"
  using assms by (cases "main_holds pc"; cases "main_holds (mainpc s)") (auto simp: lock_ok_def)

lemma main_goes:
  assumes "web03_ok m n s" and "main_holds pc = main_holds (mainpc s)" and "main_ok m n s pc"
  shows "web03_ok m n (s\<lparr>mainpc := pc\<rparr>)"
  using waiter_moves [OF assms(1) lock_ok_main [OF web03_okD(3) [OF assms(1)], of "ndone_mutex s" pc] assms(3)] assms(2) by simp

text \<open>With the mutex in the hands of the main thread, a counted thread has ended.\<close>

lemma counted_ended:
  assumes "web03_ok m n s" and "main_holds (mainpc s)" and "0 < ndone s"
  shows "\<exists>j<n. gpc s j = D_ended j \<and> flag s j = F_DONE"
proof -
  note s = web03_okD [OF assms(1)]
  obtain j where j: "j < n" "counted (flag s j) (gpc s j)"
    using assms(3) s(4) cnt_pos [of n counted s] by (auto simp: counts_ok_def)
  moreover have "\<not> holds (gpc s j)"
    using s(3) assms(2) j(1) by (auto simp: lock_ok_def)
  ultimately show ?thesis
    using s(2) [OF j(1)] by (cases "gpc s j") auto
qed

lemma ndone_nonneg: "web03_ok m n s \<Longrightarrow> 0 \<le> ndone s"
  using web03_okD(4) [of m n s] by (simp add: counts_ok_def cnt_card)

text \<open>A thread is started, a thread is joined.\<close>

lemma started:
  assumes "web03_ok m n s" and "i < n" and "flag s i = 0" and "tconn s < m" and "mainpc s = W_inner"
  shows "web03_ok m n ((set_flags i F_CONNECTING s)\<lparr>gpc := (gpc s)(i := D_connect), tconn := tconn s + 1, tleftconn := tleftconn s - 1\<rparr>)"
    (is "web03_ok m n ?s")
proof (rule web03_okI)
  note s = web03_okD [OF assms(1)]
  have i: "flag ?s i = F_CONNECTING" "gpc ?s i = D_connect" "gpc s i = D_none"
    using assms(2,3) s(1) s(2) [OF assms(2)] by (cases "gpc s i"; simp add: set_flags_def flags_defs)+
  have other: "flag ?s j = flag s j \<and> gpc ?s j = gpc s j" if "j \<noteq> i" for j
    using that by (simp add: set_flags_def)
  have cnt: "cnt n P ?s = cnt n P s + of_bool (P F_CONNECTING D_connect) - of_bool (P 0 D_none)" for P
    using cnt_change [OF assms(2), of ?s s P] other i assms(3) by simp
  show "counts_ok n ?s"
    unfolding counts_ok_def cnt using s(4) by (simp add: counts_ok_def set_flags_def flags_defs)
  show "thread_ok j (flag ?s j) (gpc ?s j)" if "j < n" for j
    using other [of j] i s(2) [OF that] by (cases "j = i") auto
  show "lock_ok n ?s"
    by (rule lock_ok_thread [OF s(3) assms(2), of ?s D_connect]) (simp_all add: i(3) set_flags_def)
qed (use assms(4,5) web03_okD(1,6) [OF assms(1)] in \<open>simp_all add: set_flags_def\<close>)

lemma joined:
  assumes "web03_ok m n s" and "i < n" and "flag s i = F_DONE" and "gpc s i = D_ended i" and "mainpc s = W_scan i"
  shows "web03_ok m n ((set_flags i F_JOINED s)
    \<lparr>ndone := ndone s - 1, tconn := tconn s - 1, tleftread := tleftread s - 1, mainpc := W_scan (i + 1)\<rparr>)"
    (is "web03_ok m n ?s")
proof (rule web03_okI)
  note s = web03_okD [OF assms(1)]
  have i: "flag ?s i = F_JOINED" "gpc ?s i = D_ended i"
    using assms(2,4) s(1) by (simp_all add: set_flags_def)
  have other: "flag ?s j = flag s j \<and> gpc ?s j = gpc s j" if "j \<noteq> i" for j
    using that by (simp add: set_flags_def)
  have cnt: "cnt n P ?s = cnt n P s + of_bool (P F_JOINED (D_ended i)) - of_bool (P F_DONE (D_ended i))" for P
    using cnt_change [OF assms(2), of ?s s P] other i assms(3,4) by simp
  show "counts_ok n ?s"
    unfolding counts_ok_def cnt using s(4) by (simp add: counts_ok_def set_flags_def flags_defs)
  show "thread_ok j (flag ?s j) (gpc ?s j)" if "j < n" for j
    using other [of j] i s(2) [OF that] by (cases "j = i") auto
  show "lock_ok n ?s"
    using s(3) assms(5) by (simp add: lock_ok_def set_flags_def)
  have "1 \<le> tconn s"
    using s(4) assms(2,3) cnt_pos [of n "\<lambda>fl pc. fl \<noteq> 0 \<and> fl \<noteq> F_JOINED" s] by (fastforce simp: counts_ok_def flags_defs)
  then show "main_ok m n ?s (mainpc ?s)" "tconn ?s \<le> max 0 m"
    using s(5) by (auto simp: set_flags_def)
qed (use web03_okD(1) [OF assms(1)] in \<open>simp add: set_flags_def\<close>)

lemma first_unused:
  assumes "web03_ok m n s" and "0 < tleftconn s"
  shows "\<exists>i. find (\<lambda>i. flag s i = 0) [0..<length (tfiles s)] = Some i \<and> i < n \<and> flag s i = 0"
proof -
  note s = web03_okD [OF assms(1)]
  let ?find = "find (\<lambda>i. flag s i = 0) [0..<length (tfiles s)]"
  have "\<exists>i<n. flag s i = 0"
    using assms(2) s(4) cnt_pos [of n "\<lambda>fl pc. fl = 0" s] by (simp add: counts_ok_def)
  then show ?thesis
    using s(1) by (cases ?find) (auto simp: find_None_iff find_Some_iff)
qed

lemma done_flag:
  assumes "web03_ok m n s" and "i < n"
  shows "flag s i AND F_DONE \<noteq> 0 \<longleftrightarrow> flag s i = F_DONE"
proof -
  have "0 AND 4 = (0 :: nat)" "1 AND 4 = (0 :: nat)" "2 AND 4 = (0 :: nat)" "8 AND 4 = (0 :: nat)" "4 AND 4 \<noteq> (0 :: nat)"
    by code_simp+
  moreover have "flag s i \<in> {0, 1, 2, 4, 8}"
    using web03_okD(2) [OF assms] by (cases "gpc s i") (auto simp: flags_defs)
  ultimately show ?thesis
    by (auto simp: flags_defs)
qed

text \<open>A scanned element: not done, joined, or not yet ended, in which case the thread waits for the mutex.\<close>

lemma scan_step:
  assumes "web03_ok m n s" and "mainpc s = W_scan i" and "i < n"
  shows "web03_main c s = Ret (s\<lparr>mainpc := W_scan (i + 1)\<rparr>)
    \<or> flag s i = F_DONE \<and> gpc s i = D_ended i \<and> web03_main c s = Ret ((set_flags i F_JOINED s)
        \<lparr>ndone := ndone s - 1, tconn := tconn s - 1, tleftread := tleftread s - 1, mainpc := W_scan (i + 1)\<rparr>)
    \<or> gpc s i = D_lock \<and> web03_main c s = Blocks"
proof -
  note s = web03_okD [OF assms(1)]
  have "\<not> holds (gpc s i)"
    using s(3) assms(2,3) by (auto simp: lock_ok_def)
  then show ?thesis
    using done_flag [OF assms(1,3)] s(1) s(2) [OF assms(3)] assms(2,3)
    by (cases "gpc s i") (auto simp: web03_main_def flags_defs)
qed

lemma web03_main_ok:
  assumes "web03_ok m n s"
  shows "case web03_main m s of Ret s' \<Rightarrow> web03_ok m n s' | Exits e \<Rightarrow> False | Blocks \<Rightarrow> True"
proof -
  note s = web03_okD [OF assms]
  note move = waiter_moves [OF assms lock_ok_main [OF s(3)]]
  note go = main_goes [OF assms]
  show ?thesis
  proof (cases "mainpc s")
    case W_outer
    then show ?thesis
      using go [of "if tleftread s > 0 then W_inner else W_exited"] by (simp add: web03_main_def)
  next
    case W_inner
    then show ?thesis
      using first_unused [OF assms] started [OF assms] go [of W_lock] s(6) by (force simp: web03_main_def)
  next
    case W_lock
    then show ?thesis
      using move [of "Some By_main" W_test] s(6) by (simp add: web03_main_def)
  next
    case W_test
    then show ?thesis
      using move [of None W_wait] go [of "W_scan 0"] s(6) counted_ended [OF assms] ndone_nonneg [OF assms]
      by (simp add: web03_main_def)
  next
    case W_woken
    then show ?thesis
      using move [of "Some By_main" W_test] s(6) by (simp add: web03_main_def)
  next
    case (W_scan i)
    show ?thesis
    proof (cases "i < n")
      case True
      then show ?thesis
        using scan_step [OF assms W_scan True, of m] joined [OF assms True] go [of "W_scan (i + 1)"] s(6) W_scan by auto
    next
      case False
      then show ?thesis
        using go [of W_unlock] s(1) W_scan by (simp add: web03_main_def)
    qed
  next
    case W_unlock
    then show ?thesis
      using move [of None W_outer] by (simp add: web03_main_def)
  qed (simp_all add: web03_main_def)
qed

lemma web03_start_ok: "web03_ok m n (web03_start n)"
  by (rule web03_okI) (simp_all add: web03_start_def lock_ok_def counts_ok_def cnt_def flags_defs)

lemma web03_step_ok:
  assumes "web03_step m n s s'" and "web03_ok m n s"
  shows "web03_ok m n s'"
  using assms
proof cases
  case main
  then show ?thesis
    using web03_main_ok [OF assms(2)] by simp
next
  case (thread i a)
  then show ?thesis
    using do_get_read_ok [OF assms(2)] by blast
next
  case spurious
  then show ?thesis
    using main_goes [OF assms(2), of W_woken] web03_okD(6) [OF assms(2)] by simp
qed

lemma web03_run_ok: "web03_run m n s \<Longrightarrow> web03_ok m n s"
  by (induction rule: web03_run.induct) (auto intro: web03_start_ok web03_step_ok)

section \<open>Progress\<close>

text \<open>The main thread waits, with the mutex, for the end of a thread that waits for the mutex.\<close>

definition join_locked :: "nat \<Rightarrow> web03 \<Rightarrow> bool" where
  "join_locked n s \<longleftrightarrow> (\<exists>i<n. mainpc s = W_scan i \<and> gpc s i = D_lock)"

lemma join_locked_stays:
  assumes "web03_ok m n s" and "join_locked n s" and "web03_step m n s s'"
  shows "join_locked n s'"
proof -
  obtain i where i: "i < n" "mainpc s = W_scan i" "gpc s i = D_lock"
    using assms(2) by (auto simp: join_locked_def)
  have lock: "ndone_mutex s = Some By_main"
    using web03_okD(3) [OF assms(1)] i(2) by (simp add: lock_ok_def)
  from assms(3) show ?thesis
  proof cases
    case main
    then show ?thesis
      using i scan_step [OF assms(1) i(2,1), of m] web03_okD(2) [OF assms(1) i(1)] done_flag [OF assms(1) i(1)] web03_okD(1) [OF assms(1)]
      by (simp add: web03_main_def)
  next
    case (thread j a)
    then have "j \<noteq> i"
      using i(3) lock by (auto simp: do_get_read_def)
    then have "mainpc s' = W_scan i" "gpc s' i = D_lock"
      using thread(2) i(2,3)
      by (cases "gpc s j"; auto simp: do_get_read_def Let_def set_flags_def split: if_splits option.splits wread.splits)+
    then show ?thesis
      using i(1) by (auto simp: join_locked_def)
  qed (use i(2) in simp)
qed

lemma holder_goes:
  assumes "web03_ok m n s" and "ndone_mutex s = Some (By i)"
  shows "i < n" and "do_get_read i a s \<noteq> Blocks"
proof -
  have "i < n" "holds (gpc s i)"
    using web03_okD(3) [OF assms(1)] assms(2) by (auto simp: lock_ok_def)
  then show "i < n" "do_get_read i a s \<noteq> Blocks"
    by (cases "gpc s i"; simp add: do_get_read_def Let_def)+
qed

text \<open>While the main thread sleeps, a thread can go on.\<close>

lemma sleeping_goes:
  assumes "web03_ok m n s" and "mainpc s = W_wait" and "0 < m"
  shows "\<exists>i<n. do_get_read i a s \<noteq> Blocks"
proof (cases "ndone_mutex s")
  case None
  note s = web03_okD [OF assms(1)]
  have left: "0 < tleftread s" "m \<le> tconn s \<or> tleftconn s \<le> 0" "ndone s = 0 \<or> (\<exists>i<n. gpc s i = D_signal)"
    using s(6) assms(2) by auto
  have nosig: "\<not> holds (gpc s i)" if "i < n" for i
    using s(3) None that by (auto simp: lock_ok_def)
  then have "ndone s = 0"
    using left(3) by fastforce
  have "\<exists>i<n. flag s i \<noteq> 0 \<and> flag s i \<noteq> F_JOINED"
  proof (cases "m \<le> tconn s")
    case True
    then show ?thesis
      using assms(3) s(4) cnt_pos [of n "\<lambda>fl pc. fl \<noteq> 0 \<and> fl \<noteq> F_JOINED" s] by (simp add: counts_ok_def)
  next
    case False
    obtain i where i: "i < n" "flag s i \<noteq> F_JOINED"
      using left(1) s(4) cnt_pos [of n "\<lambda>fl pc. fl \<noteq> F_JOINED" s] by (auto simp: counts_ok_def)
    have "\<not> 0 < cnt n (\<lambda>fl pc. fl = 0) s"
      using False left(2) s(4) by (simp add: counts_ok_def)
    then show ?thesis
      using i by (auto simp: cnt_pos)
  qed
  then obtain i where i: "i < n" "flag s i \<noteq> 0" "flag s i \<noteq> F_JOINED"
    by blast
  have "\<not> counted (flag s i) (gpc s i)"
    using \<open>ndone s = 0\<close> s(4) cnt_pos [of n counted s] i(1) by (auto simp: counts_ok_def)
  then have "do_get_read i a s \<noteq> Blocks"
    using s(2) [OF i(1)] i(2,3) None
    by (cases "gpc s i") (auto simp: do_get_read_def Let_def split: option.splits wread.splits)
  then show ?thesis
    using i(1) by blast
next
  case (Some h)
  then have "h \<noteq> By_main"
    using web03_okD(3) [OF assms(1)] assms(2) by (auto simp: lock_ok_def)
  then show ?thesis
    using Some holder_goes [OF assms(1)] by (cases h) auto
qed

lemma web03_goes:
  assumes "web03_ok m n s" and "0 < m" and "mainpc s \<noteq> W_exited" and "\<not> join_locked n s"
  shows "web03_main m s \<noteq> Blocks \<or> (\<exists>i<n. do_get_read i a s \<noteq> Blocks)"
proof -
  have lock: "\<exists>i<n. do_get_read i a s \<noteq> Blocks" if free: "mainpc s = W_lock \<or> mainpc s = W_woken" "ndone_mutex s \<noteq> None"
  proof -
    obtain h where h: "ndone_mutex s = Some h"
      using free(2) by blast
    moreover have "h \<noteq> By_main"
      using web03_okD(3) [OF assms(1)] free(1) h by (auto simp: lock_ok_def)
    ultimately show ?thesis
      using holder_goes [OF assms(1)] by (cases h) auto
  qed
  show ?thesis
  proof (cases "mainpc s")
    case (W_scan i)
    show ?thesis
    proof (cases "i < n")
      case True
      then show ?thesis
        using scan_step [OF assms(1) W_scan True, of m] assms(4) W_scan by (auto simp: join_locked_def)
    qed (use W_scan web03_okD(1) [OF assms(1)] in \<open>simp add: web03_main_def\<close>)
  qed (use assms lock sleeping_goes [OF assms(1)] in \<open>auto simp: web03_main_def split: option.splits\<close>)
qed

text \<open>With one connection at a time no other thread can be done when the main thread joins one.\<close>

lemma one_at_a_time:
  assumes "web03_ok m n s" and "m \<le> 1"
  shows "\<not> join_locked n s"
proof
  note s = web03_okD [OF assms(1)]
  let ?active = "\<lambda>i. i < n \<and> flag s i \<noteq> 0 \<and> flag s i \<noteq> F_JOINED"
  assume "join_locked n s"
  then obtain i where i: "i < n" "mainpc s = W_scan i" "gpc s i = D_lock"
    by (auto simp: join_locked_def)
  have conn: "tconn s = int (card {i. ?active i})"
    using s(4) by (simp add: counts_ok_def cnt_card)
  have act: "?active i"
    using s(2) [OF i(1)] i by (simp add: flags_defs)
  then have "0 < card {i. ?active i}"
    by (subst card_gt_0_iff) auto
  then have "\<not> tconn s \<le> m - 1"
    using conn assms(2) by linarith
  then obtain j where j: "j < n" "gpc s j = D_ended j" "flag s j = F_DONE"
    using s(6) i(2) by auto
  have "card {i, j} \<le> card {i. ?active i}"
    using act j by (intro card_mono) (auto simp: flags_defs)
  moreover have "i \<noteq> j"
    using i(3) j(2) by auto
  ultimately show False
    using s(5) conn assms(2) by simp
qed

text \<open>Executing a schedule: a step of the main thread, or of a thread with its answers.\<close>

fun web03_exec :: "int \<Rightarrow> (nat \<times> ganswer) option list \<Rightarrow> web03 \<Rightarrow> web03 outcome" where
  "web03_exec m [] s = Ret s"
| "web03_exec m (None # xs) s = bind_outcome (web03_main m s) (web03_exec m xs)"
| "web03_exec m (Some (i, a) # xs) s = bind_outcome (do_get_read i a s) (web03_exec m xs)"

lemma web03_exec_run:
  "web03_run m n s \<Longrightarrow> \<forall>i a. Some (i, a) \<in> set xs \<longrightarrow> i < n \<Longrightarrow> web03_exec m xs s = Ret s' \<Longrightarrow> web03_run m n s'"
proof (induction m xs s rule: web03_exec.induct)
  case (2 m xs s)
  then show ?case
    by (cases "web03_main m s") (auto intro: web03_run.step web03_step.main)
next
  case (3 m i a xs s)
  have "i < n"
    using "3.prems"(2) by simp
  then have "web03_run m n s1" if "do_get_read i a s = Ret s1" for s1
    using web03_run.step [OF "3.prems"(1) web03_step.thread] that by blast
  then show ?case
    using 3 by (cases "do_get_read i a s") auto
qed simp

text \<open>The first thread ends; the second is done and has not yet locked the mutex when the main thread reaches it.\<close>

definition good_answer :: ganswer where
  "good_answer = \<lparr>g_connect = Some 5, g_written = True, g_read = Read_eof\<rparr>"

definition bad_schedule :: "(nat \<times> ganswer) option list" where
  "bad_schedule =
     replicate 4 None @ replicate 7 (Some (0, good_answer)) @ replicate 2 None @ replicate 3 (Some (1, good_answer)) @ [None]"

lemma bad_schedule_locks:
  "\<exists>s. web03_run 2 2 s \<and> join_locked 2 s \<and> tconn s = 1 \<and> flag s 0 = F_JOINED \<and> mainpc s = W_scan 1 \<and> gpc s 1 = D_lock"
proof -
  have bits: "4 AND 4 = (4 :: nat)"
    by code_simp
  have "\<exists>s. web03_exec 2 bad_schedule (web03_start 2) = Ret s \<and> tconn s = 1 \<and> flag s 0 = F_JOINED \<and> mainpc s = W_scan 1 \<and> gpc s 1 = D_lock"
    by (simp add: bad_schedule_def good_answer_def web03_start_def web03_main_def do_get_read_def set_flags_def flags_defs bits
        numeral_eq_Suc Let_def)
  then obtain s where s: "web03_exec 2 bad_schedule (web03_start 2) = Ret s" "tconn s = 1" "flag s 0 = F_JOINED" "mainpc s = W_scan 1" "gpc s 1 = D_lock"
    by blast
  have "\<forall>i a. Some (i, a) \<in> set bad_schedule \<longrightarrow> i < 2"
    by (auto simp: bad_schedule_def)
  then have "web03_run 2 2 s"
    using web03_exec_run [OF web03_run.start _ s(1)] by blast
  then show ?thesis
    using s(2-5) by (auto simp: join_locked_def)
qed

section \<open>Properties\<close>

text \<open>
  (C4) The web client with threads, in every state of every interleaving: the counters count the
  connections, of which there are at most \<^verbatim>\<open>maxnconn\<close>, the files not yet begun, those not yet joined, and
  in \<^verbatim>\<open>ndone\<close> the threads behind their increment that are not yet joined; neither of the two error exits
  of the main thread is reached, and it leaves its loop only when all files are joined. But a thread
  says that it is done before it asks for the mutex, and the main thread joins it with the mutex in its
  hands: then both wait for each other for ever, which does happen with two connections. In all other
  states, with a positive limit, some thread can go on, and with one connection at a time the client
  never gets stuck.
\<close>

theorem threaded_web_client:
  assumes "web03_run maxnconn n s"
  shows "tconn s = int (card {i. i < n \<and> flag s i \<noteq> 0 \<and> flag s i \<noteq> F_JOINED}) \<and> tconn s \<le> max 0 maxnconn
    \<and> tleftconn s = int (card {i. i < n \<and> flag s i = 0}) \<and> tleftread s = int (card {i. i < n \<and> flag s i \<noteq> F_JOINED})
    \<and> ndone s = int (card {i. i < n \<and> counted (flag s i) (gpc s i)})
    \<and> (\<forall>e. web03_main maxnconn s \<noteq> Exits e) \<and> (mainpc s = W_exited \<longrightarrow> (\<forall>i<n. flag s i = F_JOINED))
    \<and> (join_locked n s \<longrightarrow> (\<forall>s'. web03_step maxnconn n s s' \<longrightarrow> join_locked n s'))
    \<and> (0 < maxnconn \<and> mainpc s \<noteq> W_exited \<and> \<not> join_locked n s \<longrightarrow>
         web03_main maxnconn s \<noteq> Blocks \<or> (\<exists>i<n. do_get_read i a s \<noteq> Blocks))
    \<and> (maxnconn \<le> 1 \<longrightarrow> \<not> join_locked n s) \<and> (\<exists>s. web03_run 2 2 s \<and> join_locked 2 s)"
proof -
  note ok = web03_run_ok [OF assms]
  note s = web03_okD [OF ok]
  have "\<forall>e. web03_main maxnconn s \<noteq> Exits e"
    using web03_main_ok [OF ok] by auto
  moreover have "\<forall>i<n. flag s i = F_JOINED" if "mainpc s = W_exited"
    using s(4,6) that cnt_pos [of n "\<lambda>fl pc. fl \<noteq> F_JOINED" s] by (auto simp: counts_ok_def)
  ultimately show ?thesis
    using s(4,5) join_locked_stays [OF ok] web03_goes [OF ok] one_at_a_time [OF ok] bad_schedule_locks unfolding counts_ok_def cnt_card by blast
qed

theorem threaded_web_client_witness:
  "\<exists>s. web03_run 2 2 s \<and> tconn s = 1 \<and> card {i. i < 2 \<and> flag s i \<noteq> 0 \<and> flag s i \<noteq> F_JOINED} = 1
    \<and> join_locked 2 s \<and> (\<forall>s'. web03_step 2 2 s s' \<longrightarrow> join_locked 2 s')"
proof -
  obtain s where s: "web03_run 2 2 s" "join_locked 2 s" "tconn s = 1"
    using bad_schedule_locks by blast
  then show ?thesis
    using threaded_web_client [OF s(1)] by (intro exI [of _ s]) auto
qed

end
