(* ===== verification/Spec2Isabelle.thy ===== *)
theory Spec2Isabelle
  imports Inet6_Props Udp_Packet Traceroute Framing Rtt Mcast Gai_Names Sock_Open Mux_Poll Mux_Select Mux_Epoll Reactor Codec Muduo_Loop
    Nonblock Prefork Prethread Sigio Icmpd Web_Threads
begin

text \<open>
  A verification of the network programming library and of the servers and clients of this repository:
  the C library of \<^verbatim>\<open>src/unpv13e\<close> (\<^verbatim>\<open>lib/\<close>, \<^verbatim>\<open>libfree/\<close>, \<^verbatim>\<open>libgai/\<close>) with programs built on it, and the
  exercises beside it (message framing, multiplexing servers, an epoll reactor, a chat server and a
  small event loop in C++).

  \<^bold>\<open>How the code is modelled.\<close> A function of the source is a function of the same name on explicit
  state; variables that live across calls are a record. Machine integers are words where their width
  matters and numbers elsewhere. What the kernel answers is an argument: a script of answers, a
  function, or a record for one round of a loop, and the theorems hold for all of them unless they
  say otherwise. \<^verbatim>\<open>Exits\<close> of the type \<open>outcome\<close> ends the program with a message, \<open>Blocks\<close> waits for
  ever or for another process, and \<^term>\<open>None\<close> is undefined behaviour or, for \<open>onMessage\<close>, a loop that does
  not end. Programs of several threads or processes, and a signal handler, are step functions with a
  program counter each, and an inductive predicate interleaves them in every possible way; memory is
  taken to be sequentially consistent. What happened (bytes sent, connections accepted) is kept in
  additional components of the state that the code does not read.

  \<^bold>\<open>Addresses and packets.\<close>
  \<^item> \<open>Inet4_Text\<close>, \<open>Inet6_Text\<close>, \<open>Inet6_Laws\<close>, \<open>Inet6_Props\<close>: \<^verbatim>\<open>libfree/inet_pton.c\<close>, \<^verbatim>\<open>inet_ntop.c\<close>,
    \<^verbatim>\<open>inet_aton.c\<close> and the IPv4-only variants. Exact language of the IPv4 parser, safety of the IPv6
    parser, bounds of the printers, and round trips, the latter through the locale \<open>addr_text\<close>.
  \<^item> \<open>Bytes\<close>, \<open>Checksum\<close>: memory accesses and byte orders; \<^verbatim>\<open>libfree/in_cksum.c\<close> is the one's-complement
    sum. The locale \<open>cksum_field\<close> says that a packet sealed with its checksum verifies.
  \<^item> \<open>Ping\<close>, \<open>Udp_Packet\<close>, \<open>Traceroute\<close>: building and examining packets in \<^verbatim>\<open>ping/\<close>, \<^verbatim>\<open>udpcksum/\<close> and
    \<^verbatim>\<open>traceroute/\<close>: what is sent verifies and is recognised, received packets are read within bounds,
    and the loop over hop limits ends.
  \<^item> \<open>Sockaddr\<close>, \<open>Mcast\<close>: \<^verbatim>\<open>lib/sock_*.c\<close> and \<^verbatim>\<open>lib/mcast_*.c\<close>.

  \<^bold>\<open>Names and sockets.\<close>
  \<^item> \<open>Gai\<close>, \<open>Gai_Props\<close>, \<open>Gai_Names\<close>: \<^verbatim>\<open>libgai/\<close>. No undefined behaviour whatever allocations fail,
    what is allocated and freed, the result for a host name, and numeric names there and back.
  \<^item> \<open>Sock_Open\<close>: \<^verbatim>\<open>lib/tcp_connect.c\<close>, \<^verbatim>\<open>tcp_listen.c\<close>, \<^verbatim>\<open>udp_*.c\<close>, \<^verbatim>\<open>host_serv.c\<close>. They are clients of the
    locale \<open>name_service\<close>, interpreted on the \<^verbatim>\<open>getaddrinfo\<close> of \<^verbatim>\<open>libgai\<close>; \<open>opener\<close> joins it with
    \<open>socket_user\<close>, the attempt to use one address, and is interpreted for each of the functions.

  \<^bold>\<open>Streams and requests.\<close>
  \<^item> \<open>Stream_IO\<close>, \<open>Stream_Props\<close>: \<^verbatim>\<open>readn\<close>, \<^verbatim>\<open>writen\<close>, \<^verbatim>\<open>readline\<close>, \<^verbatim>\<open>str_echo\<close>, \<^verbatim>\<open>str_cli\<close>. The result depends on
    the byte stream and not on how it is cut; the locale \<open>byte_source\<close> covers the buffered and the
    unbuffered \<^verbatim>\<open>readline\<close>.
  \<^item> \<open>Framing\<close>, \<open>Codec\<close>: messages with a length in front, \<^verbatim>\<open>socket.c\<close> and the chat server. The buffer
    of the muduo library is a parameter with the hypothesis \<open>buffer_ok\<close>.
  \<^item> \<open>Rtt\<close>: \<^verbatim>\<open>lib/rtt.c\<close> with the rounding of \<^verbatim>\<open>float\<close> and \<^verbatim>\<open>double\<close>, and \<^verbatim>\<open>rtt/dg_send_recv.c\<close>.

  \<^bold>\<open>Event loops.\<close>
  \<^item> \<open>Mux\<close> with \<open>Mux_Poll\<close>, \<open>Mux_Select\<close>, \<open>Mux_Epoll\<close>: six servers, each an interpretation of the locale
    \<open>multiplexer\<close>, that is a refinement of one abstract server.
  \<^item> \<open>Reactor\<close>, \<open>Muduo_Loop\<close>: the table of callbacks over epoll, and \<^verbatim>\<open>mymuduo\<close>.
  \<^item> \<open>Nonblock\<close>, \<open>Web\<close>: the clients of \<^verbatim>\<open>nonblock/\<close> with \<^verbatim>\<open>select\<close>, \<^verbatim>\<open>connect_nonb\<close>, \<^verbatim>\<open>connect_timeo\<close>.
  \<^item> \<open>Icmpd\<close>, over \<open>Fd_Pass\<close> (\<^verbatim>\<open>lib/write_fd.c\<close>, \<^verbatim>\<open>lib/read_fd.c\<close>): the ICMP daemon.

  \<^bold>\<open>Concurrency.\<close>
  \<^item> \<open>Prefork\<close>, \<open>Prethread\<close>: \<^verbatim>\<open>server/serv05.c\<close> and \<^verbatim>\<open>serv08.c\<close>: nothing lost or served twice, mutual
    exclusion, no lost wakeup, no deadlock, and when \<^verbatim>\<open>serv08\<close> gives up.
  \<^item> \<open>Sigio\<close>: \<^verbatim>\<open>sigio/dgecho01.c\<close>, a queue shared with a signal handler.
  \<^item> \<open>Web_Threads\<close>: \<^verbatim>\<open>threads/web03.c\<close>: its counters are right, and it has a deadlock, which is
    characterised.

  \<open>Prelude\<close> has what the components share: strings and digits, outcomes, ring buffers, counting.

  \<^bold>\<open>Bounds and fuel.\<close> Loops over input recurse on the script of answers or have a termination proof.
  The only counter that stands for fuel is that of \<open>start_conns\<close> in \<open>Web\<close>: every pass decreases
  \<^verbatim>\<open>nlefttoconn\<close>, with which it starts, and \<open>start_conns_ok\<close> shows that the loop has then ended by its
  own condition. The length 131074 of the checksum is where its 32-bit sum could overflow, 65507 the
  largest UDP payload; sizes of arrays are those of the source.

  \<^bold>\<open>Left out of modelled programs.\<close> Text for the terminal, command lines, and the set-up before the
  main loop where it only calls the system. In \<open>Nonblock\<close>, \<open>Prefork\<close>, \<open>Prethread\<close>, \<open>Sigio\<close>, \<open>Icmpd\<close>,
  \<open>Web\<close> and \<open>Web_Threads\<close> also those failures of wrapped system calls that end the process and are not
  named in the model, and the handlers for \<^verbatim>\<open>SIGINT\<close> and \<^verbatim>\<open>SIGHUP\<close>; serving a connection is one step.
  In the multiplexing servers \<^verbatim>\<open>write\<close> takes all its bytes and the multiplexing call does not fail.

  \<^bold>\<open>Not modelled.\<close>
  \<^item> Code that is mostly calls of libraries or generated code outside the repository: protocol
    buffers, RPC and gRPC, JSON, the muduo examples, the capture part of \<^verbatim>\<open>udpcksum\<close>.
  \<^item> Programs about structures of the kernel headers: interfaces, routes, keys, SCTP, STREAMS.
  \<^item> \<^verbatim>\<open>lib/wrap*.c\<close>, error messages, daemons and signals: one system call each, or formatted output.
  \<^item> Second implementations of what is modelled: \<^verbatim>\<open>libfree/getaddrinfo.c\<close>, \<^verbatim>\<open>bsdping\<close>, \<^verbatim>\<open>libgai/old\<close>, the
    other designs of \<^verbatim>\<open>server/\<close>, the other web clients of \<^verbatim>\<open>threads/\<close>, the second reactor.
  \<^item> The \<^verbatim>\<open>sock\<close> tool and the short programs of the chapters and exercises, most of which show one
    socket call or option. They could be modelled; they add little to the functions they call.
\<close>

end
